theory Spec2Isabelle
  imports Main
begin

unbundle bit_operations_syntax

section \<open>Machine integers\<close>

text \<open>
  The driver's counters and indices are fixed-width unsigned integers. They are modelled
  as natural numbers, and every place where the C code can wrap around has the reduction
  written out.
\<close>

definition u16 :: "nat \<Rightarrow> nat" where
  "u16 x = x mod 65536"

definition u32 :: "nat \<Rightarrow> nat" where
  "u32 x = x mod 4294967296"

definition u64 :: "nat \<Rightarrow> nat" where
  "u64 x = x mod 18446744073709551616"

text \<open>Unsigned subtraction \<open>a - b\<close> of two 32-bit (64-bit) values.\<close>

definition u32_sub :: "nat \<Rightarrow> nat \<Rightarrow> nat" where
  "u32_sub a b = (u32 a + 4294967296 - u32 b) mod 4294967296"

definition u64_sub :: "nat \<Rightarrow> nat \<Rightarrow> nat" where
  "u64_sub a b = (u64 a + 18446744073709551616 - u64 b) mod 18446744073709551616"

text \<open>\<open>DMA_MAPPING_ERROR\<close> of the kernel: the all-ones bus address.\<close>

definition DMA_MAPPING_ERROR :: nat where
  "DMA_MAPPING_ERROR = 18446744073709551615"

definition dma_mapping_error :: "nat \<Rightarrow> bool" where
  "dma_mapping_error dma_addr = (dma_addr = DMA_MAPPING_ERROR)"

section \<open>Data model\<close>

text \<open>
  The packet object of the network stack, reduced to the fields that
  \<^verbatim>\<open>ionic_txrx.c\<close> reads: total length, length of the linear head, the sizes of the
  page fragments, the segmentation parameters, the header offsets used for the TSO header
  length, and the flags consulted by the send path.
\<close>

record sk_buff =
  skb_len :: nat
  skb_headlen :: nat
  skb_frags :: "nat list"
  gso_size :: nat
  gso_segs :: nat
  gso_outer_csum :: bool
  vlan_tag_present :: bool
  vlan_tag :: nat
  encapsulation :: bool
  transport_offset :: nat
  tcp_hdrlen :: nat
  inner_transport_offset :: nat
  inner_tcp_hdrlen :: nat
  queue_mapping :: nat
  csum_partial :: bool
  csum_start_offset :: nat
  csum_offset :: nat
  tx_flags_hw_tstamp :: bool
  xmit_more :: bool

text \<open>The two completion callbacks that a ring slot can carry.\<close>

datatype ionic_desc_cb = ionic_rx_clean_cb | ionic_tx_clean_cb

text \<open>
  Calls into the kernel and writes to the device, in the order the driver makes them.
  A queue keeps the log of the calls made on its behalf.
\<close>

datatype event =
    DbellRing nat
  | DmaMapSingle nat nat
  | DmaMapFrag nat nat
  | DmaMapPage nat
  | DmaUnmapSingle nat nat
  | DmaUnmapPage nat nat
  | AllocPages nat
  | FreePages nat
  | PageRefAdd "nat option" nat
  | PageRefSub nat nat
  | GetPage "nat option"
  | ConsumeSkb sk_buff
  | KfreeSkb sk_buff
  | KfreeRxSkb
  | StopSubqueue nat
  | WakeSubqueue nat
  | SkbTstampTx sk_buff nat
  | TxSentQueue nat
  | TxCompletedQueue nat nat
  | NapiGroReceive nat
  | NapiGroFrags "(nat \<times> nat \<times> nat) list"
  | ModTimer

text \<open>
  \<^verbatim>\<open>struct ionic_buf_info\<close>: one DMA-mapped buffer of a slot. \<open>page = None\<close> is the
  null page pointer.
\<close>

record ionic_buf_info =
  page :: "nat option"
  page_offset :: nat
  dma_addr :: nat
  len :: nat
  pagecnt_bias :: nat

text \<open>
  The hardware descriptor of a slot, decoded: the opcode, the four flag bits that
  \<^verbatim>\<open>ionic_txrx.c\<close> sets, and the scalar fields. \<open>d_nsge\<close> counts the elements of
  the scatter-gather array; the elements themselves are kept with the slot.
\<close>

datatype desc_opcode =
    OPCODE_NONE
  | RXQ_DESC_OPCODE_SIMPLE
  | RXQ_DESC_OPCODE_SG
  | TXQ_DESC_OPCODE_CSUM_NONE
  | TXQ_DESC_OPCODE_CSUM_PARTIAL
  | TXQ_DESC_OPCODE_TSO

record ionic_desc =
  opcode :: desc_opcode
  FLAG_VLAN :: bool
  FLAG_ENCAP :: bool
  FLAG_TSO_SOT :: bool
  FLAG_TSO_EOT :: bool
  d_nsge :: nat
  d_addr :: nat
  d_len :: nat
  d_vlan_tci :: nat
  d_hdr_len :: nat
  d_mss :: nat
  d_csum_start :: nat
  d_csum_offset :: nat

definition zero_desc :: ionic_desc where
  "zero_desc = \<lparr>opcode = OPCODE_NONE, FLAG_VLAN = False, FLAG_ENCAP = False,
     FLAG_TSO_SOT = False, FLAG_TSO_EOT = False, d_nsge = 0, d_addr = 0, d_len = 0,
     d_vlan_tci = 0, d_hdr_len = 0, d_mss = 0, d_csum_start = 0, d_csum_offset = 0\<rparr>"

text \<open>
  \<^verbatim>\<open>struct ionic_desc_info\<close>: the software metadata of one ring slot, with the
  descriptor it points to and the elements of its transmit scatter-gather descriptor
  (\<^verbatim>\<open>txq_sg_desc->elems\<close>), each an address and a 16-bit length.
\<close>

record ionic_desc_info =
  cb :: "ionic_desc_cb option"
  cb_arg :: "sk_buff option"
  nbufs :: nat
  bufs :: "ionic_buf_info list"
  bytes :: nat
  desc :: ionic_desc
  txq_sg_elems :: "(nat \<times> nat) list"

text \<open>
  One descriptor handed to the hardware by \<^verbatim>\<open>ionic_q_post\<close>, with the scatter-gather
  elements of its slot.
\<close>

record posted =
  p_slot :: nat
  p_desc :: ionic_desc
  p_sg :: "(nat \<times> nat) list"
  p_cb :: "ionic_desc_cb option"
  p_cb_arg :: "sk_buff option"
  p_ring_dbell :: bool

text \<open>
  A completion entry (\<^verbatim>\<open>struct ionic_txq_comp\<close>, \<^verbatim>\<open>struct ionic_rxq_comp\<close>) together
  with the hardware timestamp stored in front of it.
\<close>

record ionic_cq_info =
  color :: bool
  comp_index :: nat
  status :: nat
  comp_len :: nat
  num_sg_elems :: nat
  hwstamp :: nat

definition IONIC_HWSTAMP_INVALID :: nat where
  "IONIC_HWSTAMP_INVALID = 18446744073709551615"

text \<open>
  \<^verbatim>\<open>struct ionic_queue\<close> with the statistics of its queue pair and the state of the
  network device reachable through \<^verbatim>\<open>q->lif->netdev\<close> that the code reads or writes:
  the MTU, the copy-break threshold, the set of stopped subqueues and the jiffies clock.
  \<open>posts\<close> and \<open>events\<close> record what was handed to the hardware and to the kernel;
  \<open>kcalls\<close> counts the kernel calls whose outcome the driver cannot determine
  (allocation, DMA mapping).
\<close>

record ionic_queue =
  head_idx :: nat
  tail_idx :: nat
  num_descs :: nat
  max_sg_elems :: nat
  index :: nat
  hwstamp_feature :: bool
  info :: "ionic_desc_info list"
  dbell_deadline :: nat
  dbell_jiffies :: nat
  stop :: nat
  wake :: nat
  drop_count :: nat
  tx_pkts :: nat
  tx_bytes :: nat
  tx_tso :: nat
  tx_tso_bytes :: nat
  tx_clean :: nat
  tx_linearize :: nat
  tx_dma_map_err :: nat
  tx_hwstamp_valid :: nat
  tx_hwstamp_invalid :: nat
  rx_pkts :: nat
  rx_bytes :: nat
  rx_dropped :: nat
  rx_alloc_err :: nat
  rx_dma_map_err :: nat
  mtu :: nat
  rx_copybreak :: nat
  jiffies :: nat
  stopped :: "nat set"
  posts :: "posted list"
  events :: "event list"
  kcalls :: nat

text \<open>
  Constants of \<^verbatim>\<open>ionic_dev.h\<close> and \<^verbatim>\<open>ionic_txrx.h\<close>, compile-time switches, and the
  outcomes of kernel calls that depend on the machine's state. None of them is defined
  in the two source files; the model takes them as parameters. \<open>concurrent_clean\<close> is
  what the completion path, running on another processor, does to a transmit queue
  between the two space checks of \<^verbatim>\<open>ionic_maybe_stop_tx\<close>.
\<close>

record ionic_env =
  IONIC_PAGE_SIZE :: nat
  IONIC_PAGE_SPLIT_SZ :: nat
  IONIC_PAGE_SPLIT_MAX_MTU :: nat
  IONIC_PAGE_ORDER :: nat
  IONIC_RX_MAX_SG_ELEMS :: nat
  IONIC_RX_MIN_DOORBELL_DEADLINE :: nat
  IONIC_RX_MAX_DOORBELL_DEADLINE :: nat
  IONIC_SUPPORTS_BQL :: bool
  CONFIG_PTP_1588_CLOCK :: bool
  dev_page_is_reusable :: "nat option \<Rightarrow> bool"
  alloc_pages :: "nat \<Rightarrow> nat option"
  dma_map :: "nat \<Rightarrow> nat"
  skb_alloc :: "nat \<Rightarrow> bool"
  skb_cow_head :: "nat \<Rightarrow> int"
  skb_linearize :: "nat \<Rightarrow> int"
  concurrent_clean :: "ionic_queue \<Rightarrow> ionic_queue"

definition ETH_HLEN :: nat where "ETH_HLEN = 14"
definition VLAN_HLEN :: nat where "VLAN_HLEN = 4"

definition log_event :: "event \<Rightarrow> ionic_queue \<Rightarrow> ionic_queue" where
  "log_event e q = q\<lparr>events := events q @ [e]\<rparr>"

section \<open>Descriptor ring\<close>

text \<open>
  The index step written in every drain and post loop,
  \<^verbatim>\<open>(idx + 1) & (q->num_descs - 1)\<close>, stored back into a 16-bit index.
\<close>

definition ring_next :: "nat \<Rightarrow> nat \<Rightarrow> nat" where
  "ring_next idx n = u16 ((idx + 1) AND u32_sub n 1)"

text \<open>
  Modelled from the spec: \<^verbatim>\<open>color_match\<close> of \<^verbatim>\<open>ionic_dev.h\<close> is not under src/.
  An entry is valid for consumption only when its color matches the expected
  generation's color.
\<close>

definition color_match :: "bool \<Rightarrow> bool \<Rightarrow> bool" where
  "color_match c done_color = (c = done_color)"

text \<open>
  Modelled from the spec: \<^verbatim>\<open>ionic_q_space_avail\<close> of \<^verbatim>\<open>ionic_dev.h\<close> is not under
  src/. The count of free slots is \<open>N - 1 - ((head_idx - tail_idx) mod N)\<close>, one slot
  always being reserved.
\<close>

definition ionic_q_space_avail :: "ionic_queue \<Rightarrow> nat" where
  "ionic_q_space_avail q =
     num_descs q - 1 - ((head_idx q + num_descs q - tail_idx q) mod num_descs q)"

text \<open>
  Modelled from the spec: \<^verbatim>\<open>ionic_q_has_space\<close> of \<^verbatim>\<open>ionic_dev.h\<close> is not under
  src/. It compares the free slots with the demand.
\<close>

definition ionic_q_has_space :: "ionic_queue \<Rightarrow> nat \<Rightarrow> bool" where
  "ionic_q_has_space q want = (ionic_q_space_avail q \<ge> want)"

text \<open>
  Modelled from the spec: \<^verbatim>\<open>ionic_q_post\<close> of \<^verbatim>\<open>ionic_dev.c\<close> is not under src/.
  It writes the software metadata at \<open>head_idx\<close>, advances \<open>head_idx\<close> modulo N and
  conditionally rings the doorbell. The descriptor of the slot and its scatter-gather
  elements, as they stand at this moment, are what the hardware receives.
\<close>

definition ionic_q_post ::
  "ionic_queue \<Rightarrow> bool \<Rightarrow> ionic_desc_cb option \<Rightarrow> sk_buff option \<Rightarrow> ionic_queue" where
  "ionic_q_post q ring_dbell cb_func arg =
     (let h = head_idx q;
          di = (info q ! h)\<lparr>cb := cb_func, cb_arg := arg\<rparr>;
          q1 = q\<lparr>info := (info q)[h := di],
                 posts := posts q @ [\<lparr>p_slot = h, p_desc = desc di,
                                      p_sg = txq_sg_elems di, p_cb = cb_func,
                                      p_cb_arg = arg, p_ring_dbell = ring_dbell\<rparr>],
                 head_idx := ring_next h (num_descs q)\<rparr>
      in if ring_dbell then log_event (DbellRing (head_idx q1)) q1 else q1)"

definition ionic_txq_post ::
  "ionic_queue \<Rightarrow> bool \<Rightarrow> ionic_desc_cb option \<Rightarrow> sk_buff option \<Rightarrow> ionic_queue" where
  "ionic_txq_post q ring_dbell cb_func arg = ionic_q_post q ring_dbell cb_func arg"

definition ionic_rxq_post ::
  "ionic_queue \<Rightarrow> bool \<Rightarrow> ionic_desc_cb option \<Rightarrow> sk_buff option \<Rightarrow> ionic_queue" where
  "ionic_rxq_post q ring_dbell cb_func arg = ionic_q_post q ring_dbell cb_func arg"

section \<open>Transmit completion\<close>

definition ionic_tx_desc_unmap_bufs :: "ionic_queue \<Rightarrow> nat \<Rightarrow> ionic_queue" where
  "ionic_tx_desc_unmap_bufs q di =
     (let d = info q ! di in
      if nbufs d = 0 then q
      else q\<lparr>info := (info q)[di := d\<lparr>nbufs := 0\<rparr>],
             events := events q @
               DmaUnmapSingle (dma_addr (bufs d ! 0)) (len (bufs d ! 0)) #
               map (\<lambda>i. DmaUnmapPage (dma_addr (bufs d ! i)) (len (bufs d ! i)))
                 [1..<nbufs d]\<rparr>)"

text \<open>
  \<^verbatim>\<open>ionic_tx_clean\<close> on the slot \<open>di\<close>. \<open>cq_info = None\<close> is the null pointer that
  \<^verbatim>\<open>ionic_tx_empty\<close> passes.
\<close>

definition ionic_tx_clean ::
  "ionic_queue \<Rightarrow> nat \<Rightarrow> ionic_cq_info option \<Rightarrow> sk_buff option \<Rightarrow> ionic_queue" where
  "ionic_tx_clean q di cq_info arg =
     (let q1 = ionic_tx_desc_unmap_bufs q di in
      case arg of
        None \<Rightarrow> q1
      | Some skb \<Rightarrow>
          let qi = queue_mapping skb;
              q2 = (if hwstamp_feature q1 then
                      (case cq_info of
                         None \<Rightarrow> q1
                       | Some ci \<Rightarrow>
                           if hwstamp ci \<noteq> IONIC_HWSTAMP_INVALID
                           then (log_event (SkbTstampTx skb (hwstamp ci)) q1)
                                  \<lparr>tx_hwstamp_valid := u64 (tx_hwstamp_valid q1 + 1)\<rparr>
                           else q1\<lparr>tx_hwstamp_invalid := u64 (tx_hwstamp_invalid q1 + 1)\<rparr>)
                    else if qi \<in> stopped q1
                    then (log_event (WakeSubqueue qi) q1)
                           \<lparr>stopped := stopped q1 - {qi}, wake := wake q1 + 1\<rparr>
                    else q1);
              q3 = q2\<lparr>info := (info q2)[di := (info q2 ! di)\<lparr>bytes := skb_len skb\<rparr>],
                      tx_clean := u64 (tx_clean q2 + 1)\<rparr>
          in log_event (ConsumeSkb skb) q3)"

text \<open>
  The body shared by the loops of \<^verbatim>\<open>ionic_tx_service\<close> and \<^verbatim>\<open>ionic_tx_empty\<close>:
  take the slot at \<open>tail_idx\<close>, clear its byte count, advance \<open>tail_idx\<close>, clean the
  slot, account the packet, and clear the callback. The state carries the local
  counters \<open>pkts\<close> and \<open>bytes\<close>, which are C ints: the sums are kept in 32 bits.
\<close>

definition tx_drain_slot ::
  "ionic_cq_info option \<Rightarrow> ionic_queue \<times> nat \<times> nat \<Rightarrow> ionic_queue \<times> nat \<times> nat" where
  "tx_drain_slot cq_info s =
     (case s of (q, pkts, nbytes) \<Rightarrow>
        let t = tail_idx q;
            q1 = q\<lparr>info := (info q)[t := (info q ! t)\<lparr>bytes := 0\<rparr>]\<rparr>;
            q2 = q1\<lparr>tail_idx := ring_next t (num_descs q1)\<rparr>;
            q3 = ionic_tx_clean q2 t cq_info (cb_arg (info q2 ! t));
            acc = (if cb_arg (info q3 ! t) \<noteq> None
                   then (u32 (pkts + 1), u32 (nbytes + bytes (info q3 ! t)))
                   else (pkts, nbytes));
            q4 = q3\<lparr>info := (info q3)[t := (info q3 ! t)\<lparr>cb := None, cb_arg := None\<rparr>]\<rparr>
        in (q4, acc))"

text \<open>
  The \<^verbatim>\<open>do ... while (index != comp_index)\<close> loop. It has no bound of its own, so the
  model is a partial function: \<open>None\<close> is a loop that never ends.
\<close>

partial_function (option) tx_service_loop ::
  "ionic_cq_info \<Rightarrow> ionic_queue \<times> nat \<times> nat \<Rightarrow> (ionic_queue \<times> nat \<times> nat) option" where
  "tx_service_loop cqe s =
     (if tail_idx (fst s) \<noteq> u16 (comp_index cqe)
      then tx_service_loop cqe (tx_drain_slot (Some cqe) s)
      else Some (tx_drain_slot (Some cqe) s))"

declare tx_service_loop.simps [code]

definition tx_completed_queue ::
  "ionic_env \<Rightarrow> ionic_queue \<times> nat \<times> nat \<Rightarrow> ionic_queue" where
  "tx_completed_queue env s =
     (case s of (q, pkts, nbytes) \<Rightarrow>
        if IONIC_SUPPORTS_BQL env \<and> pkts \<noteq> 0 \<and> nbytes \<noteq> 0 \<and> \<not> hwstamp_feature q
        then log_event (TxCompletedQueue pkts nbytes) q else q)"

definition ionic_tx_service ::
  "ionic_env \<Rightarrow> bool \<Rightarrow> ionic_cq_info \<Rightarrow> ionic_queue \<Rightarrow> (bool \<times> ionic_queue) option" where
  "ionic_tx_service env done_color cqe q =
     (if \<not> color_match (color cqe) done_color then Some (False, q)
      else case tx_service_loop cqe (q, 0, 0) of
             None \<Rightarrow> None
           | Some s \<Rightarrow> Some (True, tx_completed_queue env s))"

text \<open>The \<^verbatim>\<open>while (q->head_idx != q->tail_idx)\<close> loop of \<^verbatim>\<open>ionic_tx_empty\<close>.\<close>

partial_function (option) tx_empty_loop ::
  "ionic_queue \<times> nat \<times> nat \<Rightarrow> (ionic_queue \<times> nat \<times> nat) option" where
  "tx_empty_loop s =
     (if head_idx (fst s) \<noteq> tail_idx (fst s)
      then tx_empty_loop (tx_drain_slot None s)
      else Some s)"

declare tx_empty_loop.simps [code]

definition ionic_tx_empty :: "ionic_env \<Rightarrow> ionic_queue \<Rightarrow> ionic_queue option" where
  "ionic_tx_empty env q =
     (case tx_empty_loop (q, 0, 0) of
        None \<Rightarrow> None
      | Some s \<Rightarrow> Some (tx_completed_queue env s))"

section \<open>Receive buffers\<close>

definition get_buf :: "ionic_queue \<Rightarrow> nat \<Rightarrow> nat \<Rightarrow> ionic_buf_info" where
  "get_buf q di bj = bufs (info q ! di) ! bj"

definition set_buf :: "ionic_queue \<Rightarrow> nat \<Rightarrow> nat \<Rightarrow> ionic_buf_info \<Rightarrow> ionic_queue" where
  "set_buf q di bj b =
     q\<lparr>info := (info q)[di := (info q ! di)\<lparr>bufs := (bufs (info q ! di))[bj := b]\<rparr>]\<rparr>"

text \<open>
  The kernel's \<^verbatim>\<open>ALIGN(x, a)\<close> on a 32-bit \<open>x\<close>:
  \<^verbatim>\<open>(x + (a - 1)) & ~(a - 1)\<close>, every operation in 32 bits.
\<close>

definition ALIGN :: "nat \<Rightarrow> nat \<Rightarrow> nat" where
  "ALIGN x a = u32 (x + u32_sub a 1) AND (4294967295 - u32_sub a 1)"

text \<open>
  \<^verbatim>\<open>min_t(u16, a, b)\<close>: both operands are cast to 16 bits before the comparison.
\<close>

definition min_t_u16 :: "nat \<Rightarrow> nat \<Rightarrow> nat" where
  "min_t_u16 a b = min (u16 a) (u16 b)"

text \<open>
  \<^verbatim>\<open>ionic_rx_page_alloc\<close> on buffer \<open>bj\<close> of slot \<open>di\<close>. The result is the error code
  (\<open>-ENOMEM\<close> is \<open>-12\<close>, \<open>-EIO\<close> is \<open>-5\<close>) and the queue. The buffer pointer that the
  callers pass is never null.
\<close>

definition ionic_rx_page_alloc ::
  "ionic_env \<Rightarrow> ionic_queue \<Rightarrow> nat \<Rightarrow> nat \<Rightarrow> int \<times> ionic_queue" where
  "ionic_rx_page_alloc env q di bj =
     (let q1 = q\<lparr>kcalls := kcalls q + 1\<rparr> in
      case alloc_pages env (kcalls q) of
        None \<Rightarrow> (- 12, q1\<lparr>rx_alloc_err := u64 (rx_alloc_err q1 + 1)\<rparr>)
      | Some pg \<Rightarrow>
          let a = dma_map env (kcalls q1);
              q2 = (log_event (AllocPages pg) q1)\<lparr>kcalls := kcalls q1 + 1\<rparr>;
              q3 = set_buf q2 di bj ((get_buf q2 di bj)\<lparr>dma_addr := a\<rparr>)
          in if dma_mapping_error a
             then (- 5, (log_event (FreePages pg) q3)\<lparr>rx_dma_map_err := u64 (rx_dma_map_err q3 + 1)\<rparr>)
             else
               let b = get_buf q3 di bj;
                   b1 = b\<lparr>page := Some pg, page_offset := 0\<rparr>;
                   b2 = (if IONIC_PAGE_ORDER env > 0 then b1\<lparr>pagecnt_bias := 0\<rparr> else b1)
               in (0, set_buf (log_event (DmaMapPage a) q3) di bj b2))"

definition ionic_rx_page_free ::
  "ionic_env \<Rightarrow> ionic_queue \<Rightarrow> nat \<Rightarrow> nat \<Rightarrow> ionic_queue" where
  "ionic_rx_page_free env q di bj =
     (let b = get_buf q di bj in
      case page b of
        None \<Rightarrow> q
      | Some pg \<Rightarrow>
          let q1 = log_event (DmaUnmapPage (dma_addr b) (IONIC_PAGE_SIZE env)) q;
              q2 = (if IONIC_PAGE_ORDER env > 0 \<and> pagecnt_bias b \<noteq> 0
                    then log_event (PageRefSub pg (pagecnt_bias b)) q1 else q1);
              q3 = log_event (FreePages pg) q2
          in set_buf q3 di bj (b\<lparr>page := None\<rparr>))"

text \<open>
  \<^verbatim>\<open>ionic_rx_buf_recycle\<close>. \<open>page_offset\<close> is a 32-bit field and is advanced before
  the bound is tested, so a refused segment keeps the advanced offset.
\<close>

definition ionic_rx_buf_recycle ::
  "ionic_env \<Rightarrow> ionic_queue \<Rightarrow> nat \<Rightarrow> nat \<Rightarrow> nat \<Rightarrow> bool \<times> ionic_queue" where
  "ionic_rx_buf_recycle env q di bj used =
     (let b = get_buf q di bj in
      if \<not> dev_page_is_reusable env (page b) then (False, q)
      else if mtu q > IONIC_PAGE_SPLIT_MAX_MTU env then (False, q)
      else
        let size = ALIGN used (IONIC_PAGE_SPLIT_SZ env);
            b1 = b\<lparr>page_offset := u32 (page_offset b + size)\<rparr>;
            q1 = set_buf q di bj b1
        in if page_offset b1 \<ge> IONIC_PAGE_SIZE env then (False, q1)
           else if IONIC_PAGE_ORDER env > 0
           then (True, set_buf q1 di bj (b1\<lparr>pagecnt_bias := u32_sub (pagecnt_bias b1) 1\<rparr>))
           else (True, log_event (GetPage (page b1)) q1))"

section \<open>Receive completion\<close>

text \<open>
  The \<^verbatim>\<open>do ... while (i > 0)\<close> loop of \<^verbatim>\<open>ionic_rx_frags\<close>, entered with
  \<open>i = num_sg_elems + 1\<close>, so it runs \<open>i\<close> times. The state is the remaining length,
  the fragments attached to the packet so far (page, offset, length) and the queue;
  the result \<open>None\<close> is the null packet returned when a buffer has no page.
\<close>

fun rx_frags_loop ::
  "ionic_env \<Rightarrow> nat \<Rightarrow> nat \<Rightarrow> nat \<Rightarrow> nat \<Rightarrow> (nat \<times> nat \<times> nat) list \<Rightarrow> ionic_queue \<Rightarrow>
     (nat \<times> nat \<times> nat) list option \<times> ionic_queue" where
  "rx_frags_loop env 0 di bj rlen frags q = (Some frags, q)"
| "rx_frags_loop env (Suc i) di bj rlen frags q =
     (let b = get_buf q di bj in
      case page b of
        None \<Rightarrow> (None, log_event KfreeRxSkb q)
      | Some pg \<Rightarrow>
          let frag_len = min_t_u16 rlen (u64_sub (IONIC_PAGE_SIZE env) (page_offset b));
              rlen1 = u16 (rlen + 65536 - frag_len);
              frags1 = frags @ [(pg, page_offset b, frag_len)];
              r = ionic_rx_buf_recycle env q di bj frag_len;
              q1 = (if \<not> fst r
                    then set_buf
                           (log_event (DmaUnmapPage (dma_addr (get_buf (snd r) di bj))
                               (IONIC_PAGE_SIZE env)) (snd r))
                           di bj ((get_buf (snd r) di bj)\<lparr>page := None\<rparr>)
                    else snd r)
          in rx_frags_loop env i di (bj + 1) rlen1 frags1 q1)"

definition ionic_rx_frags ::
  "ionic_env \<Rightarrow> ionic_queue \<Rightarrow> nat \<Rightarrow> ionic_cq_info \<Rightarrow>
     (nat \<times> nat \<times> nat) list option \<times> ionic_queue" where
  "ionic_rx_frags env q di cqe =
     (let q1 = q\<lparr>kcalls := kcalls q + 1\<rparr> in
      if \<not> skb_alloc env (kcalls q)
      then (None, q1\<lparr>rx_alloc_err := u64 (rx_alloc_err q1 + 1)\<rparr>)
      else rx_frags_loop env (num_sg_elems cqe + 1) di 0 (u16 (comp_len cqe)) [] q1)"

text \<open>
  \<^verbatim>\<open>ionic_rx_copybreak\<close>: the packet is a copy of \<open>len\<close> bytes; the buffer stays as
  it is. The result is the length of the copy, or \<open>None\<close> for the null packet.
\<close>

definition ionic_rx_copybreak ::
  "ionic_env \<Rightarrow> ionic_queue \<Rightarrow> nat \<Rightarrow> ionic_cq_info \<Rightarrow> nat option \<times> ionic_queue" where
  "ionic_rx_copybreak env q di cqe =
     (let q1 = q\<lparr>kcalls := kcalls q + 1\<rparr> in
      if \<not> skb_alloc env (kcalls q)
      then (None, q1\<lparr>rx_alloc_err := u64 (rx_alloc_err q1 + 1)\<rparr>)
      else if page (get_buf q1 di 0) = None then (None, log_event KfreeRxSkb q1)
      else (Some (u16 (comp_len cqe)), q1))"

text \<open>
  \<^verbatim>\<open>ionic_rx_clean\<close> on slot \<open>di\<close>. Between building the packet and handing it to the
  stack the source copies hash, checksum, VLAN tag and timestamp from the completion into
  the packet; that touches no field of the queue and is not represented.
\<close>

definition ionic_rx_clean ::
  "ionic_env \<Rightarrow> ionic_queue \<Rightarrow> nat \<Rightarrow> ionic_cq_info \<Rightarrow> ionic_queue" where
  "ionic_rx_clean env q di cqe =
     (if status cqe \<noteq> 0 then q\<lparr>rx_dropped := u64 (rx_dropped q + 1)\<rparr>
      else if u16 (comp_len cqe) > u32 (mtu q + ETH_HLEN + VLAN_HLEN)
      then q\<lparr>rx_dropped := u64 (rx_dropped q + 1)\<rparr>
      else
        let q1 = q\<lparr>rx_pkts := u64 (rx_pkts q + 1), rx_bytes := u64 (rx_bytes q + u16 (comp_len cqe))\<rparr>
        in if u16 (comp_len cqe) \<le> rx_copybreak q1
           then (case ionic_rx_copybreak env q1 di cqe of
                   (None, q2) \<Rightarrow> q2\<lparr>rx_dropped := u64 (rx_dropped q2 + 1)\<rparr>
                 | (Some n, q2) \<Rightarrow> log_event (NapiGroReceive n) q2)
           else (case ionic_rx_frags env q1 di cqe of
                   (None, q2) \<Rightarrow> q2\<lparr>rx_dropped := u64 (rx_dropped q2 + 1)\<rparr>
                 | (Some frags, q2) \<Rightarrow> log_event (NapiGroFrags frags) q2))"

definition ionic_rx_service ::
  "ionic_env \<Rightarrow> bool \<Rightarrow> ionic_cq_info \<Rightarrow> ionic_queue \<Rightarrow> bool \<times> ionic_queue" where
  "ionic_rx_service env done_color cqe q =
     (if \<not> color_match (color cqe) done_color then (False, q)
      else if tail_idx q = head_idx q then (False, q)
      else if tail_idx q \<noteq> u16 (comp_index cqe) then (False, q)
      else
        let t = tail_idx q;
            q1 = q\<lparr>tail_idx := ring_next t (num_descs q)\<rparr>;
            q2 = ionic_rx_clean env q1 t cqe;
            q3 = q2\<lparr>info := (info q2)[t := (info q2 ! t)\<lparr>cb := None, cb_arg := None\<rparr>]\<rparr>
        in (True, q3))"

section \<open>Receive fill and teardown\<close>

text \<open>
  The step written twice in \<^verbatim>\<open>ionic_rx_fill\<close>: when buffer \<open>bj\<close> of slot \<open>di\<close> has no
  page, allocate one and, for split pages, take \<open>nsplits - 1\<close> extra references.
  The result is \<open>False\<close> when the allocation failed.
\<close>

definition rx_fill_buf ::
  "ionic_env \<Rightarrow> nat \<Rightarrow> ionic_queue \<Rightarrow> nat \<Rightarrow> nat \<Rightarrow> bool \<times> ionic_queue" where
  "rx_fill_buf env nsplits q di bj =
     (if page (get_buf q di bj) = None then
        (case ionic_rx_page_alloc env q di bj of (err, q1) \<Rightarrow>
           if err \<noteq> 0 then (False, q1)
           else if IONIC_PAGE_ORDER env > 0 then
             (let b = (get_buf q1 di bj)\<lparr>pagecnt_bias := u32_sub nsplits 1\<rparr>;
                  q2 = set_buf q1 di bj b
              in (True, if pagecnt_bias b \<noteq> 0
                        then log_event (PageRefAdd (page b) (pagecnt_bias b)) q2
                        else q2))
           else (True, q1))
      else (True, q))"

text \<open>
  The scatter-gather loop
  \<^verbatim>\<open>for (j = 0; remain_len > 0 && j < q->max_sg_elems; j++)\<close>; the list holds the
  buffer indices \<open>j + 1\<close> still to visit. The state is the remaining length, the
  fragment count and the queue.
\<close>

fun rx_fill_sg ::
  "ionic_env \<Rightarrow> nat \<Rightarrow> nat \<Rightarrow> nat list \<Rightarrow> nat \<Rightarrow> nat \<Rightarrow> ionic_queue \<Rightarrow>
     bool \<times> nat \<times> ionic_queue" where
  "rx_fill_sg env nsplits di [] remain nfrags q = (True, nfrags, q)"
| "rx_fill_sg env nsplits di (bj # bjs) remain nfrags q =
     (if remain > 0 then
        (case rx_fill_buf env nsplits q di bj of (ok, q1) \<Rightarrow>
           if \<not> ok then (False, nfrags, q1)
           else
             let frag_len = min_t_u16 remain
                   (u64_sub (IONIC_PAGE_SIZE env) (page_offset (get_buf q1 di bj)))
             in rx_fill_sg env nsplits di bjs (remain - frag_len) (nfrags + 1) q1)
      else (True, nfrags, q))"

text \<open>One pass of the outer loop of \<^verbatim>\<open>ionic_rx_fill\<close>: fill and post the slot at
  \<open>head_idx\<close>. The result is \<open>False\<close> when an allocation failed and the function
  returns at once.\<close>

definition rx_fill_slot ::
  "ionic_env \<Rightarrow> nat \<Rightarrow> nat \<Rightarrow> ionic_queue \<Rightarrow> bool \<times> ionic_queue" where
  "rx_fill_slot env flen nsplits q =
     (let di = head_idx q in
      case rx_fill_buf env nsplits q di 0 of (ok, q1) \<Rightarrow>
        if \<not> ok then (False, q1)
        else
          let b = get_buf q1 di 0;
              frag_len = min_t_u16 flen (u64_sub (IONIC_PAGE_SIZE env) (page_offset b));
              tmp = zero_desc\<lparr>d_addr := u64 (dma_addr b + page_offset b), d_len := frag_len\<rparr>
          in case rx_fill_sg env nsplits di [1..<Suc (max_sg_elems q1)]
                    (flen - frag_len) 1 q1 of (ok2, nfrags, q2) \<Rightarrow>
               if \<not> ok2 then (False, q2)
               else
                 let tmp1 = tmp\<lparr>opcode := (if nfrags > 1 then RXQ_DESC_OPCODE_SG
                                               else RXQ_DESC_OPCODE_SIMPLE)\<rparr>;
                     q3 = q2\<lparr>info := (info q2)[di := (info q2 ! di)\<lparr>nbufs := nfrags,
                                                                   desc := tmp1\<rparr>]\<rparr>
                 in (True, ionic_rxq_post q3 False (Some ionic_rx_clean_cb) None))"

text \<open>The outer loop \<^verbatim>\<open>for (i = ionic_q_space_avail(q); i; i--)\<close>.\<close>

fun rx_fill_loop ::
  "ionic_env \<Rightarrow> nat \<Rightarrow> nat \<Rightarrow> nat \<Rightarrow> ionic_queue \<Rightarrow> bool \<times> ionic_queue" where
  "rx_fill_loop env flen nsplits 0 q = (True, q)"
| "rx_fill_loop env flen nsplits (Suc i) q =
     (case rx_fill_slot env flen nsplits q of (ok, q1) \<Rightarrow>
        if \<not> ok then (False, q1) else rx_fill_loop env flen nsplits i q1)"

text \<open>
  \<^verbatim>\<open>ionic_rx_fill\<close>. After a complete pass it rings the doorbell once, resets the
  doorbell deadline to the minimum and arms the timer; after a failed allocation it has
  returned before that.
\<close>

definition ionic_rx_fill :: "ionic_env \<Rightarrow> ionic_queue \<Rightarrow> ionic_queue" where
  "ionic_rx_fill env q =
     (let flen = u32 (mtu q + ETH_HLEN + VLAN_HLEN);
          nsplits = IONIC_PAGE_SIZE env div ALIGN flen (IONIC_PAGE_SPLIT_SZ env)
      in case rx_fill_loop env flen nsplits (ionic_q_space_avail q) q of (ok, q1) \<Rightarrow>
           if \<not> ok then q1
           else
             let q2 = log_event (DbellRing (head_idx q1)) q1;
                 q3 = q2\<lparr>dbell_deadline := IONIC_RX_MIN_DOORBELL_DEADLINE env,
                         dbell_jiffies := jiffies q2\<rparr>
             in log_event ModTimer q3)"

text \<open>
  The body of the inner loop of \<^verbatim>\<open>ionic_rx_empty\<close> for buffer \<open>j\<close> of slot \<open>i\<close>, and
  the body of the outer loop for slot \<open>i\<close>.
\<close>

definition rx_free_if_page :: "ionic_env \<Rightarrow> nat \<Rightarrow> nat \<Rightarrow> ionic_queue \<Rightarrow> ionic_queue" where
  "rx_free_if_page env i j q =
     (if page (get_buf q i j) \<noteq> None then ionic_rx_page_free env q i j else q)"

definition rx_empty_slot :: "ionic_env \<Rightarrow> nat \<Rightarrow> ionic_queue \<Rightarrow> ionic_queue" where
  "rx_empty_slot env i q =
     (let q1 = fold (rx_free_if_page env i) [0..<IONIC_RX_MAX_SG_ELEMS env + 1] q
      in q1\<lparr>info := (info q1)[i := (info q1 ! i)\<lparr>nbufs := 0, cb := None, cb_arg := None\<rparr>]\<rparr>)"

definition ionic_rx_empty :: "ionic_env \<Rightarrow> ionic_queue \<Rightarrow> ionic_queue" where
  "ionic_rx_empty env q =
     (fold (rx_empty_slot env) [0..<num_descs q] q)\<lparr>head_idx := 0, tail_idx := 0\<rparr>"

section \<open>Doorbell\<close>

text \<open>
  \<open>now\<close>, \<open>then\<close> and \<open>dif\<close> are \<^verbatim>\<open>unsigned long\<close>, taken as 64 bits. The
  transmit lock around the body of \<^verbatim>\<open>ionic_txq_poke_doorbell\<close> is not represented.
\<close>

definition ionic_txq_poke_doorbell :: "ionic_queue \<Rightarrow> bool \<times> ionic_queue" where
  "ionic_txq_poke_doorbell q =
     (if tail_idx q = head_idx q then (False, q)
      else
        let now = jiffies q;
            dif = u64_sub now (dbell_jiffies q)
        in if dif > dbell_deadline q
           then (True, (log_event (DbellRing (head_idx q)) q)\<lparr>dbell_jiffies := now\<rparr>)
           else (True, q))"

definition ionic_rxq_poke_doorbell :: "ionic_env \<Rightarrow> ionic_queue \<Rightarrow> bool \<times> ionic_queue" where
  "ionic_rxq_poke_doorbell env q =
     (if tail_idx q = head_idx q then (False, q)
      else
        let now = jiffies q;
            dif = u64_sub now (dbell_jiffies q)
        in if dif > dbell_deadline q
           then
             let q1 = (log_event (DbellRing (head_idx q)) q)\<lparr>dbell_jiffies := now\<rparr>;
                 dif1 = u64 (2 * dbell_deadline q1);
                 dif2 = (if dif1 > IONIC_RX_MAX_DOORBELL_DEADLINE env
                         then IONIC_RX_MAX_DOORBELL_DEADLINE env else dif1)
             in (True, q1\<lparr>dbell_deadline := dif2\<rparr>)
           else (True, q))"

section \<open>Transmit mapping\<close>

text \<open>
  \<^verbatim>\<open>ionic_tx_map_single\<close> and \<^verbatim>\<open>ionic_tx_map_frag\<close>. The bus address comes from the
  kernel; a mapping that succeeded is logged. On failure the first returns 0, the
  second returns the address it was given.
\<close>

definition ionic_tx_map_single ::
  "ionic_env \<Rightarrow> ionic_queue \<Rightarrow> nat \<Rightarrow> nat \<times> ionic_queue" where
  "ionic_tx_map_single env q n =
     (let a = dma_map env (kcalls q);
          q1 = q\<lparr>kcalls := kcalls q + 1\<rparr>
      in if dma_mapping_error a
         then (0, q1\<lparr>tx_dma_map_err := u64 (tx_dma_map_err q1 + 1)\<rparr>)
         else (a, log_event (DmaMapSingle a n) q1))"

definition ionic_tx_map_frag ::
  "ionic_env \<Rightarrow> ionic_queue \<Rightarrow> nat \<Rightarrow> nat \<times> ionic_queue" where
  "ionic_tx_map_frag env q n =
     (let a = dma_map env (kcalls q);
          q1 = q\<lparr>kcalls := kcalls q + 1\<rparr>
      in if dma_mapping_error a
         then (a, q1\<lparr>tx_dma_map_err := u64 (tx_dma_map_err q1 + 1)\<rparr>)
         else (a, log_event (DmaMapFrag a n) q1))"

text \<open>
  The fragment loop of \<^verbatim>\<open>ionic_tx_map_skb\<close> over the remaining fragment sizes.
  The result is whether every mapping succeeded, the value of \<open>frag_idx\<close> and the
  position of \<open>buf_info\<close> in the slot's buffer array at the exit, and the queue.
\<close>

fun tx_map_frags ::
  "ionic_env \<Rightarrow> nat \<Rightarrow> nat list \<Rightarrow> nat \<Rightarrow> nat \<Rightarrow> ionic_queue \<Rightarrow>
     bool \<times> nat \<times> nat \<times> ionic_queue" where
  "tx_map_frags env di [] frag_idx bi q = (True, frag_idx, bi, q)"
| "tx_map_frags env di (sz # rest) frag_idx bi q =
     (case ionic_tx_map_frag env q sz of (a, q1) \<Rightarrow>
        if dma_mapping_error a
        then (False, frag_idx, bi, q1\<lparr>tx_dma_map_err := u64 (tx_dma_map_err q1 + 1)\<rparr>)
        else tx_map_frags env di rest (frag_idx + 1) (bi + 1)
               (set_buf q1 di bi ((get_buf q1 di bi)\<lparr>dma_addr := a, len := sz\<rparr>)))"

text \<open>The loop \<^verbatim>\<open>while (frag_idx > 0)\<close> after the label \<^verbatim>\<open>dma_fail\<close>.\<close>

fun tx_map_unwind :: "nat \<Rightarrow> nat \<Rightarrow> nat \<Rightarrow> ionic_queue \<Rightarrow> nat \<times> ionic_queue" where
  "tx_map_unwind di 0 bi q = (bi, q)"
| "tx_map_unwind di (Suc frag_idx) bi q =
     tx_map_unwind di frag_idx (bi - 1)
       (log_event (DmaUnmapPage (dma_addr (get_buf q di (bi - 1)))
                                (len (get_buf q di (bi - 1)))) q)"

text \<open>\<^verbatim>\<open>ionic_tx_map_skb\<close> for the slot \<open>di\<close>; \<open>-EIO\<close> is \<open>-5\<close>.\<close>

definition ionic_tx_map_skb ::
  "ionic_env \<Rightarrow> ionic_queue \<Rightarrow> sk_buff \<Rightarrow> nat \<Rightarrow> int \<times> ionic_queue" where
  "ionic_tx_map_skb env q skb di =
     (case ionic_tx_map_single env q (skb_headlen skb) of (a, q1) \<Rightarrow>
        if dma_mapping_error a
        then (- 5, q1\<lparr>tx_dma_map_err := u64 (tx_dma_map_err q1 + 1)\<rparr>)
        else
          let q2 = set_buf q1 di 0
                     ((get_buf q1 di 0)\<lparr>dma_addr := a, len := skb_headlen skb\<rparr>)
          in case tx_map_frags env di (skb_frags skb) 0 1 q2 of
               (ok, frag_idx, bi, q3) \<Rightarrow>
                 if ok
                 then (0, q3\<lparr>info := (info q3)[di := (info q3 ! di)
                                       \<lparr>nbufs := 1 + length (skb_frags skb)\<rparr>]\<rparr>)
                 else
                   let r = tx_map_unwind di frag_idx bi q3
                   in (- 5, log_event (DmaUnmapSingle (dma_addr (get_buf (snd r) di (fst r)))
                                         (len (get_buf (snd r) di (fst r)))) (snd r)))"

section \<open>Transmit segmentation\<close>

text \<open>
  \<^verbatim>\<open>ionic_tx_tso_post\<close>: the descriptor is written into the slot at \<open>head_idx\<close> (the
  slot \<^verbatim>\<open>desc\<close> points into) and posted; the start descriptor carries the callback
  and the packet, every other one carries neither and rings the doorbell when it is
  the last.
\<close>

definition ionic_tx_tso_post ::
  "ionic_env \<Rightarrow> ionic_queue \<Rightarrow> sk_buff \<Rightarrow> nat \<Rightarrow> nat \<Rightarrow> nat \<Rightarrow> nat \<Rightarrow> nat \<Rightarrow> bool \<Rightarrow> nat \<Rightarrow>
     bool \<Rightarrow> bool \<Rightarrow> bool \<Rightarrow> ionic_queue" where
  "ionic_tx_tso_post env q skb addr nsge dlen hdrlen mss outer_csum tci has_vlan start fin =
     (let tmp = zero_desc\<lparr>opcode := TXQ_DESC_OPCODE_TSO,
                  FLAG_VLAN := has_vlan, FLAG_ENCAP := outer_csum,
                  FLAG_TSO_SOT := start, FLAG_TSO_EOT := fin,
                  d_nsge := nsge, d_addr := addr, d_len := dlen, d_vlan_tci := u16 tci,
                  d_hdr_len := u16 hdrlen, d_mss := u16 mss\<rparr>;
          h = head_idx q;
          q1 = q\<lparr>info := (info q)[h := (info q ! h)\<lparr>desc := tmp\<rparr>]\<rparr>
      in if start then
           (let q2 = (if IONIC_SUPPORTS_BQL env \<and> \<not> hwstamp_feature q1
                      then log_event (TxSentQueue (skb_len skb)) q1 else q1)
            in ionic_txq_post q2 False (Some ionic_tx_clean_cb) (Some skb))
         else ionic_txq_post q1 fin None None)"

text \<open>
  The inner loop \<^verbatim>\<open>while (seg_rem > 0)\<close> of \<^verbatim>\<open>ionic_tx_tso\<close>. \<open>bs\<close> is the part
  of the first slot's buffer array that \<^verbatim>\<open>buf_info\<close> has not passed yet. \<open>d\<close> is
  \<open>None\<close> while \<^verbatim>\<open>desc\<close> is null and otherwise holds \<open>desc_addr\<close>, the 16-bit
  \<open>desc_len\<close>, the 8-bit \<open>desc_nsge\<close> and the scatter-gather elements written
  through \<^verbatim>\<open>elem\<close> so far. Reading past the end of the buffer array has no defined
  result: the model answers \<open>None\<close>.
\<close>

function tso_seg_loop ::
  "ionic_buf_info list \<Rightarrow> nat \<Rightarrow> nat \<Rightarrow> nat \<Rightarrow> nat \<Rightarrow>
     (nat \<times> nat \<times> nat \<times> (nat \<times> nat) list) option \<Rightarrow>
     (ionic_buf_info list \<times> nat \<times> nat \<times> nat \<times>
        (nat \<times> nat \<times> nat \<times> (nat \<times> nat) list) option) option" where
  "tso_seg_loop bs frag_addr frag_rem tso_rem seg_rem d =
     (if seg_rem > 0 then
        (if frag_rem = 0 \<and> bs = [] then None
         else
           let bs1 = (if frag_rem = 0 then tl bs else bs);
               frag_addr1 = (if frag_rem = 0 then dma_addr (hd bs) else frag_addr);
               frag_rem1 = (if frag_rem = 0 then len (hd bs) else frag_rem);
               chunk_len = min frag_rem1 seg_rem;
               d1 = (case d of
                       None \<Rightarrow> Some (frag_addr1, u16 chunk_len, 0, [])
                     | Some (a, l, n, es) \<Rightarrow>
                         Some (a, l, (n + 1) mod 256, es @ [(frag_addr1, u16 chunk_len)]))
           in tso_seg_loop bs1 (u64 (frag_addr1 + chunk_len)) (frag_rem1 - chunk_len)
                (tso_rem - chunk_len) (seg_rem - chunk_len) d1)
      else Some (bs, frag_addr, frag_rem, tso_rem, d))"
  by pat_completeness auto
termination
  by (relation "measure (\<lambda>(bs, fa, fr, tr, sr, d). sr + length bs)")
     (auto simp: min_def neq_Nil_conv split: if_splits)

declare tso_seg_loop.simps [simp del]

text \<open>
  The state of the outer loop \<^verbatim>\<open>while (tso_rem > 0)\<close>: the buffers not yet
  visited, \<open>frag_addr\<close>, \<open>frag_rem\<close>, \<open>tso_rem\<close>, \<open>seg_rem\<close>, \<open>start\<close> and the
  queue.
\<close>

type_synonym tso_state =
  "ionic_buf_info list \<times> nat \<times> nat \<times> nat \<times> nat \<times> bool \<times> ionic_queue"

text \<open>
  The outer loop. When the inner loop did not run, \<^verbatim>\<open>desc\<close> is still null and the
  post writes through a null pointer: the model answers \<open>None\<close>, as it does for a loop
  that never ends. The elements that the inner loop wrote through \<^verbatim>\<open>elem\<close> went
  into the scatter-gather descriptor of the slot at \<open>head_idx\<close>, from its first element
  on; the elements behind them keep what they held (\<open>tso_write_elems\<close>).
\<close>

definition tso_write_elems :: "ionic_queue \<Rightarrow> (nat \<times> nat) list \<Rightarrow> ionic_queue" where
  "tso_write_elems q elems =
     (let h = head_idx q
      in q\<lparr>info := (info q)[h := (info q ! h)
             \<lparr>txq_sg_elems := elems @ drop (length elems) (txq_sg_elems (info q ! h))\<rparr>]\<rparr>)"

partial_function (option) tso_loop ::
  "ionic_env \<Rightarrow> sk_buff \<Rightarrow> nat \<Rightarrow> nat \<Rightarrow> tso_state \<Rightarrow> ionic_queue option" where
  "tso_loop env skb hdrlen mss st =
     (case st of (bs, frag_addr, frag_rem, tso_rem, seg_rem, start, q) \<Rightarrow>
        if tso_rem > 0 then
          (case tso_seg_loop bs frag_addr frag_rem tso_rem seg_rem None of
             None \<Rightarrow> None
           | Some (bs1, frag_addr1, frag_rem1, tso_rem1, d) \<Rightarrow>
               (case d of
                  None \<Rightarrow> None
                | Some (desc_addr, desc_len, desc_nsge, elems) \<Rightarrow>
                    tso_loop env skb hdrlen mss
                      (bs1, frag_addr1, frag_rem1, tso_rem1, min tso_rem1 mss, False,
                       (let q1 = ionic_tx_tso_post env (tso_write_elems q elems) skb
                                   desc_addr desc_nsge desc_len
                                   hdrlen mss (gso_outer_csum skb) (vlan_tag skb)
                                   (vlan_tag_present skb) start (tso_rem1 = 0)
                        in q1\<lparr>info := (info q1)[head_idx q1 :=
                                   (info q1 ! head_idx q1)\<lparr>nbufs := 0\<rparr>]\<rparr>))))
        else Some q)"

declare tso_loop.simps [code]

text \<open>
  \<^verbatim>\<open>DIV_ROUND_UP(len - hdrlen, mss)\<close> on 32-bit unsigned values.
\<close>

definition DIV_ROUND_UP :: "nat \<Rightarrow> nat \<Rightarrow> nat" where
  "DIV_ROUND_UP n d = u32 (u32 (n + d) + 4294967295) div d"

text \<open>
  \<^verbatim>\<open>ionic_tx_tso\<close>. The pseudo-header checksum is written into the packet's bytes,
  which the model does not hold; what remains of the two checksum helpers is the error
  code of \<^verbatim>\<open>skb_cow_head\<close>.
\<close>

definition ionic_tx_tso ::
  "ionic_env \<Rightarrow> ionic_queue \<Rightarrow> sk_buff \<Rightarrow> (int \<times> ionic_queue) option" where
  "ionic_tx_tso env q skb =
     (let di = head_idx q in
      case ionic_tx_map_skb env q skb di of (merr, q1) \<Rightarrow>
        if merr \<noteq> 0 then Some (- 5, q1)
        else
          let mss = gso_size skb;
              err = skb_cow_head env (kcalls q1);
              q2 = q1\<lparr>kcalls := kcalls q1 + 1\<rparr>
          in if err \<noteq> 0 then Some (err, ionic_tx_desc_unmap_bufs q2 di)
             else
               let hdrlen = (if encapsulation skb
                             then u32 (inner_transport_offset skb + inner_tcp_hdrlen skb)
                             else u32 (transport_offset skb + tcp_hdrlen skb));
                   tso_rem = skb_len skb;
                   seg_rem = min tso_rem (u32 (hdrlen + mss))
               in (case tso_loop env skb hdrlen mss
                          (bufs (info q2 ! di), 0, 0, tso_rem, seg_rem, True, q2) of
                     None \<Rightarrow> None
                   | Some q3 \<Rightarrow>
                       Some (0, q3\<lparr>tx_pkts := u64 (tx_pkts q3
                                       + DIV_ROUND_UP (u32_sub (skb_len skb) hdrlen) mss),
                                    tx_bytes := u64 (tx_bytes q3 + skb_len skb),
                                    tx_tso := u64 (tx_tso q3 + 1),
                                    tx_tso_bytes := skb_len skb\<rparr>)))"

section \<open>Transmit of one descriptor\<close>

text \<open>
  \<^verbatim>\<open>ionic_tx_calc_csum\<close> and \<^verbatim>\<open>ionic_tx_calc_no_csum\<close> write the descriptor of the
  slot; \<^verbatim>\<open>ionic_tx_skb_frags\<close> fills one scatter-gather element for every fragment,
  from the buffers \<open>bufs[1]\<close>, \<open>bufs[2]\<close>, \<dots> of the slot.
\<close>

definition ionic_tx_calc_csum :: "ionic_queue \<Rightarrow> sk_buff \<Rightarrow> nat \<Rightarrow> ionic_queue" where
  "ionic_tx_calc_csum q skb di =
     (let b = get_buf q di 0;
          tmp = zero_desc\<lparr>opcode := TXQ_DESC_OPCODE_CSUM_PARTIAL,
                  FLAG_VLAN := vlan_tag_present skb, FLAG_ENCAP := encapsulation skb,
                  d_nsge := length (skb_frags skb), d_addr := dma_addr b,
                  d_len := u16 (len b),
                  d_vlan_tci := (if vlan_tag_present skb then u16 (vlan_tag skb) else 0),
                  d_csum_start := u16 (csum_start_offset skb),
                  d_csum_offset := u16 (csum_offset skb)\<rparr>
      in q\<lparr>info := (info q)[di := (info q ! di)\<lparr>desc := tmp\<rparr>]\<rparr>)"

definition ionic_tx_calc_no_csum :: "ionic_queue \<Rightarrow> sk_buff \<Rightarrow> nat \<Rightarrow> ionic_queue" where
  "ionic_tx_calc_no_csum q skb di =
     (let b = get_buf q di 0;
          tmp = zero_desc\<lparr>opcode := TXQ_DESC_OPCODE_CSUM_NONE,
                  FLAG_VLAN := vlan_tag_present skb, FLAG_ENCAP := encapsulation skb,
                  d_nsge := length (skb_frags skb), d_addr := dma_addr b,
                  d_len := u16 (len b),
                  d_vlan_tci := (if vlan_tag_present skb then u16 (vlan_tag skb) else 0)\<rparr>
      in q\<lparr>info := (info q)[di := (info q ! di)\<lparr>desc := tmp\<rparr>]\<rparr>)"

definition ionic_tx_skb_frags :: "ionic_queue \<Rightarrow> sk_buff \<Rightarrow> nat \<Rightarrow> ionic_queue" where
  "ionic_tx_skb_frags q skb di =
     (let elems = map (\<lambda>i. (dma_addr (get_buf q di (i + 1)), u16 (len (get_buf q di (i + 1)))))
                    [0..<length (skb_frags skb)]
      in q\<lparr>info := (info q)[di := (info q ! di)
             \<lparr>txq_sg_elems := elems @ drop (length elems) (txq_sg_elems (info q ! di))\<rparr>]\<rparr>)"

definition ionic_tx :: "ionic_env \<Rightarrow> ionic_queue \<Rightarrow> sk_buff \<Rightarrow> int \<times> ionic_queue" where
  "ionic_tx env q skb =
     (let di = head_idx q in
      case ionic_tx_map_skb env q skb di of (merr, q1) \<Rightarrow>
        if merr \<noteq> 0 then (- 5, q1)
        else
          let q2 = ionic_tx_skb_frags
                     (if csum_partial skb then ionic_tx_calc_csum q1 skb di
                      else ionic_tx_calc_no_csum q1 skb di) skb di;
              q3 = q2\<lparr>tx_pkts := u64 (tx_pkts q2 + 1), tx_bytes := u64 (tx_bytes q2 + skb_len skb)\<rparr>;
              q4 = (if IONIC_SUPPORTS_BQL env \<and> \<not> hwstamp_feature q3
                    then log_event (TxSentQueue (skb_len skb)) q3 else q3)
          in (0, ionic_txq_post q4 (\<not> xmit_more skb) (Some ionic_tx_clean_cb) (Some skb)))"

section \<open>Send entry point\<close>

text \<open>
  \<^verbatim>\<open>ionic_tx_descs_needed\<close>. The result is the descriptor demand or the negative error
  code of \<^verbatim>\<open>skb_linearize\<close>, the queue, and the packet, which a successful
  linearisation leaves with all its bytes in the head and no fragment.
\<close>

definition ionic_tx_descs_needed ::
  "ionic_env \<Rightarrow> ionic_queue \<Rightarrow> sk_buff \<Rightarrow> int \<times> ionic_queue \<times> sk_buff" where
  "ionic_tx_descs_needed env q skb =
     (let ndescs = (if gso_size skb \<noteq> 0 then int (gso_segs skb) else 1) in
      if length (skb_frags skb) \<le> max_sg_elems q then (ndescs, q, skb)
      else
        let err = skb_linearize env (kcalls q);
            q1 = q\<lparr>kcalls := kcalls q + 1\<rparr>
        in if err \<noteq> 0 then (err, q1, skb)
           else (ndescs, q1\<lparr>tx_linearize := u64 (tx_linearize q1 + 1)\<rparr>,
                 skb\<lparr>skb_headlen := skb_len skb, skb_frags := []\<rparr>))"

text \<open>
  \<^verbatim>\<open>ionic_maybe_stop_tx\<close>. Between the first space check and the second, which
  follows the read barrier, the completion path may have advanced the queue; that is
  the step \<open>concurrent_clean\<close>. The result is the value of \<open>stopped\<close>.
\<close>

definition ionic_maybe_stop_tx ::
  "ionic_env \<Rightarrow> ionic_queue \<Rightarrow> nat \<Rightarrow> nat \<times> ionic_queue" where
  "ionic_maybe_stop_tx env q ndescs =
     (if \<not> ionic_q_has_space q ndescs then
        (let q1 = (log_event (StopSubqueue (index q)) q)
                    \<lparr>stopped := insert (index q) (stopped q), stop := stop q + 1\<rparr>;
             q2 = concurrent_clean env q1
         in if ionic_q_has_space q2 ndescs
            then (0, (log_event (WakeSubqueue (index q2)) q2)
                       \<lparr>stopped := stopped q2 - {index q2}\<rparr>)
            else (1, q2))
      else (0, q))"

datatype netdev_tx = NETDEV_TX_OK | NETDEV_TX_BUSY

text \<open>
  The part of \<^verbatim>\<open>struct ionic_lif\<close> that the send entry point reads: the up flag, the
  transmit queues, the timestamping queue (\<open>None\<close> when there is none) and the
  timestamp mode. \<open>lif_events\<close> logs the kernel calls made before a queue is chosen.
\<close>

record ionic_lif =
  IONIC_LIF_F_UP :: bool
  nxqs :: nat
  txqcqs :: "ionic_queue list"
  hwstamp_txq :: "ionic_queue option"
  ts_config_tx_mode :: nat
  lif_events :: "event list"

definition ionic_start_hwstamp_xmit ::
  "ionic_env \<Rightarrow> ionic_queue \<Rightarrow> sk_buff \<Rightarrow> (netdev_tx \<times> ionic_queue) option" where
  "ionic_start_hwstamp_xmit env q skb0 =
     (case ionic_tx_descs_needed env q skb0 of (ndescs, q1, skb) \<Rightarrow>
        if ndescs < 0
        then Some (NETDEV_TX_OK, (log_event (KfreeSkb skb) q1)\<lparr>drop_count := drop_count q1 + 1\<rparr>)
        else if \<not> ionic_q_has_space q1 (nat ndescs)
        then Some (NETDEV_TX_OK, (log_event (KfreeSkb skb) q1)\<lparr>drop_count := drop_count q1 + 1\<rparr>)
        else
          (case (if gso_size skb \<noteq> 0 then ionic_tx_tso env q1 (skb\<lparr>tx_flags_hw_tstamp := True\<rparr>)
                 else Some (ionic_tx env q1 (skb\<lparr>tx_flags_hw_tstamp := True\<rparr>))) of
             None \<Rightarrow> None
           | Some (err, q2) \<Rightarrow>
               if err \<noteq> 0
               then Some (NETDEV_TX_OK,
                      (log_event (KfreeSkb (skb\<lparr>tx_flags_hw_tstamp := True\<rparr>)) q2)
                        \<lparr>drop_count := drop_count q2 + 1\<rparr>)
               else Some (NETDEV_TX_OK, q2)))"

text \<open>
  The end of \<^verbatim>\<open>ionic_start_xmit\<close>, below the backpressure check: send the packet
  on the queue \<open>q\<close> (number \<open>queue_index\<close>), drop it when the send fails
  (\<^verbatim>\<open>err_out_drop\<close>), and otherwise stop the queue if fewer than four descriptors
  remain.
\<close>

definition xmit_send ::
  "ionic_env \<Rightarrow> ionic_lif \<Rightarrow> nat \<Rightarrow> ionic_queue \<Rightarrow> sk_buff \<Rightarrow> (netdev_tx \<times> ionic_lif) option" where
  "xmit_send env lif queue_index q skb =
     (case (if gso_size skb \<noteq> 0 then ionic_tx_tso env q skb
            else Some (ionic_tx env q skb)) of
        None \<Rightarrow> None
      | Some (err, q3) \<Rightarrow>
          if err \<noteq> 0
          then Some (NETDEV_TX_OK,
                 lif\<lparr>txqcqs := (txqcqs lif)[queue_index :=
                   (log_event (KfreeSkb skb) q3)
                     \<lparr>stop := stop q3 + 1, drop_count := drop_count q3 + 1\<rparr>]\<rparr>)
          else Some (NETDEV_TX_OK,
                 lif\<lparr>txqcqs := (txqcqs lif)[queue_index :=
                   snd (ionic_maybe_stop_tx env q3 4)]\<rparr>))"

text \<open>
  \<^verbatim>\<open>ionic_start_xmit\<close>. The queue is chosen by the packet's queue mapping, falling
  back to queue 0.
\<close>

definition ionic_start_xmit ::
  "ionic_env \<Rightarrow> ionic_lif \<Rightarrow> sk_buff \<Rightarrow> (netdev_tx \<times> ionic_lif) option" where
  "ionic_start_xmit env lif skb0 =
     (if \<not> IONIC_LIF_F_UP lif
      then Some (NETDEV_TX_OK, lif\<lparr>lif_events := lif_events lif @ [KfreeSkb skb0]\<rparr>)
      else if CONFIG_PTP_1588_CLOCK env \<and> tx_flags_hw_tstamp skb0
              \<and> hwstamp_txq lif \<noteq> None \<and> ts_config_tx_mode lif \<noteq> 0
      then (case ionic_start_hwstamp_xmit env (the (hwstamp_txq lif)) skb0 of
              None \<Rightarrow> None
            | Some (r, q') \<Rightarrow> Some (r, lif\<lparr>hwstamp_txq := Some q'\<rparr>))
      else
        let queue_index = (if u16 (queue_mapping skb0) \<ge> nxqs lif then 0
                           else u16 (queue_mapping skb0));
            q = txqcqs lif ! queue_index
        in case ionic_tx_descs_needed env q skb0 of (ndescs, q1, skb) \<Rightarrow>
             if ndescs < 0
             then Some (NETDEV_TX_OK,
                    lif\<lparr>txqcqs := (txqcqs lif)[queue_index :=
                      (log_event (KfreeSkb skb) q1)
                        \<lparr>stop := stop q1 + 1, drop_count := drop_count q1 + 1\<rparr>]\<rparr>)
             else
               (case ionic_maybe_stop_tx env q1 (nat ndescs) of (stp, q2) \<Rightarrow>
                  if stp \<noteq> 0
                  then Some (NETDEV_TX_BUSY, lif\<lparr>txqcqs := (txqcqs lif)[queue_index := q2]\<rparr>)
                  else xmit_send env lif queue_index q2 skb))"

section \<open>Notions used by the properties\<close>

text \<open>
  A well-formed ring: the descriptor count is a power of two that fits the 16-bit
  indices, the slot array has that many slots, and both indices are inside it.
\<close>

definition ring_ok :: "nat \<Rightarrow> ionic_queue \<Rightarrow> bool" where
  "ring_ok k q =
     (k \<le> 16 \<and> num_descs q = 2 ^ k \<and> length (info q) = num_descs q \<and>
      head_idx q < num_descs q \<and> tail_idx q < num_descs q)"

text \<open>
  The slots from \<open>t\<close> up to and including \<open>c\<close>, going round the ring of \<open>n\<close> slots,
  and the number of steps from \<open>t\<close> to \<open>c\<close>.
\<close>

definition ring_span :: "nat \<Rightarrow> nat \<Rightarrow> nat \<Rightarrow> nat list" where
  "ring_span t c n = (if t \<le> c then [t..<Suc c] else [t..<n] @ [0..<Suc c])"

definition ring_dist :: "nat \<Rightarrow> nat \<Rightarrow> nat \<Rightarrow> nat" where
  "ring_dist t c n = (if t \<le> c then c - t else c + n - t)"

text \<open>The slots from \<open>t\<close> up to but excluding \<open>h\<close>: the outstanding slots of a ring.\<close>

definition ring_between :: "nat \<Rightarrow> nat \<Rightarrow> nat \<Rightarrow> nat list" where
  "ring_between t h n = (if t \<le> h then [t..<h] else [t..<n] @ [0..<h])"

text \<open>
  A transmit slot is clean when it carries no callback, no packet and no buffer. Its
  former content \<open>d\<close> has been released by the calls \<open>evs\<close> when the packet was handed
  to \<^verbatim>\<open>dev_consume_skb_any\<close> and every buffer was unmapped.
\<close>

definition slot_clean :: "ionic_desc_info \<Rightarrow> bool" where
  "slot_clean d = (cb d = None \<and> cb_arg d = None \<and> nbufs d = 0)"

definition slot_released :: "ionic_desc_info \<Rightarrow> event list \<Rightarrow> bool" where
  "slot_released d evs =
     ((case cb_arg d of None \<Rightarrow> True | Some skb \<Rightarrow> ConsumeSkb skb \<in> set evs) \<and>
      (nbufs d \<noteq> 0 \<longrightarrow>
         DmaUnmapSingle (dma_addr (bufs d ! 0)) (len (bufs d ! 0)) \<in> set evs \<and>
         (\<forall>j \<in> {1..<nbufs d}.
            DmaUnmapPage (dma_addr (bufs d ! j)) (len (bufs d ! j)) \<in> set evs)))"

text \<open>
  \<open>slot_frame di q q'\<close>: going from \<open>q\<close> to \<open>q'\<close> changed no index, no other slot
  than \<open>di\<close>, and in slot \<open>di\<close> neither the callback nor the buffer count; calls were
  only added to the log.
\<close>

definition slot_frame :: "nat \<Rightarrow> ionic_queue \<Rightarrow> ionic_queue \<Rightarrow> bool" where
  "slot_frame di q q' =
     (head_idx q' = head_idx q \<and> tail_idx q' = tail_idx q \<and> num_descs q' = num_descs q \<and>
      max_sg_elems q' = max_sg_elems q \<and> mtu q' = mtu q \<and> jiffies q' = jiffies q \<and>
      dbell_deadline q' = dbell_deadline q \<and> dbell_jiffies q' = dbell_jiffies q \<and>
      posts q' = posts q \<and>
      length (info q') = length (info q) \<and>
      (\<forall>i. i \<noteq> di \<longrightarrow> info q' ! i = info q ! i) \<and>
      cb (info q' ! di) = cb (info q ! di) \<and> cb_arg (info q' ! di) = cb_arg (info q ! di) \<and>
      nbufs (info q' ! di) = nbufs (info q ! di) \<and>
      length (bufs (info q' ! di)) = length (bufs (info q ! di)) \<and>
      (\<exists>ext. events q' = events q @ ext))"




text \<open>
  \<^verbatim>\<open>ionic_rx_fill\<close> runs to its end, that is, no allocation fails on the way.
\<close>

definition rx_fill_completes :: "ionic_env \<Rightarrow> ionic_queue \<Rightarrow> bool" where
  "rx_fill_completes env q =
     fst (rx_fill_loop env (u32 (mtu q + ETH_HLEN + VLAN_HLEN))
            (IONIC_PAGE_SIZE env div
               ALIGN (u32 (mtu q + ETH_HLEN + VLAN_HLEN)) (IONIC_PAGE_SPLIT_SZ env))
            (ionic_q_space_avail q) q)"

text \<open>
  The operations that post to, drain or tear down a ring, and a sequence of them run
  from a starting queue. A drain that never ends makes the run \<open>None\<close>.
\<close>

datatype ring_op =
    RxService bool ionic_cq_info
  | TxService bool ionic_cq_info
  | RxFill
  | TxEmpty
  | RxEmpty

fun apply_op :: "ionic_env \<Rightarrow> ring_op \<Rightarrow> ionic_queue \<Rightarrow> ionic_queue option" where
  "apply_op env (RxService done_color cqe) q = Some (snd (ionic_rx_service env done_color cqe q))"
| "apply_op env (TxService done_color cqe) q =
     map_option snd (ionic_tx_service env done_color cqe q)"
| "apply_op env RxFill q = Some (ionic_rx_fill env q)"
| "apply_op env TxEmpty q = ionic_tx_empty env q"
| "apply_op env RxEmpty q = Some (ionic_rx_empty env q)"

fun run_ops :: "ionic_env \<Rightarrow> ring_op list \<Rightarrow> ionic_queue \<Rightarrow> ionic_queue option" where
  "run_ops env [] q = Some q"
| "run_ops env (x # xs) q =
     (case apply_op env x q of None \<Rightarrow> None | Some q1 \<Rightarrow> run_ops env xs q1)"

text \<open>A transmit completion in the sequence reports an index inside the ring.\<close>

fun comp_in_ring :: "nat \<Rightarrow> ring_op \<Rightarrow> bool" where
  "comp_in_ring n (TxService done_color cqe) = (comp_index cqe < n)"
| "comp_in_ring n x = True"

text \<open>
  The queue is empty when the indices are equal, and full when posting one more
  descriptor would make them equal.
\<close>

definition q_empty :: "ionic_queue \<Rightarrow> bool" where
  "q_empty q = (head_idx q = tail_idx q)"

definition q_full :: "ionic_queue \<Rightarrow> bool" where
  "q_full q = (ring_next (head_idx q) (num_descs q) = tail_idx q)"

text \<open>Every page allocation and every DMA mapping succeeds.\<close>

definition allocs_succeed :: "ionic_env \<Rightarrow> bool" where
  "allocs_succeed env = (\<forall>n. alloc_pages env n \<noteq> None \<and> \<not> dma_mapping_error (dma_map env n))"

text \<open>
  The queue right after \<^verbatim>\<open>netif_stop_subqueue\<close> and \<open>q->stop++\<close>, and the queue
  right after \<^verbatim>\<open>netif_wake_subqueue\<close>, as \<^verbatim>\<open>ionic_maybe_stop_tx\<close> makes them.
\<close>

definition stop_marked :: "ionic_queue \<Rightarrow> ionic_queue" where
  "stop_marked q =
     (log_event (StopSubqueue (index q)) q)
       \<lparr>stopped := insert (index q) (stopped q), stop := stop q + 1\<rparr>"

definition woken :: "ionic_queue \<Rightarrow> ionic_queue" where
  "woken q = (log_event (WakeSubqueue (index q)) q)\<lparr>stopped := stopped q - {index q}\<rparr>"

text \<open>
  Segmentation offload. \<open>tso_pattern skb start new\<close> describes a run of posted
  descriptors: the start flag and the callback with its packet on the first one only (and
  only when the run opens the packet), the end flag on the last one only.
  \<open>ring_frame\<close> relates two ring states with the same indices and size,
  \<open>maps_succeed\<close> says that no DMA mapping fails, \<open>tso_hdrlen\<close> is the header length
  the function computes, and \<open>tso_inputs_ok\<close> collects what a run without error exit
  needs: mappings and \<open>skb_cow_head\<close> succeed, the slot has a buffer entry for the head
  and for every fragment, the fragments cover the packet, and header plus MSS fit 32 bits.
  \<open>posted_bytes\<close> is the number of bytes a posted descriptor covers: the length in the
  descriptor plus the lengths of its \<open>d_nsge\<close> scatter-gather elements.
  \<open>tso_seg_sizes n first mss\<close> cuts \<open>n\<close> bytes into a first piece of \<open>first\<close> bytes
  (or of all \<open>n\<close>, if that is less), pieces of \<open>mss\<close> bytes, and a last piece with
  what remains.
\<close>

definition tso_pattern :: "sk_buff \<Rightarrow> bool \<Rightarrow> posted list \<Rightarrow> bool" where
  "tso_pattern skb start new =
     (new \<noteq> [] \<and>
      map (FLAG_TSO_SOT \<circ> p_desc) new = start # replicate (length new - 1) False \<and>
      map (FLAG_TSO_EOT \<circ> p_desc) new = replicate (length new - 1) False @ [True] \<and>
      map p_cb new = (if start then Some ionic_tx_clean_cb else None)
                       # replicate (length new - 1) None \<and>
      map p_cb_arg new = (if start then Some skb else None)
                           # replicate (length new - 1) None)"

definition posted_bytes :: "posted \<Rightarrow> nat" where
  "posted_bytes p = d_len (p_desc p) + sum_list (map snd (take (d_nsge (p_desc p)) (p_sg p)))"

definition tso_rest :: "nat \<Rightarrow> nat \<Rightarrow> nat list" where
  "tso_rest r mss = replicate (r div mss) mss @ (if r mod mss = 0 then [] else [r mod mss])"

definition tso_seg_sizes :: "nat \<Rightarrow> nat \<Rightarrow> nat \<Rightarrow> nat list" where
  "tso_seg_sizes n first mss = min n first # tso_rest (n - min n first) mss"

definition ring_frame :: "ionic_queue \<Rightarrow> ionic_queue \<Rightarrow> bool" where
  "ring_frame q q' =
     (head_idx q' = head_idx q \<and> tail_idx q' = tail_idx q \<and> num_descs q' = num_descs q \<and>
      length (info q') = length (info q) \<and> posts q' = posts q \<and>
      (\<forall>i < length (info q). length (bufs (info q' ! i)) = length (bufs (info q ! i))))"

definition maps_succeed :: "ionic_env \<Rightarrow> bool" where
  "maps_succeed env = (\<forall>n. \<not> dma_mapping_error (dma_map env n))"

definition tso_hdrlen :: "sk_buff \<Rightarrow> nat" where
  "tso_hdrlen skb =
     (if encapsulation skb then inner_transport_offset skb + inner_tcp_hdrlen skb
      else transport_offset skb + tcp_hdrlen skb)"

definition tso_inputs_ok :: "ionic_env \<Rightarrow> ionic_queue \<Rightarrow> sk_buff \<Rightarrow> bool" where
  "tso_inputs_ok env q skb =
     (maps_succeed env \<and> (\<forall>n. skb_cow_head env n = 0) \<and>
      1 + length (skb_frags skb) \<le> length (bufs (info q ! head_idx q)) \<and>
      skb_len skb \<le> skb_headlen skb + sum_list (skb_frags skb) \<and>
      tso_hdrlen skb + gso_size skb < 2 ^ 32)"

text \<open>
  The calls that hand a received packet to the network stack.
\<close>

fun is_delivery :: "event \<Rightarrow> bool" where
  "is_delivery (NapiGroReceive n) = True"
| "is_delivery (NapiGroFrags fs) = True"
| "is_delivery e = False"

section \<open>Example inputs\<close>

text \<open>A small environment, packet and ring on which the theorems are exercised.\<close>

definition env0 :: ionic_env where
  "env0 = \<lparr>IONIC_PAGE_SIZE = 4096, IONIC_PAGE_SPLIT_SZ = 2048,
     IONIC_PAGE_SPLIT_MAX_MTU = 1500, IONIC_PAGE_ORDER = 0, IONIC_RX_MAX_SG_ELEMS = 2,
     IONIC_RX_MIN_DOORBELL_DEADLINE = 10, IONIC_RX_MAX_DOORBELL_DEADLINE = 4000,
     IONIC_SUPPORTS_BQL = False, CONFIG_PTP_1588_CLOCK = True,
     dev_page_is_reusable = (\<lambda>p. True), alloc_pages = (\<lambda>n. Some n),
     dma_map = (\<lambda>n. 4096 * (n + 1)), skb_alloc = (\<lambda>n. True),
     skb_cow_head = (\<lambda>n. 0), skb_linearize = (\<lambda>n. 0),
     concurrent_clean = (\<lambda>q. q)\<rparr>"

definition buf0 :: ionic_buf_info where
  "buf0 = \<lparr>page = None, page_offset = 0, dma_addr = 0, len = 0, pagecnt_bias = 0\<rparr>"

definition slot0 :: ionic_desc_info where
  "slot0 = \<lparr>cb = None, cb_arg = None, nbufs = 0, bufs = [buf0, buf0, buf0], bytes = 0,
     desc = zero_desc, txq_sg_elems = []\<rparr>"

definition skb0 :: sk_buff where
  "skb0 = \<lparr>skb_len = 100, skb_headlen = 60, skb_frags = [40], gso_size = 0, gso_segs = 0,
     gso_outer_csum = False, vlan_tag_present = False, vlan_tag = 0, encapsulation = False,
     transport_offset = 34, tcp_hdrlen = 20, inner_transport_offset = 0,
     inner_tcp_hdrlen = 0, queue_mapping = 0, csum_partial = False, csum_start_offset = 0,
     csum_offset = 0, tx_flags_hw_tstamp = False, xmit_more = False\<rparr>"

text \<open>A ring of four slots, none of them in use, with \<open>head_idx = tail_idx = 0\<close>.\<close>

definition queue0 :: ionic_queue where
  "queue0 = \<lparr>head_idx = 0, tail_idx = 0, num_descs = 4, max_sg_elems = 2, index = 0,
     hwstamp_feature = False, info = [slot0, slot0, slot0, slot0],
     dbell_deadline = 10, dbell_jiffies = 0, stop = 0, wake = 0, drop_count = 0,
     tx_pkts = 0, tx_bytes = 0, tx_tso = 0, tx_tso_bytes = 0, tx_clean = 0,
     tx_linearize = 0, tx_dma_map_err = 0, tx_hwstamp_valid = 0, tx_hwstamp_invalid = 0,
     rx_pkts = 0, rx_bytes = 0, rx_dropped = 0, rx_alloc_err = 0, rx_dma_map_err = 0,
     mtu = 1500, rx_copybreak = 256, jiffies = 100, stopped = {}, posts = [], events = [],
     kcalls = 0\<rparr>"

definition cqe0 :: ionic_cq_info where
  "cqe0 = \<lparr>color = True, comp_index = 1, status = 0, comp_len = 64, num_sg_elems = 0,
     hwstamp = 0\<rparr>"

text \<open>
  A transmit ring with two outstanding slots: slot 1 carries the packet and its two
  mapped buffers, slot 2 is a descriptor posted without callback.
\<close>

definition slot_tx :: ionic_desc_info where
  "slot_tx = \<lparr>cb = Some ionic_tx_clean_cb, cb_arg = Some skb0, nbufs = 2,
     bufs = [buf0\<lparr>dma_addr := 4096, len := 60\<rparr>, buf0\<lparr>dma_addr := 8192, len := 40\<rparr>, buf0],
     bytes = 0, desc = zero_desc, txq_sg_elems = []\<rparr>"

definition queue_tx :: ionic_queue where
  "queue_tx = queue0\<lparr>head_idx := 3, tail_idx := 1, info := [slot0, slot_tx, slot0, slot0]\<rparr>"

text \<open>A receive ring whose slot 0 holds page 7, posted and awaiting completion.\<close>

definition slot_rx :: ionic_desc_info where
  "slot_rx = \<lparr>cb = Some ionic_rx_clean_cb, cb_arg = None, nbufs = 1,
     bufs = [buf0\<lparr>page := Some 7, dma_addr := 4096\<rparr>, buf0, buf0],
     bytes = 0, desc = zero_desc, txq_sg_elems = []\<rparr>"

definition queue_rx :: ionic_queue where
  "queue_rx = queue0\<lparr>head_idx := 1, tail_idx := 0, info := [slot_rx, slot0, slot0, slot0]\<rparr>"

text \<open>An environment in which no page can be allocated.\<close>

definition env_nomem :: ionic_env where
  "env_nomem = env0\<lparr>alloc_pages := (\<lambda>n. None)\<rparr>"

text \<open>
  Environments in which the second DMA mapping fails, in which the first one fails, and
  in which the completion path frees two slots between the two space checks.
\<close>

definition env_fragfail :: ionic_env where
  "env_fragfail = env0\<lparr>dma_map := (\<lambda>n. if n = 0 then 4096 else DMA_MAPPING_ERROR)\<rparr>"

definition env_headfail :: ionic_env where
  "env_headfail = env0\<lparr>dma_map := (\<lambda>n. if n = 0 then DMA_MAPPING_ERROR else 8192)\<rparr>"

definition env_race :: ionic_env where
  "env_race = env0\<lparr>concurrent_clean := (\<lambda>q. q\<lparr>tail_idx := 2\<rparr>)\<rparr>"

text \<open>
  A full transmit ring (three of four slots in use), an interface with that ring as its
  only transmit queue, the same interface with the ring as timestamping queue, and a
  packet that asks for a hardware timestamp.
\<close>

definition queue_full :: ionic_queue where
  "queue_full = queue0\<lparr>head_idx := 3\<rparr>"

definition lif0 :: ionic_lif where
  "lif0 = \<lparr>IONIC_LIF_F_UP = True, nxqs = 1, txqcqs = [queue_full], hwstamp_txq = None,
     ts_config_tx_mode = 0, lif_events = []\<rparr>"

definition lif_hw :: ionic_lif where
  "lif_hw = lif0\<lparr>hwstamp_txq := Some queue_full, ts_config_tx_mode := 1\<rparr>"

definition skb_hw :: sk_buff where
  "skb_hw = skb0\<lparr>tx_flags_hw_tstamp := True\<rparr>"

text \<open>A packet of 3000 bytes to be segmented with an MSS of 1000 bytes.\<close>

definition skb_tso :: sk_buff where
  "skb_tso = skb0\<lparr>skb_len := 3000, skb_headlen := 1000, skb_frags := [2000],
     gso_size := 1000, gso_segs := 3\<rparr>"

section \<open>Ring arithmetic\<close>

lemma ring_next_pow2:
  assumes "n = 2 ^ k" "k \<le> 16"
  shows "ring_next t n = (t + 1) mod n"
proof -
  have le: "(2::nat) ^ k \<le> 2 ^ 16" using assms(2) by (rule power_increasing) simp
  then have n_le: "n \<le> 65536" using assms(1) by simp
  have n_pos: "0 < n" using assms(1) by simp
  have "(4294967295 + n) mod 4294967296 = n - 1"
  proof -
    have "4294967295 + n = (n - 1) + 1 * 4294967296" using n_pos by simp
    then have "(4294967295 + n) mod 4294967296 = (n - 1) mod 4294967296"
      by (metis mod_mult_self1)
    then show ?thesis using n_le by simp
  qed
  then have "u32_sub n 1 = n - 1"
    using n_le n_pos by (simp add: u32_sub_def u32_def)
  also have "\<dots> = mask k" using assms(1) by (simp add: mask_eq_exp_minus_1)
  finally have m: "u32_sub n 1 = mask k" .
  have "(t + 1) AND mask k = (t + 1) mod n"
    using assms(1) by (simp add: take_bit_eq_mask [symmetric] take_bit_eq_mod)
  moreover have "(t + 1) mod n < 65536"
    using n_le n_pos by (meson mod_less_divisor less_le_trans)
  ultimately have "u16 ((t + 1) AND mask k) = (t + 1) mod n"
    by (simp add: u16_def)
  then show ?thesis unfolding ring_next_def m .
qed

lemma ring_next_lt:
  assumes "n = 2 ^ k" "k \<le> 16"
  shows "ring_next t n < n"
  using assms by (simp add: ring_next_pow2)

lemma ring_next_step:
  assumes "n = 2 ^ k" "k \<le> 16" "t < n"
  shows "ring_next t n = (if Suc t = n then 0 else Suc t)"
  using assms by (auto simp: ring_next_pow2 mod_Suc_eq mod_Suc)

section \<open>Draining transmit slots\<close>

lemma unmap_bufs_frame:
  "head_idx (ionic_tx_desc_unmap_bufs q di) = head_idx q"
  "tail_idx (ionic_tx_desc_unmap_bufs q di) = tail_idx q"
  "num_descs (ionic_tx_desc_unmap_bufs q di) = num_descs q"
  "length (info (ionic_tx_desc_unmap_bufs q di)) = length (info q)"
  "hwstamp_feature (ionic_tx_desc_unmap_bufs q di) = hwstamp_feature q"
  "i \<noteq> di \<Longrightarrow> info (ionic_tx_desc_unmap_bufs q di) ! i = info q ! i"
  by (simp_all add: ionic_tx_desc_unmap_bufs_def Let_def)

lemma unmap_bufs_slot:
  "di < length (info q) \<Longrightarrow>
   info (ionic_tx_desc_unmap_bufs q di) ! di = (info q ! di)\<lparr>nbufs := 0\<rparr>"
  by (simp add: ionic_tx_desc_unmap_bufs_def Let_def)

lemma unmap_bufs_events:
  "events (ionic_tx_desc_unmap_bufs q di) = events q @
     (if nbufs (info q ! di) = 0 then []
      else DmaUnmapSingle (dma_addr (bufs (info q ! di) ! 0)) (len (bufs (info q ! di) ! 0)) #
           map (\<lambda>i. DmaUnmapPage (dma_addr (bufs (info q ! di) ! i)) (len (bufs (info q ! di) ! i)))
             [1..<nbufs (info q ! di)])"
  by (simp add: ionic_tx_desc_unmap_bufs_def Let_def)

lemma tx_clean_frame:
  "head_idx (ionic_tx_clean q di ci a) = head_idx q"
  "tail_idx (ionic_tx_clean q di ci a) = tail_idx q"
  "num_descs (ionic_tx_clean q di ci a) = num_descs q"
  "length (info (ionic_tx_clean q di ci a)) = length (info q)"
  "hwstamp_feature (ionic_tx_clean q di ci a) = hwstamp_feature q"
  "i \<noteq> di \<Longrightarrow> info (ionic_tx_clean q di ci a) ! i = info q ! i"
  by (simp_all add: ionic_tx_clean_def Let_def log_event_def unmap_bufs_frame
      split: option.split)

lemma tx_clean_slot:
  "di < length (info q) \<Longrightarrow>
   info (ionic_tx_clean q di ci a) ! di =
     (info q ! di)\<lparr>nbufs := 0, bytes := (case a of None \<Rightarrow> bytes (info q ! di) | Some skb \<Rightarrow> skb_len skb)\<rparr>"
  by (simp add: ionic_tx_clean_def Let_def log_event_def unmap_bufs_frame unmap_bufs_slot
      split: option.split)

lemma tx_clean_events:
  "\<exists>mid. events (ionic_tx_clean q di ci a) =
     events (ionic_tx_desc_unmap_bufs q di) @ mid @
       (case a of None \<Rightarrow> [] | Some skb \<Rightarrow> [ConsumeSkb skb])"
  by (simp add: ionic_tx_clean_def Let_def log_event_def split: option.split)

lemma drain_frame:
  assumes "tail_idx q < length (info q)"
  shows "head_idx (fst (tx_drain_slot ci (q, p, b))) = head_idx q"
    and "num_descs (fst (tx_drain_slot ci (q, p, b))) = num_descs q"
    and "length (info (fst (tx_drain_slot ci (q, p, b)))) = length (info q)"
    and "hwstamp_feature (fst (tx_drain_slot ci (q, p, b))) = hwstamp_feature q"
    and "tail_idx (fst (tx_drain_slot ci (q, p, b))) = ring_next (tail_idx q) (num_descs q)"
    and "i \<noteq> tail_idx q \<Longrightarrow> info (fst (tx_drain_slot ci (q, p, b))) ! i = info q ! i"
  using assms
  by (simp_all add: tx_drain_slot_def Let_def tx_clean_frame split: prod.split)

lemma drain_slot:
  assumes "tail_idx q < length (info q)"
  shows "slot_clean (info (fst (tx_drain_slot ci (q, p, b))) ! tail_idx q)"
  using assms
  by (simp add: tx_drain_slot_def Let_def tx_clean_frame tx_clean_slot slot_clean_def
      split: prod.split)

lemma drain_events:
  assumes "tail_idx q < length (info q)"
  shows "\<exists>ext. events (fst (tx_drain_slot ci (q, p, b))) = events q @ ext \<and>
           slot_released (info q ! tail_idx q) ext"
proof -
  let ?t = "tail_idx q"
  let ?q2 = "q\<lparr>info := (info q)[?t := (info q ! ?t)\<lparr>bytes := 0\<rparr>],
               tail_idx := ring_next ?t (num_descs q)\<rparr>"
  have ev: "events (fst (tx_drain_slot ci (q, p, b))) =
              events (ionic_tx_clean ?q2 ?t ci (cb_arg (info q ! ?t)))"
    using assms by (simp add: tx_drain_slot_def Let_def split: prod.split)
  obtain mid where mid: "events (ionic_tx_clean ?q2 ?t ci (cb_arg (info q ! ?t))) =
     events (ionic_tx_desc_unmap_bufs ?q2 ?t) @ mid @
       (case cb_arg (info q ! ?t) of None \<Rightarrow> [] | Some skb \<Rightarrow> [ConsumeSkb skb])"
    using tx_clean_events by blast
  let ?um = "(if nbufs (info q ! ?t) = 0 then []
      else DmaUnmapSingle (dma_addr (bufs (info q ! ?t) ! 0)) (len (bufs (info q ! ?t) ! 0)) #
           map (\<lambda>i. DmaUnmapPage (dma_addr (bufs (info q ! ?t) ! i)) (len (bufs (info q ! ?t) ! i)))
             [1..<nbufs (info q ! ?t)])"
  have um: "events (ionic_tx_desc_unmap_bufs ?q2 ?t) = events q @ ?um"
    using assms by (simp add: unmap_bufs_events)
  let ?ext = "?um @ mid @ (case cb_arg (info q ! ?t) of None \<Rightarrow> [] | Some skb \<Rightarrow> [ConsumeSkb skb])"
  have "events (fst (tx_drain_slot ci (q, p, b))) = events q @ ?ext"
    by (simp add: ev mid um)
  moreover have "slot_released (info q ! ?t) ?ext"
    by (auto simp: slot_released_def split: option.split)
  ultimately show ?thesis by blast
qed

lemma slot_released_mono:
  "slot_released d evs \<Longrightarrow> slot_released d (pre @ evs @ post)"
  by (auto simp: slot_released_def split: option.splits)

lemma span_mem:
  "i \<in> set (ring_span t c n) \<longleftrightarrow>
     (if t \<le> c then t \<le> i \<and> i \<le> c else (t \<le> i \<and> i < n) \<or> i \<le> c)"
  by (auto simp: ring_span_def)

lemma ring_ok_drain:
  assumes "ring_ok k q"
  shows "ring_ok k (fst (tx_drain_slot ci (q, p, b)))"
    and "tail_idx (fst (tx_drain_slot ci (q, p, b))) =
           (if Suc (tail_idx q) = num_descs q then 0 else Suc (tail_idx q))"
proof -
  have t: "tail_idx q < length (info q)" using assms by (simp add: ring_ok_def)
  have nx: "ring_next (tail_idx q) (num_descs q) =
              (if Suc (tail_idx q) = num_descs q then 0 else Suc (tail_idx q))"
    using assms by (intro ring_next_step[where k=k]) (simp_all add: ring_ok_def)
  show "tail_idx (fst (tx_drain_slot ci (q, p, b))) =
           (if Suc (tail_idx q) = num_descs q then 0 else Suc (tail_idx q))"
    using drain_frame(5)[OF t] nx by simp
  then show "ring_ok k (fst (tx_drain_slot ci (q, p, b)))"
    using assms drain_frame(1-3)[OF t]
    by (auto simp: ring_ok_def)
qed

lemma tx_service_loop_runs:
  assumes "ring_ok k q" and "c < num_descs q" and "comp_index cqe = c"
    and "d = ring_dist (tail_idx q) c (num_descs q)"
  shows "\<exists>q' p' b'. tx_service_loop cqe (q, p, b) = Some (q', p', b') \<and>
           ring_ok k q' \<and> head_idx q' = head_idx q \<and> num_descs q' = num_descs q \<and>
           tail_idx q' = (if Suc c = num_descs q then 0 else Suc c) \<and>
           (\<exists>ext. events q' = events q @ ext) \<and>
           (\<forall>i. i \<in> set (ring_span (tail_idx q) c (num_descs q)) \<longrightarrow>
                  slot_clean (info q' ! i) \<and> slot_released (info q ! i) (events q')) \<and>
           (\<forall>i. i \<notin> set (ring_span (tail_idx q) c (num_descs q)) \<longrightarrow>
                  info q' ! i = info q ! i)"
  using assms
proof (induction d arbitrary: q p b)
  case 0
  let ?r = "tx_drain_slot (Some cqe) (q, p, b)"
  have tl: "tail_idx q < length (info q)" and cN: "c < num_descs q"
    and tN: "tail_idx q < num_descs q"
    using "0.prems" by (simp_all add: ring_ok_def)
  have tc: "tail_idx q = c" using "0.prems"(4) cN tN
    by (auto simp: ring_dist_def split: if_splits)
  have c16: "c < 65536"
  proof -
    have "(2::nat) ^ k \<le> 2 ^ 16" using "0.prems"(1)
      by (intro power_increasing) (simp_all add: ring_ok_def)
    then show ?thesis using cN "0.prems"(1) by (simp add: ring_ok_def)
  qed
  have run: "tx_service_loop cqe (q, p, b) = Some ?r"
    using tc c16 "0.prems"(3) by (subst tx_service_loop.simps) (simp add: u16_def)
  obtain ext where ext: "events (fst ?r) = events q @ ext"
      "slot_released (info q ! tail_idx q) ext"
    using drain_events[OF tl] by blast
  have rel: "slot_released (info q ! c) (events (fst ?r))"
    using slot_released_mono[OF ext(2), of "events q" "[]"] ext(1) tc by simp
  have span: "set (ring_span (tail_idx q) c (num_descs q)) = {c}"
    using tc by (auto simp: ring_span_def)
  show ?case
    apply (rule exI[of _ "fst ?r"], rule exI[of _ "fst (snd ?r)"], rule exI[of _ "snd (snd ?r)"])
    using run ring_ok_drain[OF "0.prems"(1), where ci="Some cqe" and p=p and b=b] drain_frame[OF tl, where ci="Some cqe" and p=p and b=b]
      drain_slot[OF tl, where ci="Some cqe" and p=p and b=b] ext(1) rel span tc
    by auto
next
  case (Suc d)
  let ?r = "tx_drain_slot (Some cqe) (q, p, b)"
  let ?q1 = "fst ?r"
  let ?N = "num_descs q"
  let ?t = "tail_idx q"
  let ?t1 = "if Suc ?t = ?N then 0 else Suc ?t"
  have tl: "?t < length (info q)" and cN: "c < ?N" and tN: "?t < ?N"
    using Suc.prems by (simp_all add: ring_ok_def)
  have tc: "?t \<noteq> c" using Suc.prems(4) by (auto simp: ring_dist_def split: if_splits)
  have c16: "c < 65536"
  proof -
    have "(2::nat) ^ k \<le> 2 ^ 16" using Suc.prems(1)
      by (intro power_increasing) (simp_all add: ring_ok_def)
    then show ?thesis using cN Suc.prems(1) by (simp add: ring_ok_def)
  qed
  have run: "tx_service_loop cqe (q, p, b) = tx_service_loop cqe ?r"
    using tc c16 Suc.prems(3) by (subst tx_service_loop.simps) (simp add: u16_def)
  have ok1: "ring_ok k ?q1" and t1: "tail_idx ?q1 = ?t1"
    using ring_ok_drain[OF Suc.prems(1), where ci="Some cqe" and p=p and b=b] by simp_all
  have N1: "num_descs ?q1 = ?N" and h1: "head_idx ?q1 = head_idx q"
    using drain_frame[OF tl, where ci="Some cqe" and p=p and b=b] by simp_all
  have d1: "d = ring_dist (tail_idx ?q1) c (num_descs ?q1)"
    using Suc.prems(4) tc tN cN unfolding t1 N1 by (auto simp: ring_dist_def split: if_splits)
  have r_eq: "?r = (?q1, fst (snd ?r), snd (snd ?r))" by simp
  obtain q' p' b' where res: "tx_service_loop cqe (?q1, fst (snd ?r), snd (snd ?r)) = Some (q', p', b')"
    and ok': "ring_ok k q'" and h': "head_idx q' = head_idx ?q1" and N': "num_descs q' = num_descs ?q1"
    and t': "tail_idx q' = (if Suc c = num_descs ?q1 then 0 else Suc c)"
    and ev': "\<exists>ext. events q' = events ?q1 @ ext"
    and in': "\<forall>i. i \<in> set (ring_span (tail_idx ?q1) c (num_descs ?q1)) \<longrightarrow>
                  slot_clean (info q' ! i) \<and> slot_released (info ?q1 ! i) (events q')"
    and out': "\<forall>i. i \<notin> set (ring_span (tail_idx ?q1) c (num_descs ?q1)) \<longrightarrow>
                  info q' ! i = info ?q1 ! i"
    using Suc.IH[OF ok1 _ Suc.prems(3) d1, of "fst (snd ?r)" "snd (snd ?r)"] cN N1 by auto
  have span: "set (ring_span ?t c ?N) = insert ?t (set (ring_span ?t1 c ?N))"
    and tnot: "?t \<notin> set (ring_span ?t1 c ?N)"
    using tc tN cN by (auto simp: span_mem split: if_splits)
  obtain ext where ext: "events ?q1 = events q @ ext" "slot_released (info q ! ?t) ext"
    using drain_events[OF tl] by blast
  obtain ext2 where ext2: "events q' = events ?q1 @ ext2" using ev' by blast
  have evq: "events q' = events q @ ext @ ext2" using ext(1) ext2 by simp
  have relt: "slot_released (info q ! ?t) (events q')"
    using slot_released_mono[OF ext(2), of "events q" ext2] evq by simp
  have cleant: "slot_clean (info q' ! ?t)"
    using out' tnot drain_slot[OF tl, where ci="Some cqe" and p=p and b=b] unfolding t1 N1 by simp
  have same: "\<And>i. i \<noteq> ?t \<Longrightarrow> info ?q1 ! i = info q ! i"
    using drain_frame(6)[OF tl] by simp
  have A: "\<forall>i. i \<in> set (ring_span ?t c ?N) \<longrightarrow>
                  slot_clean (info q' ! i) \<and> slot_released (info q ! i) (events q')"
  proof (intro allI impI)
    fix i assume "i \<in> set (ring_span ?t c ?N)"
    then consider "i = ?t" | "i \<noteq> ?t" "i \<in> set (ring_span ?t1 c ?N)"
      using span by auto
    then show "slot_clean (info q' ! i) \<and> slot_released (info q ! i) (events q')"
    proof cases
      case 1 then show ?thesis using cleant relt by simp
    next
      case 2
      from in' 2(2) have "slot_clean (info q' ! i) \<and> slot_released (info ?q1 ! i) (events q')"
        unfolding t1 N1 by blast
      then show ?thesis using same[OF 2(1)] by simp
    qed
  qed
  have B: "\<forall>i. i \<notin> set (ring_span ?t c ?N) \<longrightarrow> info q' ! i = info q ! i"
  proof (intro allI impI)
    fix i assume a: "i \<notin> set (ring_span ?t c ?N)"
    then have "i \<noteq> ?t" "i \<notin> set (ring_span ?t1 c ?N)" using span by auto
    then show "info q' ! i = info q ! i" using out' same[of i] unfolding t1 N1 by simp
  qed
  show ?case
    apply (rule exI[of _ q'], rule exI[of _ p'], rule exI[of _ b'])
    using run res ok' h' h1 N' N1 t' evq A B r_eq by auto
qed

section \<open>Receive cleaning touches one slot\<close>

lemma slot_frame_refl: "slot_frame di q q"
  by (simp add: slot_frame_def)

lemma slot_frame_trans:
  "slot_frame di q q1 \<Longrightarrow> slot_frame di q1 q2 \<Longrightarrow> slot_frame di q q2"
  unfolding slot_frame_def by (elim conjE exE) (simp)

lemma slot_frame_set_buf: "slot_frame di q (set_buf q di bj b)"
  by (cases "di < length (info q)") (simp_all add: slot_frame_def set_buf_def list_update_beyond)

lemma slot_frame_log: "slot_frame di q (log_event e q)"
  by (simp add: slot_frame_def log_event_def)

lemma slot_frame_log_set:
  assumes "slot_frame di q q1"
  shows "slot_frame di q (set_buf (log_event e q1) di bj b)"
proof -
  have "slot_frame di q1 (log_event e q1)" by (rule slot_frame_log)
  moreover have "slot_frame di (log_event e q1) (set_buf (log_event e q1) di bj b)"
    by (rule slot_frame_set_buf)
  ultimately show ?thesis using assms by (blast intro: slot_frame_trans)
qed

lemma slot_frame_recycle: "slot_frame di q (snd (ionic_rx_buf_recycle env q di bj used))"
  by (auto simp: ionic_rx_buf_recycle_def Let_def slot_frame_refl
      intro: slot_frame_set_buf slot_frame_log slot_frame_trans)

lemma slot_frame_counters:
  "slot_frame di q (q\<lparr>rx_dropped := a\<rparr>)"
  "slot_frame di q (q\<lparr>rx_alloc_err := a\<rparr>)"
  "slot_frame di q (q\<lparr>rx_dma_map_err := a\<rparr>)"
  "slot_frame di q (q\<lparr>kcalls := a\<rparr>)"
  "slot_frame di q (q\<lparr>rx_pkts := a, rx_bytes := a'\<rparr>)"
  by (simp_all add: slot_frame_def)

lemma slot_frame_frags_loop:
  "slot_frame di q (snd (rx_frags_loop env i di bj rlen frags q))"
proof (induction i arbitrary: bj rlen frags q)
  case 0
  show ?case by (simp add: slot_frame_refl)
next
  case (Suc i)
  show ?case
  proof (cases "page (get_buf q di bj)")
    case None
    then show ?thesis by (simp add: Let_def slot_frame_log)
  next
    case (Some pg)
    let ?fl = "min_t_u16 rlen (u64_sub (IONIC_PAGE_SIZE env) (page_offset (get_buf q di bj)))"
    let ?r = "ionic_rx_buf_recycle env q di bj ?fl"
    let ?q1 = "(if \<not> fst ?r
                    then set_buf
                           (log_event (DmaUnmapPage (dma_addr (get_buf (snd ?r) di bj))
                               (IONIC_PAGE_SIZE env)) (snd ?r))
                           di bj ((get_buf (snd ?r) di bj)\<lparr>page := None\<rparr>)
                    else snd ?r)"
    have "slot_frame di q ?q1"
      using slot_frame_recycle[of di q env bj ?fl] slot_frame_log_set by simp
    then show ?thesis
      using Some Suc.IH[of ?q1] by (auto simp: Let_def intro: slot_frame_trans)
  qed
qed

lemma slot_frame_rx_frags: "slot_frame di q (snd (ionic_rx_frags env q di cqe))"
proof (cases "skb_alloc env (kcalls q)")
  case True
  have "slot_frame di q (q\<lparr>kcalls := kcalls q + 1\<rparr>)" by (rule slot_frame_counters)
  then show ?thesis
    using True slot_frame_frags_loop[of di "q\<lparr>kcalls := kcalls q + 1\<rparr>" env]
    by (auto simp: ionic_rx_frags_def Let_def simp del: rx_frags_loop.simps
        intro: slot_frame_trans)
next
  case False
  have "slot_frame di q (q\<lparr>kcalls := kcalls q + 1\<rparr>)" by (rule slot_frame_counters)
  then show ?thesis
    using False
    by (auto simp: ionic_rx_frags_def Let_def simp del: rx_frags_loop.simps
        intro: slot_frame_trans slot_frame_counters)
qed

lemma slot_frame_rx_copybreak: "slot_frame di q (snd (ionic_rx_copybreak env q di cqe))"
  by (auto simp: ionic_rx_copybreak_def Let_def
      intro: slot_frame_trans[OF slot_frame_counters(4)] slot_frame_counters slot_frame_log)

lemma slot_frame_rx_clean: "slot_frame di q (ionic_rx_clean env q di cqe)"
proof -
  let ?q1 = "q\<lparr>rx_pkts := u64 (rx_pkts q + 1), rx_bytes := u64 (rx_bytes q + u16 (comp_len cqe))\<rparr>"
  have a: "slot_frame di q ?q1" by (rule slot_frame_counters)
  have b: "slot_frame di ?q1 (snd (ionic_rx_copybreak env ?q1 di cqe))"
    by (rule slot_frame_rx_copybreak)
  have c: "slot_frame di ?q1 (snd (ionic_rx_frags env ?q1 di cqe))"
    by (rule slot_frame_rx_frags)
  show ?thesis
    unfolding ionic_rx_clean_def Let_def
    using slot_frame_trans[OF a b] slot_frame_trans[OF a c]
    by (auto split: prod.split option.split
        intro: slot_frame_counters slot_frame_trans[OF _ slot_frame_counters(1)]
               slot_frame_trans[OF _ slot_frame_log])
qed

section \<open>Completion service\<close>

lemma rx_service_accept:
  assumes "ring_ok k q" and "ionic_rx_service env dc cqe q = (True, q')"
  shows "tail_idx q' = (tail_idx q + 1) mod num_descs q \<and> head_idx q' = head_idx q \<and>
         num_descs q' = num_descs q \<and> length (info q') = length (info q) \<and>
         cb (info q' ! tail_idx q) = None \<and> cb_arg (info q' ! tail_idx q) = None \<and>
         (\<forall>i. i \<noteq> tail_idx q \<longrightarrow> info q' ! i = info q ! i) \<and>
         u16 (comp_index cqe) = tail_idx q \<and> tail_idx q \<noteq> head_idx q"
proof -
  let ?t = "tail_idx q"
  let ?q1 = "q\<lparr>tail_idx := ring_next ?t (num_descs q)\<rparr>"
  let ?q2 = "ionic_rx_clean env ?q1 ?t cqe"
  have cond: "color_match (color cqe) dc" "?t \<noteq> head_idx q" "?t = u16 (comp_index cqe)"
    using assms(2) by (auto simp: ionic_rx_service_def Let_def split: if_splits)
  have q': "q' = ?q2\<lparr>info := (info ?q2)[?t := (info ?q2 ! ?t)\<lparr>cb := None, cb_arg := None\<rparr>]\<rparr>"
    using assms(2) cond by (simp add: ionic_rx_service_def Let_def)
  have fr: "slot_frame ?t ?q1 ?q2" by (rule slot_frame_rx_clean)
  have tl: "?t < length (info q)" using assms(1) by (simp add: ring_ok_def)
  have nx: "ring_next ?t (num_descs q) = (?t + 1) mod num_descs q"
    using assms(1) by (intro ring_next_pow2[where k=k]) (simp_all add: ring_ok_def)
  show ?thesis
    using fr tl nx cond unfolding q' slot_frame_def by simp
qed

lemma ring_span_mod:
  assumes "t < n" "c < n"
  shows "ring_span t c n = map (\<lambda>j. (t + j) mod n) [0..<Suc (ring_dist t c n)]"
proof (rule nth_equalityI)
  show len: "length (ring_span t c n) = length (map (\<lambda>j. (t + j) mod n) [0..<Suc (ring_dist t c n)])"
    using assms by (auto simp: ring_span_def ring_dist_def)
  fix j assume j: "j < length (ring_span t c n)"
  then have jd: "j < Suc (ring_dist t c n)" using len by simp
  have rhs: "map (\<lambda>j. (t + j) mod n) [0..<Suc (ring_dist t c n)] ! j = (t + j) mod n"
    using jd by (simp add: nth_map_upt del: upt_Suc)
  have lhs: "ring_span t c n ! j = (t + j) mod n"
  proof (cases "t \<le> c")
    case True
    then have "j \<le> c - t" using jd by (simp add: ring_dist_def)
    then have "ring_span t c n ! j = t + j" using True
      by (simp add: ring_span_def del: upt_Suc)
    moreover have "t + j < n" using \<open>j \<le> c - t\<close> True assms by simp
    ultimately show ?thesis by simp
  next
    case False
    then have jn: "j \<le> c + n - t" using jd by (simp add: ring_dist_def)
    show ?thesis
    proof (cases "j < n - t")
      case True
      then show ?thesis using False by (simp add: ring_span_def nth_append del: upt_Suc)
    next
      case F2: False
      then have "ring_span t c n ! j = j - (n - t)"
        using False jn assms by (simp add: ring_span_def nth_append del: upt_Suc)
      moreover have "t + j = (j - (n - t)) + n" using F2 assms by simp
      moreover have "j - (n - t) < n" using jn assms False by simp
      ultimately show ?thesis by (metis mod_add_self2 mod_less)
    qed
  qed
  show "ring_span t c n ! j = map (\<lambda>j. (t + j) mod n) [0..<Suc (ring_dist t c n)] ! j"
    using lhs rhs by simp
qed

lemma tx_service_runs:
  assumes ok: "ring_ok k q" and cm: "color_match (color cqe) dc"
    and ci: "comp_index cqe < num_descs q"
  shows "\<exists>q'. ionic_tx_service env dc cqe q = Some (True, q') \<and>
           ring_ok k q' \<and> head_idx q' = head_idx q \<and> num_descs q' = num_descs q \<and>
           tail_idx q' = (comp_index cqe + 1) mod num_descs q \<and>
           (\<forall>i. i \<in> set (ring_span (tail_idx q) (comp_index cqe) (num_descs q)) \<longrightarrow>
                  slot_clean (info q' ! i) \<and> slot_released (info q ! i) (events q')) \<and>
           (\<forall>i. i \<notin> set (ring_span (tail_idx q) (comp_index cqe) (num_descs q)) \<longrightarrow>
                  info q' ! i = info q ! i)"
proof -
  obtain q1 p1 b1 where run: "tx_service_loop cqe (q, 0, 0) = Some (q1, p1, b1)"
    and ok1: "ring_ok k q1" and h1: "head_idx q1 = head_idx q" and n1: "num_descs q1 = num_descs q"
    and t1: "tail_idx q1 = (if Suc (comp_index cqe) = num_descs q then 0 else Suc (comp_index cqe))"
    and ev1: "\<exists>ext. events q1 = events q @ ext"
    and in1: "\<forall>i. i \<in> set (ring_span (tail_idx q) (comp_index cqe) (num_descs q)) \<longrightarrow>
                  slot_clean (info q1 ! i) \<and> slot_released (info q ! i) (events q1)"
    and out1: "\<forall>i. i \<notin> set (ring_span (tail_idx q) (comp_index cqe) (num_descs q)) \<longrightarrow>
                  info q1 ! i = info q ! i"
    using tx_service_loop_runs[OF ok ci refl refl, of 0 0] by blast
  let ?q' = "tx_completed_queue env (q1, p1, b1)"
  have same: "info ?q' = info q1" "head_idx ?q' = head_idx q1" "tail_idx ?q' = tail_idx q1"
    "num_descs ?q' = num_descs q1"
    by (simp_all add: tx_completed_queue_def log_event_def)
  have evs: "\<exists>post. events ?q' = [] @ events q1 @ post"
    by (simp add: tx_completed_queue_def log_event_def)
  have rel: "\<And>d. slot_released d (events q1) \<Longrightarrow> slot_released d (events ?q')"
    using evs slot_released_mono by metis
  have tm: "tail_idx q1 = (comp_index cqe + 1) mod num_descs q"
    using t1 ci by (auto simp: mod_Suc)
  have "ionic_tx_service env dc cqe q = Some (True, ?q')"
    using cm run by (simp add: ionic_tx_service_def)
  moreover have "ring_ok k ?q'" using ok1 same by (simp add: ring_ok_def)
  ultimately show ?thesis
    using same h1 n1 tm in1 out1 rel by (intro exI[of _ ?q']) auto
qed

section \<open>Ring invariant of the transmit drains\<close>

lemma tx_service_loop_ring_ok:
  assumes run: "tx_service_loop cqe s = Some s'"
  shows "ring_ok k (fst s) \<longrightarrow> ring_ok k (fst s') \<and> head_idx (fst s') = head_idx (fst s)"
proof (rule tx_service_loop.raw_induct
    [where P = "\<lambda>c s s'. ring_ok k (fst s) \<longrightarrow>
                   ring_ok k (fst s') \<and> head_idx (fst s') = head_idx (fst s)", OF _ run])
  fix loop :: "ionic_cq_info \<Rightarrow> ionic_queue \<times> nat \<times> nat \<Rightarrow> (ionic_queue \<times> nat \<times> nat) option"
  fix c s s'
  assume IH: "\<And>c s y. loop c s = Some y \<Longrightarrow>
      ring_ok k (fst s) \<longrightarrow> ring_ok k (fst y) \<and> head_idx (fst y) = head_idx (fst s)"
  assume eq: "(if tail_idx (fst s) \<noteq> u16 (comp_index c)
               then loop c (tx_drain_slot (Some c) s)
               else Some (tx_drain_slot (Some c) s)) = Some s'"
  show "ring_ok k (fst s) \<longrightarrow> ring_ok k (fst s') \<and> head_idx (fst s') = head_idx (fst s)"
  proof
    assume ok: "ring_ok k (fst s)"
    obtain q p b where s: "s = (q, p, b)" by (cases s)
    have tl: "tail_idx q < length (info q)" using ok s by (simp add: ring_ok_def)
    have ok1: "ring_ok k (fst (tx_drain_slot (Some c) s))"
      using ring_ok_drain(1)[of k q "Some c" p b] ok s by simp
    have h1: "head_idx (fst (tx_drain_slot (Some c) s)) = head_idx (fst s)"
      using drain_frame(1)[OF tl, where ci="Some c" and p=p and b=b] s by simp
    show "ring_ok k (fst s') \<and> head_idx (fst s') = head_idx (fst s)"
    proof (cases "tail_idx (fst s) \<noteq> u16 (comp_index c)")
      case True
      then have "loop c (tx_drain_slot (Some c) s) = Some s'" using eq by simp
      from IH[OF this] ok1 h1 show ?thesis by simp
    next
      case False
      then have "s' = tx_drain_slot (Some c) s" using eq by simp
      then show ?thesis using ok1 h1 by simp
    qed
  qed
qed

lemma tx_completed_queue_frame:
  "head_idx (tx_completed_queue env s) = head_idx (fst s)"
  "tail_idx (tx_completed_queue env s) = tail_idx (fst s)"
  "num_descs (tx_completed_queue env s) = num_descs (fst s)"
  "info (tx_completed_queue env s) = info (fst s)"
  "\<exists>ext. events (tx_completed_queue env s) = events (fst s) @ ext"
  by (simp_all add: tx_completed_queue_def log_event_def split: prod.split)

lemma ring_ok_cong:
  "head_idx q' = head_idx q \<Longrightarrow> tail_idx q' = tail_idx q \<Longrightarrow> num_descs q' = num_descs q \<Longrightarrow>
   length (info q') = length (info q) \<Longrightarrow> ring_ok k q' = ring_ok k q"
  by (simp add: ring_ok_def)

lemma tx_service_ring_ok:
  assumes "ionic_tx_service env dc cqe q = Some (r, q')" "ring_ok k q"
  shows "ring_ok k q'"
proof (cases "color_match (color cqe) dc")
  case False
  then show ?thesis using assms by (simp add: ionic_tx_service_def)
next
  case True
  then obtain s where s: "tx_service_loop cqe (q, 0, 0) = Some s"
    and q': "q' = tx_completed_queue env s"
    using assms(1) by (auto simp: ionic_tx_service_def split: option.splits)
  have "ring_ok k (fst s)" using tx_service_loop_ring_ok[OF s, of k] assms(2) by simp
  then show ?thesis unfolding q'
    using tx_completed_queue_frame[of env s] by (simp add: ring_ok_def)
qed

lemma rx_service_ring_ok:
  assumes "ring_ok k q"
  shows "ring_ok k (snd (ionic_rx_service env dc cqe q))"
proof (cases "fst (ionic_rx_service env dc cqe q)")
  case True
  then have "ionic_rx_service env dc cqe q = (True, snd (ionic_rx_service env dc cqe q))"
    by (metis prod.collapse)
  from rx_service_accept[OF assms this] assms show ?thesis
    by (simp add: ring_ok_def)
next
  case False
  then have "snd (ionic_rx_service env dc cqe q) = q"
    by (auto simp: ionic_rx_service_def Let_def split: if_splits)
  then show ?thesis using assms by simp
qed

lemma span_between:
  "i \<in> set (ring_between t h n) \<longleftrightarrow>
     (if t \<le> h then t \<le> i \<and> i < h else (t \<le> i \<and> i < n) \<or> i < h)"
  by (auto simp: ring_between_def)

lemma tx_empty_loop_runs:
  assumes "ring_ok k q" and "d = ring_dist (tail_idx q) (head_idx q) (num_descs q)"
  shows "\<exists>q' p' b'. tx_empty_loop (q, p, b) = Some (q', p', b') \<and>
           ring_ok k q' \<and> head_idx q' = head_idx q \<and> num_descs q' = num_descs q \<and>
           tail_idx q' = head_idx q \<and>
           (\<exists>ext. events q' = events q @ ext) \<and>
           (\<forall>i. i \<in> set (ring_between (tail_idx q) (head_idx q) (num_descs q)) \<longrightarrow>
                  slot_clean (info q' ! i) \<and> slot_released (info q ! i) (events q')) \<and>
           (\<forall>i. i \<notin> set (ring_between (tail_idx q) (head_idx q) (num_descs q)) \<longrightarrow>
                  info q' ! i = info q ! i)"
  using assms
proof (induction d arbitrary: q p b)
  case 0
  have hN: "head_idx q < num_descs q" and tN: "tail_idx q < num_descs q"
    using "0.prems" by (simp_all add: ring_ok_def)
  have th: "tail_idx q = head_idx q" using "0.prems"(2) hN tN
    by (auto simp: ring_dist_def split: if_splits)
  have run: "tx_empty_loop (q, p, b) = Some (q, p, b)"
    using th by (subst tx_empty_loop.simps) simp
  have "set (ring_between (tail_idx q) (head_idx q) (num_descs q)) = {}"
    using th by (simp add: ring_between_def)
  then show ?case using run "0.prems"(1) th by auto
next
  case (Suc d)
  let ?r = "tx_drain_slot None (q, p, b)"
  let ?q1 = "fst ?r"
  let ?N = "num_descs q"
  let ?t = "tail_idx q"
  let ?h = "head_idx q"
  let ?t1 = "if Suc ?t = ?N then 0 else Suc ?t"
  have tl: "?t < length (info q)" and hN: "?h < ?N" and tN: "?t < ?N"
    using Suc.prems by (simp_all add: ring_ok_def)
  have th: "?t \<noteq> ?h" using Suc.prems(2) by (auto simp: ring_dist_def split: if_splits)
  have run: "tx_empty_loop (q, p, b) = tx_empty_loop ?r"
    using th by (subst tx_empty_loop.simps) simp
  have ok1: "ring_ok k ?q1" and t1: "tail_idx ?q1 = ?t1"
    using ring_ok_drain[OF Suc.prems(1), where ci=None and p=p and b=b] by simp_all
  have N1: "num_descs ?q1 = ?N" and h1: "head_idx ?q1 = ?h"
    using drain_frame[OF tl, where ci=None and p=p and b=b] by simp_all
  have d1: "d = ring_dist (tail_idx ?q1) (head_idx ?q1) (num_descs ?q1)"
    using Suc.prems(2) th tN hN unfolding t1 N1 h1 by (auto simp: ring_dist_def split: if_splits)
  have r_eq: "?r = (?q1, fst (snd ?r), snd (snd ?r))" by simp
  obtain q' p' b' where res: "tx_empty_loop (?q1, fst (snd ?r), snd (snd ?r)) = Some (q', p', b')"
    and ok': "ring_ok k q'" and h': "head_idx q' = head_idx ?q1" and N': "num_descs q' = num_descs ?q1"
    and t': "tail_idx q' = head_idx ?q1"
    and ev': "\<exists>ext. events q' = events ?q1 @ ext"
    and in': "\<forall>i. i \<in> set (ring_between (tail_idx ?q1) (head_idx ?q1) (num_descs ?q1)) \<longrightarrow>
                  slot_clean (info q' ! i) \<and> slot_released (info ?q1 ! i) (events q')"
    and out': "\<forall>i. i \<notin> set (ring_between (tail_idx ?q1) (head_idx ?q1) (num_descs ?q1)) \<longrightarrow>
                  info q' ! i = info ?q1 ! i"
    using Suc.IH[OF ok1 d1, of "fst (snd ?r)" "snd (snd ?r)"] by auto
  have span: "set (ring_between ?t ?h ?N) = insert ?t (set (ring_between ?t1 ?h ?N))"
    and tnot: "?t \<notin> set (ring_between ?t1 ?h ?N)"
    using th tN hN by (auto simp: span_between split: if_splits)
  obtain ext where ext: "events ?q1 = events q @ ext" "slot_released (info q ! ?t) ext"
    using drain_events[OF tl] by blast
  obtain ext2 where ext2: "events q' = events ?q1 @ ext2" using ev' by blast
  have evq: "events q' = events q @ ext @ ext2" using ext(1) ext2 by simp
  have relt: "slot_released (info q ! ?t) (events q')"
    using slot_released_mono[OF ext(2), of "events q" ext2] evq by simp
  have cleant: "slot_clean (info q' ! ?t)"
    using out' tnot drain_slot[OF tl, where ci=None and p=p and b=b] unfolding t1 N1 h1 by simp
  have same: "\<And>i. i \<noteq> ?t \<Longrightarrow> info ?q1 ! i = info q ! i"
    using drain_frame(6)[OF tl] by simp
  have A: "\<forall>i. i \<in> set (ring_between ?t ?h ?N) \<longrightarrow>
                  slot_clean (info q' ! i) \<and> slot_released (info q ! i) (events q')"
  proof (intro allI impI)
    fix i assume "i \<in> set (ring_between ?t ?h ?N)"
    then consider "i = ?t" | "i \<noteq> ?t" "i \<in> set (ring_between ?t1 ?h ?N)"
      using span by auto
    then show "slot_clean (info q' ! i) \<and> slot_released (info q ! i) (events q')"
    proof cases
      case 1 then show ?thesis using cleant relt by simp
    next
      case 2
      from in' 2(2) have "slot_clean (info q' ! i) \<and> slot_released (info ?q1 ! i) (events q')"
        unfolding t1 N1 h1 by blast
      then show ?thesis using same[OF 2(1)] by simp
    qed
  qed
  have B: "\<forall>i. i \<notin> set (ring_between ?t ?h ?N) \<longrightarrow> info q' ! i = info q ! i"
  proof (intro allI impI)
    fix i assume a: "i \<notin> set (ring_between ?t ?h ?N)"
    then have "i \<noteq> ?t" "i \<notin> set (ring_between ?t1 ?h ?N)" using span by auto
    then show "info q' ! i = info q ! i" using out' same[of i] unfolding t1 N1 h1 by simp
  qed
  show ?case
    apply (rule exI[of _ q'], rule exI[of _ p'], rule exI[of _ b'])
    using run res ok' h' h1 N' N1 t' evq A B r_eq by auto
qed

lemma tx_empty_runs:
  assumes ok: "ring_ok k q"
  shows "\<exists>q'. ionic_tx_empty env q = Some q' \<and>
           ring_ok k q' \<and> head_idx q' = head_idx q \<and> num_descs q' = num_descs q \<and>
           tail_idx q' = head_idx q \<and>
           (\<forall>i. i \<in> set (ring_between (tail_idx q) (head_idx q) (num_descs q)) \<longrightarrow>
                  slot_clean (info q' ! i) \<and> slot_released (info q ! i) (events q')) \<and>
           (\<forall>i. i \<notin> set (ring_between (tail_idx q) (head_idx q) (num_descs q)) \<longrightarrow>
                  info q' ! i = info q ! i)"
proof -
  obtain q1 p1 b1 where run: "tx_empty_loop (q, 0, 0) = Some (q1, p1, b1)"
    and ok1: "ring_ok k q1" and h1: "head_idx q1 = head_idx q" and n1: "num_descs q1 = num_descs q"
    and t1: "tail_idx q1 = head_idx q"
    and in1: "\<forall>i. i \<in> set (ring_between (tail_idx q) (head_idx q) (num_descs q)) \<longrightarrow>
                  slot_clean (info q1 ! i) \<and> slot_released (info q ! i) (events q1)"
    and out1: "\<forall>i. i \<notin> set (ring_between (tail_idx q) (head_idx q) (num_descs q)) \<longrightarrow>
                  info q1 ! i = info q ! i"
    using tx_empty_loop_runs[OF ok refl, of 0 0] by blast
  let ?q' = "tx_completed_queue env (q1, p1, b1)"
  have same: "info ?q' = info q1" "head_idx ?q' = head_idx q1" "tail_idx ?q' = tail_idx q1"
    "num_descs ?q' = num_descs q1"
    by (simp_all add: tx_completed_queue_def log_event_def)
  have evs: "\<exists>post. events ?q' = [] @ events q1 @ post"
    by (simp add: tx_completed_queue_def log_event_def)
  have rel: "\<And>d. slot_released d (events q1) \<Longrightarrow> slot_released d (events ?q')"
    using evs slot_released_mono by metis
  have "ionic_tx_empty env q = Some ?q'"
    using run by (simp add: ionic_tx_empty_def)
  moreover have "ring_ok k ?q'" using ok1 same by (simp add: ring_ok_def)
  ultimately show ?thesis
    using same h1 n1 t1 in1 out1 rel by (intro exI[of _ ?q']) auto
qed

section \<open>Receive fill\<close>

lemma slot_frame_page_alloc: "slot_frame di q (snd (ionic_rx_page_alloc env q di bj))"
proof -
  let ?q1 = "q\<lparr>kcalls := kcalls q + 1\<rparr>"
  have a: "slot_frame di q ?q1" by (rule slot_frame_counters)
  show ?thesis
  proof (cases "alloc_pages env (kcalls q)")
    case None
    have "slot_frame di ?q1 (?q1\<lparr>rx_alloc_err := u64 (rx_alloc_err ?q1 + 1)\<rparr>)"
      by (rule slot_frame_counters)
    then have "slot_frame di q (?q1\<lparr>rx_alloc_err := u64 (rx_alloc_err ?q1 + 1)\<rparr>)"
      using a by (rule slot_frame_trans[rotated])
    then show ?thesis using None
      by (simp add: ionic_rx_page_alloc_def Let_def)
  next
    case (Some pg)
    let ?q2 = "(log_event (AllocPages pg) ?q1)\<lparr>kcalls := kcalls ?q1 + 1\<rparr>"
    let ?a = "dma_map env (kcalls ?q1)"
    let ?q3 = "set_buf ?q2 di bj ((get_buf ?q2 di bj)\<lparr>dma_addr := ?a\<rparr>)"
    have b2: "slot_frame di q ?q2"
      using a slot_frame_log[of di ?q1 "AllocPages pg"]
        slot_frame_counters(4)[of di "log_event (AllocPages pg) ?q1" "kcalls ?q1 + 1"]
      by (blast intro: slot_frame_trans)
    have b: "slot_frame di q ?q3"
      using b2 slot_frame_set_buf[of di ?q2 bj] by (blast intro: slot_frame_trans)
    have c: "slot_frame di q ((log_event e ?q3)\<lparr>rx_dma_map_err := x\<rparr>)" for e x
      using b slot_frame_log[of di ?q3 e] slot_frame_counters(3)[of di "log_event e ?q3" x]
      by (blast intro: slot_frame_trans)
    have d: "slot_frame di q (set_buf (log_event e ?q3) di bj bb)" for e bb
      using b by (rule slot_frame_log_set)
    show ?thesis using Some c d
      by (simp add: ionic_rx_page_alloc_def Let_def)
  qed
qed

lemma slot_frame_fill_buf: "slot_frame di q (snd (rx_fill_buf env nsplits q di bj))"
proof -
  let ?r = "ionic_rx_page_alloc env q di bj"
  have a: "slot_frame di q (snd ?r)" by (rule slot_frame_page_alloc)
  have b: "slot_frame di q (set_buf (snd ?r) di bj bb)" for bb
    using a slot_frame_set_buf[of di "snd ?r" bj bb] by (blast intro: slot_frame_trans)
  have c: "slot_frame di q (log_event e (set_buf (snd ?r) di bj bb))" for e bb
    using b[of bb] slot_frame_log[of di "set_buf (snd ?r) di bj bb" e]
    by (blast intro: slot_frame_trans)
  show ?thesis
    using a b c
    by (auto simp: rx_fill_buf_def Let_def slot_frame_refl split: prod.split)
qed

lemma slot_frame_fill_sg:
  "slot_frame di q (snd (snd (rx_fill_sg env nsplits di bjs remain nfrags q)))"
proof (induction bjs arbitrary: remain nfrags q)
  case Nil
  show ?case by (simp add: slot_frame_refl)
next
  case (Cons bj bjs)
  let ?r = "rx_fill_buf env nsplits q di bj"
  have a: "slot_frame di q (snd ?r)" by (rule slot_frame_fill_buf)
  show ?case
  proof (cases "remain > 0 \<and> fst ?r")
    case True
    then show ?thesis
      using a Cons.IH[of "snd ?r"]
      by (auto simp: Let_def split: prod.split intro: slot_frame_trans)
  next
    case False
    then show ?thesis using a
      by (auto simp: Let_def slot_frame_refl split: prod.split)
  qed
qed

lemma q_post_frame:
  "tail_idx (ionic_q_post q rd f a) = tail_idx q"
  "num_descs (ionic_q_post q rd f a) = num_descs q"
  "length (info (ionic_q_post q rd f a)) = length (info q)"
  "dbell_deadline (ionic_q_post q rd f a) = dbell_deadline q"
  "dbell_jiffies (ionic_q_post q rd f a) = dbell_jiffies q"
  "jiffies (ionic_q_post q rd f a) = jiffies q"
  "mtu (ionic_q_post q rd f a) = mtu q"
  "max_sg_elems (ionic_q_post q rd f a) = max_sg_elems q"
  "head_idx (ionic_q_post q rd f a) = ring_next (head_idx q) (num_descs q)"
  by (simp_all add: ionic_q_post_def Let_def log_event_def)

lemma rx_fill_slot_frame:
  assumes "rx_fill_slot env flen nsplits q = (ok, q')"
  shows "tail_idx q' = tail_idx q \<and> num_descs q' = num_descs q \<and>
         length (info q') = length (info q) \<and> dbell_deadline q' = dbell_deadline q \<and>
         dbell_jiffies q' = dbell_jiffies q \<and> jiffies q' = jiffies q \<and> mtu q' = mtu q \<and>
         max_sg_elems q' = max_sg_elems q \<and>
         head_idx q' = (if ok then ring_next (head_idx q) (num_descs q) else head_idx q)"
proof -
  let ?di = "head_idx q"
  obtain ok1 q1 where r1: "rx_fill_buf env nsplits q ?di 0 = (ok1, q1)" by (cases "rx_fill_buf env nsplits q ?di 0")
  have f1: "slot_frame ?di q q1" using slot_frame_fill_buf[of ?di q env nsplits 0] r1 by simp
  show ?thesis
  proof (cases ok1)
    case False
    then have "ok = False" "q' = q1" using assms r1 by (simp_all add: rx_fill_slot_def Let_def)
    then show ?thesis using f1 by (simp add: slot_frame_def)
  next
    case True
    let ?b = "get_buf q1 ?di 0"
    let ?fl = "min_t_u16 flen (u64_sub (IONIC_PAGE_SIZE env) (page_offset ?b))"
    obtain ok2 nf q2 where r2: "rx_fill_sg env nsplits ?di [1..<Suc (max_sg_elems q1)]
                    (flen - ?fl) 1 q1 = (ok2, nf, q2)"
      by (cases "rx_fill_sg env nsplits ?di [1..<Suc (max_sg_elems q1)] (flen - ?fl) 1 q1") auto
    have f2: "slot_frame ?di q1 q2"
      using slot_frame_fill_sg[of ?di q1 env nsplits "[1..<Suc (max_sg_elems q1)]" "flen - ?fl" 1] r2
      by simp
    have f12: "slot_frame ?di q q2" using f1 f2 by (rule slot_frame_trans)
    show ?thesis
    proof (cases ok2)
      case False
      then have "ok = False" "q' = q2" using assms r1 r2 True
        by (simp_all add: rx_fill_slot_def Let_def del: upt_Suc)
      then show ?thesis using f12 by (simp add: slot_frame_def)
    next
      case T2: True
      then obtain dd where "ok = True"
        "q' = ionic_rxq_post (q2\<lparr>info := (info q2)[?di := dd]\<rparr>) False (Some ionic_rx_clean_cb) None"
        using assms r1 r2 True
        by (auto simp: rx_fill_slot_def Let_def simp del: upt_Suc)
      then show ?thesis using f12
        by (simp add: slot_frame_def ionic_rxq_post_def q_post_frame)
    qed
  qed
qed

lemma rx_fill_loop_frame:
  assumes "rx_fill_loop env flen nsplits i q = (ok, q')"
  shows "tail_idx q' = tail_idx q \<and> num_descs q' = num_descs q \<and>
         length (info q') = length (info q) \<and> dbell_deadline q' = dbell_deadline q \<and>
         dbell_jiffies q' = dbell_jiffies q \<and> jiffies q' = jiffies q \<and> mtu q' = mtu q \<and>
         max_sg_elems q' = max_sg_elems q \<and>
         (ring_ok k q \<longrightarrow> ring_ok k q')"
  using assms
proof (induction i arbitrary: q)
  case 0
  then show ?case by simp
next
  case (Suc i)
  obtain ok1 q1 where r1: "rx_fill_slot env flen nsplits q = (ok1, q1)"
    by (cases "rx_fill_slot env flen nsplits q")
  note f1 = rx_fill_slot_frame[OF r1]
  have ok1': "ring_ok k q \<longrightarrow> ring_ok k q1"
    using f1 ring_next_lt[of "num_descs q" k "head_idx q"]
    by (auto simp: ring_ok_def)
  show ?case
  proof (cases ok1)
    case False
    then have "q' = q1" using Suc.prems r1 by simp
    then show ?thesis using f1 ok1' by simp
  next
    case True
    then have "rx_fill_loop env flen nsplits i q1 = (ok, q')" using Suc.prems r1 by simp
    from Suc.IH[OF this] f1 ok1' show ?thesis by simp
  qed
qed

lemma rx_fill_ring_ok:
  assumes "ring_ok k q"
  shows "ring_ok k (ionic_rx_fill env q)"
proof -
  let ?flen = "u32 (mtu q + ETH_HLEN + VLAN_HLEN)"
  let ?ns = "IONIC_PAGE_SIZE env div ALIGN ?flen (IONIC_PAGE_SPLIT_SZ env)"
  obtain ok q1 where r: "rx_fill_loop env ?flen ?ns (ionic_q_space_avail q) q = (ok, q1)"
    by (cases "rx_fill_loop env ?flen ?ns (ionic_q_space_avail q) q")
  have "ring_ok k q1" using rx_fill_loop_frame[OF r, of k] assms by simp
  then show ?thesis using r
    by (auto simp: ionic_rx_fill_def Let_def log_event_def ring_ok_def)
qed


lemma rx_fill_deadline:
  "dbell_deadline (ionic_rx_fill env q) =
     (if rx_fill_completes env q then IONIC_RX_MIN_DOORBELL_DEADLINE env else dbell_deadline q)"
proof -
  let ?flen = "u32 (mtu q + ETH_HLEN + VLAN_HLEN)"
  let ?ns = "IONIC_PAGE_SIZE env div ALIGN ?flen (IONIC_PAGE_SPLIT_SZ env)"
  obtain ok q1 where r: "rx_fill_loop env ?flen ?ns (ionic_q_space_avail q) q = (ok, q1)"
    by (cases "rx_fill_loop env ?flen ?ns (ionic_q_space_avail q) q")
  have "dbell_deadline q1 = dbell_deadline q" using rx_fill_loop_frame[OF r, of 0] by simp
  then show ?thesis using r
    by (auto simp: ionic_rx_fill_def rx_fill_completes_def Let_def log_event_def)
qed

section \<open>Receive teardown\<close>

lemma get_set_buf:
  "di < length (info q) \<Longrightarrow> bj < length (bufs (info q ! di)) \<Longrightarrow>
     get_buf (set_buf q di bj b) di bj = b"
  "bj' \<noteq> bj \<Longrightarrow> get_buf (set_buf q di bj b) di bj' = get_buf q di bj'"
  by (cases "di < length (info q)"; simp add: get_buf_def set_buf_def list_update_beyond)+

lemma get_buf_log [simp]: "get_buf (log_event e q) di bj = get_buf q di bj"
  by (simp add: get_buf_def log_event_def)

lemma events_log [simp]: "events (log_event e q) = events q @ [e]"
  by (simp add: log_event_def)

lemma events_set_buf [simp]: "events (set_buf q di bj b) = events q"
  by (simp add: set_buf_def)

lemma slot_frame_page_free: "slot_frame di q (ionic_rx_page_free env q di bj)"
proof (cases "page (get_buf q di bj)")
  case None
  then show ?thesis by (simp add: ionic_rx_page_free_def slot_frame_refl)
next
  case (Some pg)
  let ?b = "get_buf q di bj"
  let ?q1 = "log_event (DmaUnmapPage (dma_addr ?b) (IONIC_PAGE_SIZE env)) q"
  let ?q2 = "(if IONIC_PAGE_ORDER env > 0 \<and> pagecnt_bias ?b \<noteq> 0
                    then log_event (PageRefSub pg (pagecnt_bias ?b)) ?q1 else ?q1)"
  have a: "slot_frame di q ?q1" by (rule slot_frame_log)
  have b: "slot_frame di q ?q2"
    using a slot_frame_log[of di ?q1] by (auto intro: slot_frame_trans)
  have "slot_frame di q (set_buf (log_event (FreePages pg) ?q2) di bj (?b\<lparr>page := None\<rparr>))"
    using b by (rule slot_frame_log_set)
  then show ?thesis using Some by (simp add: ionic_rx_page_free_def Let_def)
qed







section \<open>Sequences of ring operations\<close>


lemma rx_empty_ring_ok:
  assumes "ring_ok k q"
  shows "ring_ok k (ionic_rx_empty env q)"
proof -
  have "num_descs (fold (rx_empty_slot env) sl q') = num_descs q' \<and>
        length (info (fold (rx_empty_slot env) sl q')) = length (info q')" for sl q'
  proof (induction sl arbitrary: q')
    case Nil show ?case by simp
  next
    case (Cons i sl)
    have "num_descs (rx_empty_slot env i q') = num_descs q' \<and>
          length (info (rx_empty_slot env i q')) = length (info q')"
    proof -
      have "slot_frame i q' (fold (rx_free_if_page env i) js q')" for js
      proof (induction js arbitrary: q')
        case Nil show ?case by (simp add: slot_frame_refl)
      next
        case (Cons j js)
        have "slot_frame i q' (rx_free_if_page env i j q')"
          by (simp add: rx_free_if_page_def slot_frame_page_free slot_frame_refl)
        then show ?case using Cons[of "rx_free_if_page env i j q'"]
          by (auto intro: slot_frame_trans)
      qed
      from this[of "[0..<IONIC_RX_MAX_SG_ELEMS env + 1]"] show ?thesis
        by (simp add: rx_empty_slot_def Let_def slot_frame_def del: upt_Suc)
    qed
    then show ?case using Cons[of "rx_empty_slot env i q'"] by simp
  qed
  then show ?thesis using assms by (simp add: ionic_rx_empty_def ring_ok_def)
qed

lemma apply_op_ring_ok:
  assumes "ring_ok k q" "apply_op env x q = Some q'"
  shows "ring_ok k q'"
proof (cases x)
  case (RxService dc cqe)
  then show ?thesis using assms rx_service_ring_ok[OF assms(1)] by auto
next
  case (TxService dc cqe)
  then obtain r where "ionic_tx_service env dc cqe q = Some (r, q')"
    using assms(2) by auto
  then show ?thesis using tx_service_ring_ok assms(1) by blast
next
  case RxFill
  then show ?thesis using assms rx_fill_ring_ok by auto
next
  case TxEmpty
  then show ?thesis using assms tx_empty_runs[OF assms(1), of env] by auto
next
  case RxEmpty
  then show ?thesis using assms rx_empty_ring_ok by auto
qed

lemma apply_op_total:
  assumes "ring_ok k q" "comp_in_ring (num_descs q) x"
  shows "apply_op env x q \<noteq> None"
proof (cases x)
  case (TxService dc cqe)
  show ?thesis
  proof (cases "color_match (color cqe) dc")
    case True
    then show ?thesis
      using tx_service_runs[OF assms(1) True, of env] assms(2) TxService by auto
  next
    case False
    then show ?thesis using TxService by (simp add: ionic_tx_service_def)
  qed
next
  case TxEmpty
  then show ?thesis using tx_empty_runs[OF assms(1), of env] by auto
qed simp_all

lemma run_ops_ring_ok:
  "ring_ok k q \<Longrightarrow> run_ops env xs q = Some q' \<Longrightarrow> ring_ok k q'"
proof (induction xs arbitrary: q)
  case Nil
  then show ?case by simp
next
  case (Cons x xs)
  then obtain q1 where a: "apply_op env x q = Some q1" and r: "run_ops env xs q1 = Some q'"
    by (auto split: option.splits)
  from apply_op_ring_ok[OF Cons.prems(1) a] Cons.IH r show ?case by blast
qed

lemma run_ops_total:
  "ring_ok k q \<Longrightarrow> list_all (comp_in_ring (num_descs q)) xs \<Longrightarrow> run_ops env xs q \<noteq> None"
proof (induction xs arbitrary: q)
  case Nil
  then show ?case by simp
next
  case (Cons x xs)
  then obtain q1 where a: "apply_op env x q = Some q1"
    using apply_op_total[of k q x env] by auto
  have ok1: "ring_ok k q1" using apply_op_ring_ok[OF Cons.prems(1) a] .
  have "num_descs q1 = num_descs q" using ok1 Cons.prems(1) by (simp add: ring_ok_def)
  then show ?case using Cons.IH[OF ok1] Cons.prems(2) a by simp
qed

lemma not_full_and_empty:
  assumes "ring_ok k q" "1 \<le> k"
  shows "\<not> (q_full q \<and> q_empty q)"
proof -
  have "2 ^ 1 \<le> (2::nat) ^ k" using assms(2) by (intro power_increasing) simp_all
  then have n2: "2 \<le> num_descs q" using assms(1) by (simp add: ring_ok_def)
  have "ring_next (head_idx q) (num_descs q) =
          (if Suc (head_idx q) = num_descs q then 0 else Suc (head_idx q))"
    using assms(1) by (intro ring_next_step[where k=k]) (simp_all add: ring_ok_def)
  then show ?thesis using n2 by (auto simp: q_full_def q_empty_def)
qed

section \<open>Buffer recycling\<close>

lemma and_high_mask:
  fixes y :: nat
  assumes "y < 2 ^ 32" "s < 32"
  shows "y AND (4294967295 - (2 ^ s - 1)) = (y div 2 ^ s) * 2 ^ s"
proof -
  have m: "(4294967295::nat) - (2 ^ s - 1) = push_bit s (mask (32 - s))"
  proof -
    have "(2::nat) ^ 32 = 2 ^ s * 2 ^ (32 - s)" using assms(2)
      by (metis le_add_diff_inverse less_imp_le_nat power_add)
    then have "(2::nat) ^ s * (2 ^ (32 - s) - 1) = 2 ^ 32 - 2 ^ s"
      by (simp add: algebra_simps)
    moreover have "(4294967295::nat) - (2 ^ s - 1) = 2 ^ 32 - 2 ^ s" by simp
    ultimately have "(4294967295::nat) - (2 ^ s - 1) = (2 ^ (32 - s) - 1) * 2 ^ s"
      by (simp only: mult.commute)
    then show ?thesis by (simp only: push_bit_eq_mult mask_eq_exp_minus_1)
  qed
  have "y AND push_bit s (mask (32 - s)) = push_bit s (drop_bit s y AND mask (32 - s))"
    by (rule bit_eqI) (auto simp: bit_simps)
  also have "drop_bit s y AND mask (32 - s) = drop_bit s y"
  proof -
    have "drop_bit s y < 2 ^ (32 - s)"
      using assms by (simp add: drop_bit_eq_div less_mult_imp_div_less power_add [symmetric])
    then show ?thesis by (simp add: take_bit_eq_mask [symmetric] take_bit_nat_eq_self)
  qed
  finally show ?thesis unfolding m by (simp add: push_bit_eq_mult drop_bit_eq_div)
qed

lemma ALIGN_pow2:
  assumes "s < 32" "used + 2 ^ s \<le> 2 ^ 32"
  shows "ALIGN used (2 ^ s) = ((used + 2 ^ s - 1) div 2 ^ s) * 2 ^ s"
proof -
  have lt: "(2::nat) ^ s < 2 ^ 32" using assms(1) by (intro power_strict_increasing) simp_all
  have pos: "(0::nat) < 2 ^ s" by simp
  have "(4294967295 + (2::nat) ^ s) mod 4294967296 = 2 ^ s - 1"
  proof -
    have "4294967295 + (2::nat) ^ s = (2 ^ s - 1) + 1 * 4294967296" using pos by simp
    then have "(4294967295 + (2::nat) ^ s) mod 4294967296 = (2 ^ s - 1) mod 4294967296"
      by (metis mod_mult_self1)
    then show ?thesis using lt by simp
  qed
  then have sub: "u32_sub (2 ^ s) 1 = 2 ^ s - 1"
    using lt by (simp add: u32_sub_def u32_def)
  have y: "used + (2 ^ s - 1) < 2 ^ 32" using assms(2) pos by linarith
  then have u: "u32 (used + (2 ^ s - 1)) = used + (2 ^ s - 1)" by (simp add: u32_def)
  have "ALIGN used (2 ^ s) = (used + (2 ^ s - 1)) AND (4294967295 - (2 ^ s - 1))"
    unfolding ALIGN_def sub u ..
  also have "\<dots> = ((used + (2 ^ s - 1)) div 2 ^ s) * 2 ^ s"
    using and_high_mask[OF y assms(1)] .
  finally show ?thesis using pos by (simp add: Nat.add_diff_assoc)
qed

lemma recycle_decision:
  assumes "di < length (info q)" and "bj < length (bufs (info q ! di))"
  shows "fst (ionic_rx_buf_recycle env q di bj used) \<longleftrightarrow>
           dev_page_is_reusable env (page (get_buf q di bj)) \<and>
           mtu q \<le> IONIC_PAGE_SPLIT_MAX_MTU env \<and>
           u32 (page_offset (get_buf q di bj) + ALIGN used (IONIC_PAGE_SPLIT_SZ env))
             < IONIC_PAGE_SIZE env"
  by (auto simp: ionic_rx_buf_recycle_def Let_def)

lemma recycle_effect:
  assumes "di < length (info q)" and "bj < length (bufs (info q ! di))"
    and "fst (ionic_rx_buf_recycle env q di bj used)"
  shows "page_offset (get_buf (snd (ionic_rx_buf_recycle env q di bj used)) di bj) =
           u32 (page_offset (get_buf q di bj) + ALIGN used (IONIC_PAGE_SPLIT_SZ env))"
    and "page (get_buf (snd (ionic_rx_buf_recycle env q di bj used)) di bj) =
           page (get_buf q di bj)"
    and "dma_addr (get_buf (snd (ionic_rx_buf_recycle env q di bj used)) di bj) =
           dma_addr (get_buf q di bj)"
    and "IONIC_PAGE_ORDER env > 0 \<Longrightarrow>
           pagecnt_bias (get_buf (snd (ionic_rx_buf_recycle env q di bj used)) di bj) =
             u32_sub (pagecnt_bias (get_buf q di bj)) 1 \<and>
           events (snd (ionic_rx_buf_recycle env q di bj used)) = events q"
    and "IONIC_PAGE_ORDER env = 0 \<Longrightarrow>
           pagecnt_bias (get_buf (snd (ionic_rx_buf_recycle env q di bj used)) di bj) =
             pagecnt_bias (get_buf q di bj) \<and>
           events (snd (ionic_rx_buf_recycle env q di bj used)) =
             events q @ [GetPage (page (get_buf q di bj))]"
proof -
  have l1: "di < length (info (set_buf q di bj b))"
    "bj < length (bufs (info (set_buf q di bj b) ! di))" for b
    using assms(1,2) by (simp_all add: set_buf_def)
  show "page_offset (get_buf (snd (ionic_rx_buf_recycle env q di bj used)) di bj) =
           u32 (page_offset (get_buf q di bj) + ALIGN used (IONIC_PAGE_SPLIT_SZ env))"
    "page (get_buf (snd (ionic_rx_buf_recycle env q di bj used)) di bj) =
           page (get_buf q di bj)"
    "dma_addr (get_buf (snd (ionic_rx_buf_recycle env q di bj used)) di bj) =
           dma_addr (get_buf q di bj)"
    "IONIC_PAGE_ORDER env > 0 \<Longrightarrow>
           pagecnt_bias (get_buf (snd (ionic_rx_buf_recycle env q di bj used)) di bj) =
             u32_sub (pagecnt_bias (get_buf q di bj)) 1 \<and>
           events (snd (ionic_rx_buf_recycle env q di bj used)) = events q"
    "IONIC_PAGE_ORDER env = 0 \<Longrightarrow>
           pagecnt_bias (get_buf (snd (ionic_rx_buf_recycle env q di bj used)) di bj) =
             pagecnt_bias (get_buf q di bj) \<and>
           events (snd (ionic_rx_buf_recycle env q di bj used)) =
             events q @ [GetPage (page (get_buf q di bj))]"
    using assms l1
    by (auto simp: ionic_rx_buf_recycle_def Let_def get_set_buf(1) split: if_splits)
qed

lemma recycle_large_mtu:
  "mtu q > IONIC_PAGE_SPLIT_MAX_MTU env \<Longrightarrow> ionic_rx_buf_recycle env q di bj used = (False, q)"
  by (simp add: ionic_rx_buf_recycle_def Let_def)

lemma frags_loop_large_mtu:
  assumes "mtu q > IONIC_PAGE_SPLIT_MAX_MTU env" and "di < length (info q)"
    and "bj + i \<le> length (bufs (info q ! di))"
    and "rx_frags_loop env i di bj rlen frags q = (Some fr, q')"
  shows "(\<forall>j. bj \<le> j \<and> j < bj + i \<longrightarrow>
            page (get_buf q' di j) = None \<and>
            DmaUnmapPage (dma_addr (get_buf q di j)) (IONIC_PAGE_SIZE env) \<in> set (events q')) \<and>
         (\<forall>j. j < bj \<longrightarrow> get_buf q' di j = get_buf q di j)"
  using assms
proof (induction i arbitrary: bj rlen frags q)
  case 0
  then show ?case by auto
next
  case (Suc i)
  let ?b = "get_buf q di bj"
  obtain pg where pg: "page ?b = Some pg"
    using Suc.prems(4) by (cases "page ?b") (simp_all add: Let_def)
  let ?fl = "min_t_u16 rlen (u64_sub (IONIC_PAGE_SIZE env) (page_offset ?b))"
  let ?q1 = "set_buf (log_event (DmaUnmapPage (dma_addr ?b) (IONIC_PAGE_SIZE env)) q)
               di bj (?b\<lparr>page := None\<rparr>)"
  have rec: "ionic_rx_buf_recycle env q di bj ?fl = (False, q)"
    using Suc.prems(1) by (rule recycle_large_mtu)
  have step: "rx_frags_loop env (Suc i) di bj rlen frags q =
      rx_frags_loop env i di (bj + 1) (u16 (rlen + 65536 - ?fl)) (frags @ [(pg, page_offset ?b, ?fl)]) ?q1"
    using pg rec by (simp add: Let_def)
  have bl: "bj < length (bufs (info q ! di))" using Suc.prems(3) by simp
  have fr1: "slot_frame di q ?q1"
    using slot_frame_log_set[OF slot_frame_refl] .
  have m1: "mtu ?q1 > IONIC_PAGE_SPLIT_MAX_MTU env" and l1: "di < length (info ?q1)"
    and b1: "(bj + 1) + i \<le> length (bufs (info ?q1 ! di))"
    using fr1 Suc.prems(1-3) by (simp_all add: slot_frame_def)
  have r1: "rx_frags_loop env i di (bj + 1) (u16 (rlen + 65536 - ?fl))
              (frags @ [(pg, page_offset ?b, ?fl)]) ?q1 = (Some fr, q')"
    using Suc.prems(4) step by simp
  note IH = Suc.IH[OF m1 l1 b1 r1]
  have l0: "di < length (info (log_event e q))" "bj < length (bufs (info (log_event e q) ! di))" for e
    using Suc.prems(2) bl by (simp_all add: log_event_def)
  have g_bj: "get_buf ?q1 di bj = ?b\<lparr>page := None\<rparr>"
    using l0 by (simp add: get_set_buf(1))
  have g_other: "j \<noteq> bj \<Longrightarrow> get_buf ?q1 di j = get_buf q di j" for j
    by (simp add: get_set_buf(2))
  obtain ext where ext: "events q' = events ?q1 @ ext"
    using slot_frame_frags_loop[of di ?q1 env i "bj + 1" "u16 (rlen + 65536 - ?fl)"
        "frags @ [(pg, page_offset ?b, ?fl)]"] r1
    by (auto simp: slot_frame_def)
  have ev1: "DmaUnmapPage (dma_addr ?b) (IONIC_PAGE_SIZE env) \<in> set (events q')"
    using ext by simp
  have A: "\<forall>j. bj \<le> j \<and> j < bj + Suc i \<longrightarrow>
            page (get_buf q' di j) = None \<and>
            DmaUnmapPage (dma_addr (get_buf q di j)) (IONIC_PAGE_SIZE env) \<in> set (events q')"
  proof (intro allI impI)
    fix j assume j: "bj \<le> j \<and> j < bj + Suc i"
    show "page (get_buf q' di j) = None \<and>
            DmaUnmapPage (dma_addr (get_buf q di j)) (IONIC_PAGE_SIZE env) \<in> set (events q')"
    proof (cases "j = bj")
      case True
      then have "get_buf q' di j = get_buf ?q1 di bj" using IH by simp
      then show ?thesis using g_bj ev1 True by simp
    next
      case False
      then have "bj + 1 \<le> j \<and> j < (bj + 1) + i" using j by simp
      with IH have "page (get_buf q' di j) = None \<and>
            DmaUnmapPage (dma_addr (get_buf ?q1 di j)) (IONIC_PAGE_SIZE env) \<in> set (events q')"
        by blast
      then show ?thesis unfolding g_other[OF False] .
    qed
  qed
  have B: "\<forall>j. j < bj \<longrightarrow> get_buf q' di j = get_buf q di j"
  proof (intro allI impI)
    fix j assume j: "j < bj"
    then have "get_buf q' di j = get_buf ?q1 di j" using IH by simp
    moreover have "j \<noteq> bj" using j by simp
    ultimately show "get_buf q' di j = get_buf q di j" using g_other by simp
  qed
  show ?case using A B by blast
qed

section \<open>Doorbell deadline\<close>

lemma page_alloc_ok:
  "allocs_succeed env \<Longrightarrow> fst (ionic_rx_page_alloc env q di bj) = 0"
  by (auto simp: allocs_succeed_def ionic_rx_page_alloc_def Let_def split: option.split)

lemma fill_buf_ok:
  "allocs_succeed env \<Longrightarrow> fst (rx_fill_buf env nsplits q di bj)"
  using page_alloc_ok[of env q di bj]
  by (auto simp: rx_fill_buf_def Let_def split: prod.split)

lemma fill_sg_ok:
  "allocs_succeed env \<Longrightarrow> fst (rx_fill_sg env nsplits di bjs remain nfrags q)"
proof (induction bjs arbitrary: remain nfrags q)
  case Nil
  show ?case by simp
next
  case (Cons bj bjs)
  then show ?case
    using fill_buf_ok[of env nsplits q di bj]
    by (auto simp: Let_def split: prod.split)
qed

lemma fill_slot_ok:
  "allocs_succeed env \<Longrightarrow> fst (rx_fill_slot env flen nsplits q)"
proof -
  assume a: "allocs_succeed env"
  obtain ok1 q1 where r1: "rx_fill_buf env nsplits q (head_idx q) 0 = (ok1, q1)"
    by (cases "rx_fill_buf env nsplits q (head_idx q) 0")
  then have ok1 using fill_buf_ok[OF a, of nsplits q "head_idx q" 0] by simp
  let ?fl = "min_t_u16 flen (u64_sub (IONIC_PAGE_SIZE env) (page_offset (get_buf q1 (head_idx q) 0)))"
  obtain ok2 nf q2 where r2: "rx_fill_sg env nsplits (head_idx q) [1..<Suc (max_sg_elems q1)]
                    (flen - ?fl) 1 q1 = (ok2, nf, q2)"
    by (cases "rx_fill_sg env nsplits (head_idx q) [1..<Suc (max_sg_elems q1)] (flen - ?fl) 1 q1") auto
  then have ok2
    using fill_sg_ok[OF a, of nsplits "head_idx q" "[1..<Suc (max_sg_elems q1)]" "flen - ?fl" 1 q1]
    by simp
  show ?thesis using r1 r2 \<open>ok1\<close> \<open>ok2\<close>
    by (simp add: rx_fill_slot_def Let_def del: upt_Suc)
qed

lemma fill_loop_ok:
  "allocs_succeed env \<Longrightarrow> fst (rx_fill_loop env flen nsplits i q)"
proof (induction i arbitrary: q)
  case 0
  show ?case by simp
next
  case (Suc i)
  then show ?case
    using fill_slot_ok[of env flen nsplits q]
    by (auto split: prod.split)
qed

lemma allocs_succeed_completes:
  "allocs_succeed env \<Longrightarrow> rx_fill_completes env q"
  by (simp add: rx_fill_completes_def fill_loop_ok)

lemma poke_skip:
  assumes "tail_idx q \<noteq> head_idx q" "u64_sub (jiffies q) (dbell_jiffies q) \<le> dbell_deadline q"
  shows "ionic_txq_poke_doorbell q = (True, q)" "ionic_rxq_poke_doorbell env q = (True, q)"
  using assms by (simp_all add: ionic_txq_poke_doorbell_def ionic_rxq_poke_doorbell_def Let_def)

lemma poke_ring:
  assumes "tail_idx q \<noteq> head_idx q" "u64_sub (jiffies q) (dbell_jiffies q) > dbell_deadline q"
  shows "fst (ionic_txq_poke_doorbell q)"
    "events (snd (ionic_txq_poke_doorbell q)) = events q @ [DbellRing (head_idx q)]"
    "dbell_jiffies (snd (ionic_txq_poke_doorbell q)) = jiffies q"
    "dbell_deadline (snd (ionic_txq_poke_doorbell q)) = dbell_deadline q"
    "fst (ionic_rxq_poke_doorbell env q)"
    "events (snd (ionic_rxq_poke_doorbell env q)) = events q @ [DbellRing (head_idx q)]"
    "dbell_jiffies (snd (ionic_rxq_poke_doorbell env q)) = jiffies q"
    "dbell_deadline (snd (ionic_rxq_poke_doorbell env q)) =
       min (u64 (2 * dbell_deadline q)) (IONIC_RX_MAX_DOORBELL_DEADLINE env)"
  using assms
  by (simp_all add: ionic_txq_poke_doorbell_def ionic_rxq_poke_doorbell_def Let_def
      log_event_def min_def)

lemma env0_allocs_succeed: "allocs_succeed env0"
proof -
  have "4096 * (n + 1) \<noteq> (18446744073709551615::nat)" for n
  proof
    assume "4096 * (n + 1) = (18446744073709551615::nat)"
    then have "(4096 * (n + 1)) mod 2 = (18446744073709551615::nat) mod 2" by simp
    then show False by simp
  qed
  then show ?thesis
    by (simp add: allocs_succeed_def env0_def dma_mapping_error_def DMA_MAPPING_ERROR_def)
qed

section \<open>Send entry point: helper facts\<close>

lemma descs_needed_frame:
  assumes "ionic_tx_descs_needed env q skb = (ndescs, q1, skb1)"
  shows "events q1 = events q \<and> posts q1 = posts q \<and> info q1 = info q \<and>
         head_idx q1 = head_idx q \<and> tail_idx q1 = tail_idx q \<and> stopped q1 = stopped q \<and>
         index q1 = index q"
  using assms by (auto simp: ionic_tx_descs_needed_def Let_def split: if_splits)

lemma xmit_send_ok:
  "xmit_send env lif qi q skb = Some (r, lif') \<Longrightarrow> r = NETDEV_TX_OK"
  by (auto simp: xmit_send_def split: option.splits if_splits prod.splits)

lemma xmit_send_nongso:
  "gso_size skb = 0 \<Longrightarrow> \<exists>lif'. xmit_send env lif qi q skb = Some (NETDEV_TX_OK, lif')"
  by (auto simp: xmit_send_def split: option.splits if_splits prod.splits)

section \<open>Receive cleaning: the packet, the counters and the buffers\<close>

lemma recycle_quiet:
  "rx_dropped (snd (ionic_rx_buf_recycle env q di bj used)) = rx_dropped q"
  "rx_pkts (snd (ionic_rx_buf_recycle env q di bj used)) = rx_pkts q"
  "rx_bytes (snd (ionic_rx_buf_recycle env q di bj used)) = rx_bytes q"
  "rx_alloc_err (snd (ionic_rx_buf_recycle env q di bj used)) = rx_alloc_err q"
  "\<exists>e. events (snd (ionic_rx_buf_recycle env q di bj used)) = events q @ e \<and>
       filter is_delivery e = [] \<and> KfreeRxSkb \<notin> set e"
  by (auto simp: ionic_rx_buf_recycle_def Let_def set_buf_def log_event_def)

lemma recycle_other_buf:
  "j \<noteq> bj \<Longrightarrow> get_buf (snd (ionic_rx_buf_recycle env q di bj used)) di j = get_buf q di j"
  by (auto simp: ionic_rx_buf_recycle_def Let_def get_set_buf(2))

lemma frags_loop_outcome:
  assumes "rlen < 65536"
  shows "\<exists>ext. events (snd (rx_frags_loop env i di bj rlen frags q)) = events q @ ext \<and>
           filter is_delivery ext = [] \<and>
           rx_dropped (snd (rx_frags_loop env i di bj rlen frags q)) = rx_dropped q \<and>
           rx_pkts (snd (rx_frags_loop env i di bj rlen frags q)) = rx_pkts q \<and>
           rx_bytes (snd (rx_frags_loop env i di bj rlen frags q)) = rx_bytes q \<and>
           rx_alloc_err (snd (rx_frags_loop env i di bj rlen frags q)) = rx_alloc_err q \<and>
           (\<forall>j. j < bj \<or> bj + i \<le> j \<longrightarrow>
              get_buf (snd (rx_frags_loop env i di bj rlen frags q)) di j = get_buf q di j) \<and>
           (if \<forall>j<i. page (get_buf q di (bj + j)) \<noteq> None
            then KfreeRxSkb \<notin> set ext \<and>
                 (\<exists>new. fst (rx_frags_loop env i di bj rlen frags q) = Some (frags @ new) \<and>
                    map fst new = map (\<lambda>j. the (page (get_buf q di (bj + j)))) [0..<i] \<and>
                    sum_list (map (snd \<circ> snd) new) \<le> rlen)
            else fst (rx_frags_loop env i di bj rlen frags q) = None \<and> KfreeRxSkb \<in> set ext)"
  using assms
proof (induction i arbitrary: bj rlen frags q)
  case 0
  show ?case by simp
next
  case (Suc i)
  show ?case
  proof (cases "page (get_buf q di bj)")
    case None
    have r: "rx_frags_loop env (Suc i) di bj rlen frags q = (None, log_event KfreeRxSkb q)"
      using None by simp
    have c: "\<not> (\<forall>j<Suc i. page (get_buf q di (bj + j)) \<noteq> None)"
      using None by (auto intro: exI[of _ 0])
    show ?thesis unfolding r using c
      by (auto simp: log_event_def get_buf_def simp del: rx_frags_loop.simps)
  next
    case (Some pg)
    define fl where "fl = min_t_u16 rlen (u64_sub (IONIC_PAGE_SIZE env) (page_offset (get_buf q di bj)))"
    define rlen1 where "rlen1 = u16 (rlen + 65536 - fl)"
    define r where "r = ionic_rx_buf_recycle env q di bj fl"
    define q1 where "q1 = (if \<not> fst r
                    then set_buf
                           (log_event (DmaUnmapPage (dma_addr (get_buf (snd r) di bj))
                               (IONIC_PAGE_SIZE env)) (snd r))
                           di bj ((get_buf (snd r) di bj)\<lparr>page := None\<rparr>)
                    else snd r)"
    have step: "rx_frags_loop env (Suc i) di bj rlen frags q =
        rx_frags_loop env i di (bj + 1) rlen1 (frags @ [(pg, page_offset (get_buf q di bj), fl)]) q1"
      using Some by (simp add: Let_def fl_def rlen1_def r_def q1_def)
    have fle: "fl \<le> rlen" using Suc.prems by (simp add: fl_def min_t_u16_def u16_def)
    have r1: "rlen1 = rlen - fl"
    proof -
      have a: "rlen + 65536 - fl = (rlen - fl) + 65536" using fle by simp
      have "(rlen + 65536 - fl) mod 65536 = (rlen - fl) mod 65536"
        unfolding a by (rule mod_add_self2)
      moreover have "(rlen - fl) mod 65536 = rlen - fl" using Suc.prems by simp
      ultimately show ?thesis by (simp add: rlen1_def u16_def)
    qed
    have r1b: "rlen1 < 65536" using r1 Suc.prems by simp
    from recycle_quiet(5)[of env q di bj fl]
    obtain e0 where e0: "events (snd r) = events q @ e0" "filter is_delivery e0 = []"
      "KfreeRxSkb \<notin> set e0"
      unfolding r_def by blast
    have q1c: "rx_dropped q1 = rx_dropped q" "rx_pkts q1 = rx_pkts q" "rx_bytes q1 = rx_bytes q"
      "rx_alloc_err q1 = rx_alloc_err q"
      using recycle_quiet(1-4)[of env q di bj fl]
      by (simp_all add: q1_def r_def set_buf_def log_event_def)
    obtain e1 where e1: "events q1 = events q @ e1" "filter is_delivery e1 = []"
      "KfreeRxSkb \<notin> set e1"
    proof (cases "fst r")
      case True
      then show ?thesis using e0 that by (simp add: q1_def)
    next
      case False
      then have "events q1 = events q @ (e0 @ [DmaUnmapPage (dma_addr (get_buf (snd r) di bj))
                               (IONIC_PAGE_SIZE env)])"
        using e0 by (simp add: q1_def)
      then show ?thesis using e0 that by simp
    qed
    have q1b: "get_buf q1 di j = get_buf q di j" if "j \<noteq> bj" for j
      using recycle_other_buf[OF that, of env q di fl] that
      by (simp add: q1_def r_def get_set_buf(2))
    let ?R = "rx_frags_loop env i di (bj + 1) rlen1 (frags @ [(pg, page_offset (get_buf q di bj), fl)]) q1"
    from Suc.IH[OF r1b, of "bj + 1" "frags @ [(pg, page_offset (get_buf q di bj), fl)]" q1]
    obtain ext where ih: "events (snd ?R) = events q1 @ ext" "filter is_delivery ext = []"
      "rx_dropped (snd ?R) = rx_dropped q1" "rx_pkts (snd ?R) = rx_pkts q1"
      "rx_bytes (snd ?R) = rx_bytes q1" "rx_alloc_err (snd ?R) = rx_alloc_err q1"
      "\<forall>j. j < bj + 1 \<or> bj + 1 + i \<le> j \<longrightarrow> get_buf (snd ?R) di j = get_buf q1 di j"
      "if \<forall>j<i. page (get_buf q1 di (bj + 1 + j)) \<noteq> None
            then KfreeRxSkb \<notin> set ext \<and>
                 (\<exists>new. fst ?R = Some ((frags @ [(pg, page_offset (get_buf q di bj), fl)]) @ new) \<and>
                    map fst new = map (\<lambda>j. the (page (get_buf q1 di (bj + 1 + j)))) [0..<i] \<and>
                    sum_list (map (snd \<circ> snd) new) \<le> rlen1)
            else fst ?R = None \<and> KfreeRxSkb \<in> set ext"
      by blast
    have ceq: "(\<forall>j<i. page (get_buf q1 di (bj + 1 + j)) \<noteq> None) =
               (\<forall>j<Suc i. page (get_buf q di (bj + j)) \<noteq> None)"
    proof -
      have "(\<forall>j<Suc i. page (get_buf q di (bj + j)) \<noteq> None) =
            (\<forall>j<i. page (get_buf q di (bj + Suc j)) \<noteq> None)"
        using Some by (auto simp: less_Suc_eq_0_disj)
      then show ?thesis using q1b by simp
    qed
    have fr: "\<forall>j. j < bj \<or> bj + Suc i \<le> j \<longrightarrow> get_buf (snd ?R) di j = get_buf q di j"
      using ih(7) q1b by auto
    have ev: "events (snd ?R) = events q @ (e1 @ ext)" "filter is_delivery (e1 @ ext) = []"
      using ih(1,2) e1 by simp_all
    have last: "if \<forall>j<Suc i. page (get_buf q di (bj + j)) \<noteq> None
            then KfreeRxSkb \<notin> set (e1 @ ext) \<and>
                 (\<exists>new. fst ?R = Some (frags @ new) \<and>
                    map fst new = map (\<lambda>j. the (page (get_buf q di (bj + j)))) [0..<Suc i] \<and>
                    sum_list (map (snd \<circ> snd) new) \<le> rlen)
            else fst ?R = None \<and> KfreeRxSkb \<in> set (e1 @ ext)"
    proof (cases "\<forall>j<Suc i. page (get_buf q di (bj + j)) \<noteq> None")
      case True
      then have t1: "\<forall>j<i. page (get_buf q1 di (bj + 1 + j)) \<noteq> None" using ceq by simp
      from ih(8) t1 obtain new where
        n: "KfreeRxSkb \<notin> set ext"
          "fst ?R = Some ((frags @ [(pg, page_offset (get_buf q di bj), fl)]) @ new)"
          "map fst new = map (\<lambda>j. the (page (get_buf q1 di (bj + 1 + j)))) [0..<i]"
          "sum_list (map (snd \<circ> snd) new) \<le> rlen1"
        by auto
      let ?new = "(pg, page_offset (get_buf q di bj), fl) # new"
      have m: "map fst ?new = map (\<lambda>j. the (page (get_buf q di (bj + j)))) [0..<Suc i]"
      proof -
        have "map (\<lambda>j. the (page (get_buf q di (bj + j)))) [0..<Suc i] =
              the (page (get_buf q di bj)) # map (\<lambda>j. the (page (get_buf q di (bj + Suc j)))) [0..<i]"
          by (simp add: map_upt_Suc del: upt_Suc)
        moreover have "map (\<lambda>j. the (page (get_buf q1 di (bj + 1 + j)))) [0..<i] =
                       map (\<lambda>j. the (page (get_buf q di (bj + Suc j)))) [0..<i]"
          using q1b by simp
        ultimately show ?thesis using n(3) Some by simp
      qed
      have s: "sum_list (map (snd \<circ> snd) ?new) \<le> rlen" using n(4) r1 fle by simp
      have "fst ?R = Some (frags @ ?new)" using n(2) by simp
      then have "KfreeRxSkb \<notin> set (e1 @ ext) \<and>
                 (\<exists>new. fst ?R = Some (frags @ new) \<and>
                    map fst new = map (\<lambda>j. the (page (get_buf q di (bj + j)))) [0..<Suc i] \<and>
                    sum_list (map (snd \<circ> snd) new) \<le> rlen)"
        using n(1) e1(3) m s by (intro conjI exI[of _ ?new]) simp_all
      then show ?thesis unfolding if_P[OF True] .
    next
      case False
      then have nf: "\<not> (\<forall>j<i. page (get_buf q1 di (bj + 1 + j)) \<noteq> None)" using ceq by simp
      have "fst ?R = None \<and> KfreeRxSkb \<in> set ext"
        using ih(8) unfolding if_not_P[OF nf] .
      then have "fst ?R = None \<and> KfreeRxSkb \<in> set (e1 @ ext)" by simp
      then show ?thesis unfolding if_not_P[OF False] .
    qed
    have cs: "rx_dropped (snd ?R) = rx_dropped q" "rx_pkts (snd ?R) = rx_pkts q"
      "rx_bytes (snd ?R) = rx_bytes q" "rx_alloc_err (snd ?R) = rx_alloc_err q"
      using ih(3-6) q1c by simp_all
    show ?thesis
      unfolding step
      by (rule exI[of _ "e1 @ ext"], intro conjI) (rule ev cs fr last)+
  qed
qed

lemma rx_clean_outcome:
  fixes env q di cqe
  defines "q' \<equiv> ionic_rx_clean env q di cqe"
  defines "plen \<equiv> u16 (comp_len cqe)"
  shows "\<exists>ext. events q' = events q @ ext \<and>
    (if status cqe \<noteq> 0 \<or> u32 (mtu q + ETH_HLEN + VLAN_HLEN) < plen
     then ext = [] \<and> rx_dropped q' = u64 (rx_dropped q + 1) \<and> rx_pkts q' = rx_pkts q \<and>
          rx_bytes q' = rx_bytes q \<and> (\<forall>j. get_buf q' di j = get_buf q di j)
     else rx_pkts q' = u64 (rx_pkts q + 1) \<and> rx_bytes q' = u64 (rx_bytes q + plen) \<and>
       (if \<not> skb_alloc env (kcalls q)
        then ext = [] \<and> rx_dropped q' = u64 (rx_dropped q + 1) \<and>
             rx_alloc_err q' = u64 (rx_alloc_err q + 1) \<and> (\<forall>j. get_buf q' di j = get_buf q di j)
        else if plen \<le> rx_copybreak q
        then (\<forall>j. get_buf q' di j = get_buf q di j) \<and>
             (if page (get_buf q di 0) = None
              then ext = [KfreeRxSkb] \<and> rx_dropped q' = u64 (rx_dropped q + 1)
              else ext = [NapiGroReceive plen] \<and> rx_dropped q' = rx_dropped q)
        else (\<forall>j. num_sg_elems cqe < j \<longrightarrow> get_buf q' di j = get_buf q di j) \<and>
             (if \<forall>j \<le> num_sg_elems cqe. page (get_buf q di j) \<noteq> None
              then rx_dropped q' = rx_dropped q \<and>
                   (\<exists>pre frags. ext = pre @ [NapiGroFrags frags] \<and>
                      filter is_delivery pre = [] \<and> KfreeRxSkb \<notin> set pre \<and>
                      map fst frags =
                        map (\<lambda>j. the (page (get_buf q di j))) [0..<num_sg_elems cqe + 1] \<and>
                      sum_list (map (snd \<circ> snd) frags) \<le> plen)
              else rx_dropped q' = u64 (rx_dropped q + 1) \<and> filter is_delivery ext = [] \<and>
                   KfreeRxSkb \<in> set ext)))"
proof (cases "status cqe \<noteq> 0 \<or> u32 (mtu q + ETH_HLEN + VLAN_HLEN) < plen")
  case True
  then have "q' = q\<lparr>rx_dropped := u64 (rx_dropped q + 1)\<rparr>"
    unfolding q'_def plen_def ionic_rx_clean_def by auto
  then show ?thesis using True by (simp add: get_buf_def)
next
  case good: False
  define qa where "qa = q\<lparr>rx_pkts := u64 (rx_pkts q + 1), rx_bytes := u64 (rx_bytes q + plen)\<rparr>"
  define qb where "qb = qa\<lparr>kcalls := kcalls qa + 1\<rparr>"
  have qb: "events qb = events q" "rx_dropped qb = rx_dropped q" "rx_pkts qb = u64 (rx_pkts q + 1)"
    "rx_bytes qb = u64 (rx_bytes q + plen)" "rx_alloc_err qb = rx_alloc_err q"
    "\<And>j. get_buf qb di j = get_buf q di j"
    by (simp_all add: qb_def qa_def get_buf_def)
  have cl: "q' = (if plen \<le> rx_copybreak q
           then (case ionic_rx_copybreak env qa di cqe of
                   (None, q2) \<Rightarrow> q2\<lparr>rx_dropped := u64 (rx_dropped q2 + 1)\<rparr>
                 | (Some n, q2) \<Rightarrow> log_event (NapiGroReceive n) q2)
           else (case ionic_rx_frags env qa di cqe of
                   (None, q2) \<Rightarrow> q2\<lparr>rx_dropped := u64 (rx_dropped q2 + 1)\<rparr>
                 | (Some frags, q2) \<Rightarrow> log_event (NapiGroFrags frags) q2))"
    using good unfolding q'_def plen_def ionic_rx_clean_def qa_def Let_def
    by (simp add: not_less)
  show ?thesis
  proof (cases "skb_alloc env (kcalls q)")
    case False
    have a: "ionic_rx_copybreak env qa di cqe = (None, qb\<lparr>rx_alloc_err := u64 (rx_alloc_err qb + 1)\<rparr>)"
      "ionic_rx_frags env qa di cqe = (None, qb\<lparr>rx_alloc_err := u64 (rx_alloc_err qb + 1)\<rparr>)"
      using False by (simp_all add: ionic_rx_copybreak_def ionic_rx_frags_def Let_def qb_def qa_def)
    have "q' = qb\<lparr>rx_alloc_err := u64 (rx_alloc_err qb + 1), rx_dropped := u64 (rx_dropped qb + 1)\<rparr>"
      unfolding cl a by simp
    then have f: "events q' = events q @ []" "rx_dropped q' = u64 (rx_dropped q + 1)"
      "rx_alloc_err q' = u64 (rx_alloc_err q + 1)" "rx_pkts q' = u64 (rx_pkts q + 1)"
      "rx_bytes q' = u64 (rx_bytes q + plen)" "\<forall>j. get_buf q' di j = get_buf q di j"
      using qb by (simp_all add: get_buf_def)
    show ?thesis
      unfolding if_not_P[OF good]
      by (rule exI[of _ "[]"]) (use f False in simp)
  next
    case alloc: True
    show ?thesis
    proof (cases "plen \<le> rx_copybreak q")
      case cb: True
      show ?thesis
      proof (cases "page (get_buf q di 0)")
        case None
        have "ionic_rx_copybreak env qa di cqe = (None, log_event KfreeRxSkb qb)"
          using alloc None qb(6)[of 0]
          by (simp add: ionic_rx_copybreak_def Let_def qb_def qa_def)
        then have "q' = (log_event KfreeRxSkb qb)\<lparr>rx_dropped := u64 (rx_dropped qb + 1)\<rparr>"
          unfolding cl using cb by (simp add: log_event_def)
        then have f: "events q' = events q @ [KfreeRxSkb]" "rx_dropped q' = u64 (rx_dropped q + 1)"
          "rx_pkts q' = u64 (rx_pkts q + 1)"
          "rx_bytes q' = u64 (rx_bytes q + plen)" "\<forall>j. get_buf q' di j = get_buf q di j"
          using qb by (simp_all add: get_buf_def log_event_def)
        show ?thesis
          unfolding if_not_P[OF good]
          by (rule exI[of _ "[KfreeRxSkb]"]) (use f alloc cb None in simp)
      next
        case (Some pg)
        have "ionic_rx_copybreak env qa di cqe = (Some plen, qb)"
          using alloc Some qb(6)[of 0]
          by (simp add: ionic_rx_copybreak_def Let_def qb_def qa_def plen_def)
        then have "q' = log_event (NapiGroReceive plen) qb"
          unfolding cl using cb by simp
        then have f: "events q' = events q @ [NapiGroReceive plen]" "rx_dropped q' = rx_dropped q"
          "rx_pkts q' = u64 (rx_pkts q + 1)"
          "rx_bytes q' = u64 (rx_bytes q + plen)" "\<forall>j. get_buf q' di j = get_buf q di j"
          using qb by (simp_all add: get_buf_def log_event_def)
        show ?thesis
          unfolding if_not_P[OF good]
          by (rule exI[of _ "[NapiGroReceive plen]"]) (use f alloc cb Some in simp)
      qed
    next
      case ncb: False
      define R where "R = rx_frags_loop env (num_sg_elems cqe + 1) di 0 plen [] qb"
      have fr: "ionic_rx_frags env qa di cqe = R"
        using alloc by (simp add: ionic_rx_frags_def Let_def qb_def qa_def plen_def R_def
            del: rx_frags_loop.simps)
      have pl: "plen < 65536" by (simp add: plen_def u16_def)
      from frags_loop_outcome[OF pl, of env "num_sg_elems cqe + 1" di 0 "[]" qb, folded R_def]
      obtain ext where o: "events (snd R) = events qb @ ext" "filter is_delivery ext = []"
        "rx_dropped (snd R) = rx_dropped qb" "rx_pkts (snd R) = rx_pkts qb"
        "rx_bytes (snd R) = rx_bytes qb"
        "\<forall>j. j < 0 \<or> 0 + (num_sg_elems cqe + 1) \<le> j \<longrightarrow> get_buf (snd R) di j = get_buf qb di j"
        "if \<forall>j<num_sg_elems cqe + 1. page (get_buf qb di (0 + j)) \<noteq> None
            then KfreeRxSkb \<notin> set ext \<and>
                 (\<exists>new. fst R = Some ([] @ new) \<and>
                    map fst new = map (\<lambda>j. the (page (get_buf qb di (0 + j)))) [0..<num_sg_elems cqe + 1] \<and>
                    sum_list (map (snd \<circ> snd) new) \<le> plen)
            else fst R = None \<and> KfreeRxSkb \<in> set ext"
        by blast
      have ceq: "(\<forall>j<num_sg_elems cqe + 1. page (get_buf qb di (0 + j)) \<noteq> None) =
                 (\<forall>j \<le> num_sg_elems cqe. page (get_buf q di j) \<noteq> None)"
        using qb(6) by (simp add: less_Suc_eq_le)
      have ob: "\<forall>j. num_sg_elems cqe < j \<longrightarrow> get_buf (snd R) di j = get_buf q di j"
        using o(6) qb(6) by simp
      show ?thesis
      proof (cases "\<forall>j \<le> num_sg_elems cqe. page (get_buf q di j) \<noteq> None")
        case True
        then have t: "\<forall>j<num_sg_elems cqe + 1. page (get_buf qb di (0 + j)) \<noteq> None"
          using ceq by simp
        from o(7) obtain new where n: "KfreeRxSkb \<notin> set ext" "fst R = Some new"
          "map fst new = map (\<lambda>j. the (page (get_buf qb di (0 + j)))) [0..<num_sg_elems cqe + 1]"
          "sum_list (map (snd \<circ> snd) new) \<le> plen"
          unfolding if_P[OF t] by auto
        have m: "map fst new = map (\<lambda>j. the (page (get_buf q di j))) [0..<num_sg_elems cqe + 1]"
          using n(3) qb(6) by simp
        have "q' = log_event (NapiGroFrags new) (snd R)"
          unfolding cl fr using ncb n(2) by (cases R) auto
        then have f: "events q' = events q @ (ext @ [NapiGroFrags new])"
          "rx_dropped q' = rx_dropped q" "rx_pkts q' = u64 (rx_pkts q + 1)"
          "rx_bytes q' = u64 (rx_bytes q + plen)"
          "\<forall>j. num_sg_elems cqe < j \<longrightarrow> get_buf q' di j = get_buf q di j"
          using o(1,3,4,5) ob qb by (simp_all add: log_event_def get_buf_def)
        have d: "\<exists>pre frags. ext @ [NapiGroFrags new] = pre @ [NapiGroFrags frags] \<and>
                      filter is_delivery pre = [] \<and> KfreeRxSkb \<notin> set pre \<and>
                      map fst frags =
                        map (\<lambda>j. the (page (get_buf q di j))) [0..<num_sg_elems cqe + 1] \<and>
                      sum_list (map (snd \<circ> snd) frags) \<le> plen"
          using o(2) n(1,4) m by blast
        show ?thesis
          unfolding if_not_P[OF good]
          apply (rule exI[of _ "ext @ [NapiGroFrags new]"])
          using f d alloc ncb True by (simp del: upt_Suc)
      next
        case False
        then have t: "\<not> (\<forall>j<num_sg_elems cqe + 1. page (get_buf qb di (0 + j)) \<noteq> None)"
          using ceq by simp
        from o(7) have n: "fst R = None" "KfreeRxSkb \<in> set ext"
          unfolding if_not_P[OF t] by auto
        have "q' = (snd R)\<lparr>rx_dropped := u64 (rx_dropped (snd R) + 1)\<rparr>"
          unfolding cl fr using ncb n(1) by (cases R) auto
        then have f: "events q' = events q @ ext"
          "rx_dropped q' = u64 (rx_dropped q + 1)" "rx_pkts q' = u64 (rx_pkts q + 1)"
          "rx_bytes q' = u64 (rx_bytes q + plen)"
          "\<forall>j. num_sg_elems cqe < j \<longrightarrow> get_buf q' di j = get_buf q di j"
          using o(1,3,4,5) ob qb by (simp_all add: get_buf_def)
        have na: "\<not> \<not> skb_alloc env (kcalls q)" using alloc by simp
        show ?thesis
          unfolding if_not_P[OF good] if_not_P[OF na] if_not_P[OF ncb] if_not_P[OF False]
          by (rule exI[of _ ext]) (use f o(2) n(2) in simp)
      qed
    qed
  qed
qed

lemma rx_service_cleaned:
  assumes "ring_ok k q" and "ionic_rx_service env dc cqe q = (True, q')"
  shows "\<exists>ext. events q' = events q @ ext \<and>
    (if status cqe \<noteq> 0 \<or> u32 (mtu q + ETH_HLEN + VLAN_HLEN) < u16 (comp_len cqe)
     then ext = [] \<and> rx_dropped q' = u64 (rx_dropped q + 1) \<and> rx_pkts q' = rx_pkts q \<and>
          rx_bytes q' = rx_bytes q \<and>
          (\<forall>j. get_buf q' (tail_idx q) j = get_buf q (tail_idx q) j)
     else rx_pkts q' = u64 (rx_pkts q + 1) \<and> rx_bytes q' = u64 (rx_bytes q + u16 (comp_len cqe)) \<and>
       (if \<not> skb_alloc env (kcalls q)
        then ext = [] \<and> rx_dropped q' = u64 (rx_dropped q + 1) \<and>
             rx_alloc_err q' = u64 (rx_alloc_err q + 1) \<and>
             (\<forall>j. get_buf q' (tail_idx q) j = get_buf q (tail_idx q) j)
        else if u16 (comp_len cqe) \<le> rx_copybreak q
        then (\<forall>j. get_buf q' (tail_idx q) j = get_buf q (tail_idx q) j) \<and>
             (if page (get_buf q (tail_idx q) 0) = None
              then ext = [KfreeRxSkb] \<and> rx_dropped q' = u64 (rx_dropped q + 1)
              else ext = [NapiGroReceive (u16 (comp_len cqe))] \<and> rx_dropped q' = rx_dropped q)
        else (\<forall>j. num_sg_elems cqe < j \<longrightarrow>
                get_buf q' (tail_idx q) j = get_buf q (tail_idx q) j) \<and>
             (if \<forall>j \<le> num_sg_elems cqe. page (get_buf q (tail_idx q) j) \<noteq> None
              then rx_dropped q' = rx_dropped q \<and>
                   (\<exists>pre frags. ext = pre @ [NapiGroFrags frags] \<and>
                      filter is_delivery pre = [] \<and> KfreeRxSkb \<notin> set pre \<and>
                      map fst frags =
                        map (\<lambda>j. the (page (get_buf q (tail_idx q) j)))
                          [0..<num_sg_elems cqe + 1] \<and>
                      sum_list (map (snd \<circ> snd) frags) \<le> u16 (comp_len cqe))
              else rx_dropped q' = u64 (rx_dropped q + 1) \<and> filter is_delivery ext = [] \<and>
                   KfreeRxSkb \<in> set ext)))"
proof -
  define t where "t = tail_idx q"
  define q1 where "q1 = q\<lparr>tail_idx := ring_next t (num_descs q)\<rparr>"
  define q2 where "q2 = ionic_rx_clean env q1 t cqe"
  have cond: "color_match (color cqe) dc" "t \<noteq> head_idx q" "t = u16 (comp_index cqe)"
    using assms(2) by (auto simp: ionic_rx_service_def Let_def t_def split: if_splits)
  have q': "q' = q2\<lparr>info := (info q2)[t := (info q2 ! t)\<lparr>cb := None, cb_arg := None\<rparr>]\<rparr>"
    using assms(2) cond by (simp add: ionic_rx_service_def Let_def t_def q1_def q2_def)
  have fr: "slot_frame t q1 q2" unfolding q2_def by (rule slot_frame_rx_clean)
  have tl: "t < length (info q2)"
    using assms(1) fr by (simp add: ring_ok_def slot_frame_def t_def q1_def)
  have e1: "events q1 = events q" "mtu q1 = mtu q" "kcalls q1 = kcalls q"
    "rx_copybreak q1 = rx_copybreak q" "rx_dropped q1 = rx_dropped q" "rx_pkts q1 = rx_pkts q"
    "rx_bytes q1 = rx_bytes q" "rx_alloc_err q1 = rx_alloc_err q"
    "\<And>j. get_buf q1 t j = get_buf q t j"
    by (simp_all add: q1_def get_buf_def)
  have e2: "events q2 = events q'" "rx_dropped q2 = rx_dropped q'" "rx_pkts q2 = rx_pkts q'"
    "rx_bytes q2 = rx_bytes q'" "rx_alloc_err q2 = rx_alloc_err q'"
    "\<And>j. get_buf q2 t j = get_buf q' t j"
    using tl by (simp_all add: q' get_buf_def)
  note o = rx_clean_outcome[of env q1 t cqe, folded q2_def]
  note o2 = o[unfolded e1 e2]
  show ?thesis using o2 unfolding t_def .
qed

section \<open>Segmentation offload: helper facts\<close>

lemma tso_post_effect:
  assumes "head_idx q < length (info q)"
  shows "\<exists>p. posts (ionic_tx_tso_post env q skb addr nsge dlen hdrlen mss oc tci hv start fin)
               = posts q @ [p] \<and>
             FLAG_TSO_SOT (p_desc p) = start \<and> FLAG_TSO_EOT (p_desc p) = fin \<and>
             p_cb p = (if start then Some ionic_tx_clean_cb else None) \<and>
             p_cb_arg p = (if start then Some skb else None)"
  using assms
  by (simp add: ionic_tx_tso_post_def ionic_txq_post_def ionic_q_post_def Let_def log_event_def)

lemma tso_post_frame:
  "num_descs (ionic_tx_tso_post env q skb addr nsge dlen hdrlen mss oc tci hv start fin) = num_descs q"
  "tail_idx (ionic_tx_tso_post env q skb addr nsge dlen hdrlen mss oc tci hv start fin) = tail_idx q"
  "length (info (ionic_tx_tso_post env q skb addr nsge dlen hdrlen mss oc tci hv start fin)) =
     length (info q)"
  "head_idx (ionic_tx_tso_post env q skb addr nsge dlen hdrlen mss oc tci hv start fin) =
     ring_next (head_idx q) (num_descs q)"
  by (simp_all add: ionic_tx_tso_post_def ionic_txq_post_def ionic_q_post_def Let_def log_event_def)

lemma tso_step_queue:
  fixes env q skb addr nsge dlen hdrlen mss oc tci hv start fin
  defines "q1 \<equiv> ionic_tx_tso_post env q skb addr nsge dlen hdrlen mss oc tci hv start fin"
  defines "q2 \<equiv> q1\<lparr>info := (info q1)[head_idx q1 := (info q1 ! head_idx q1)\<lparr>nbufs := 0\<rparr>]\<rparr>"
  assumes ok: "ring_ok k q"
  shows "ring_ok k q2"
    and "\<exists>p. posts q2 = posts q @ [p] \<and>
             FLAG_TSO_SOT (p_desc p) = start \<and> FLAG_TSO_EOT (p_desc p) = fin \<and>
             p_cb p = (if start then Some ionic_tx_clean_cb else None) \<and>
             p_cb_arg p = (if start then Some skb else None)"
proof -
  have h: "head_idx q < length (info q)" using ok by (simp add: ring_ok_def)
  have "ring_next (head_idx q) (num_descs q) < num_descs q"
    using ok by (intro ring_next_lt[where k=k]) (simp_all add: ring_ok_def)
  then show "ring_ok k q2"
    using ok unfolding q2_def q1_def by (simp add: ring_ok_def tso_post_frame)
  show "\<exists>p. posts q2 = posts q @ [p] \<and>
             FLAG_TSO_SOT (p_desc p) = start \<and> FLAG_TSO_EOT (p_desc p) = fin \<and>
             p_cb p = (if start then Some ionic_tx_clean_cb else None) \<and>
             p_cb_arg p = (if start then Some skb else None)"
    using tso_post_effect[OF h, of env skb addr nsge dlen hdrlen mss oc tci hv start fin]
    unfolding q2_def q1_def by simp
qed

lemma tso_pattern_single:
  assumes "FLAG_TSO_SOT (p_desc p) = start" "FLAG_TSO_EOT (p_desc p) = True"
    "p_cb p = (if start then Some ionic_tx_clean_cb else None)"
    "p_cb_arg p = (if start then Some skb else None)"
  shows "tso_pattern skb start [p]"
  using assms by (simp add: tso_pattern_def)

lemma tso_pattern_cons:
  assumes "FLAG_TSO_SOT (p_desc p) = start" "FLAG_TSO_EOT (p_desc p) = False"
    "p_cb p = (if start then Some ionic_tx_clean_cb else None)"
    "p_cb_arg p = (if start then Some skb else None)"
    and "tso_pattern skb False new"
  shows "tso_pattern skb start (p # new)"
proof -
  from assms(5) obtain x xs where n: "new = x # xs" by (cases new) (auto simp: tso_pattern_def)
  have r: "False # replicate (length xs) False = replicate (length xs) False @ [False]"
    by (simp add: replicate_append_same)
  show ?thesis using assms unfolding n tso_pattern_def
    by (simp add: replicate_append_same)
qed

lemma tso_rest_0: "tso_rest 0 mss = []"
  by (simp add: tso_rest_def)

lemma tso_rest_step:
  assumes "0 < mss" "0 < r"
  shows "tso_rest r mss = min r mss # tso_rest (r - min r mss) mss"
proof (cases "r < mss")
  case True
  then show ?thesis using assms by (simp add: tso_rest_def)
next
  case False
  then have ge: "mss \<le> r" by simp
  have d: "r div mss = Suc ((r - mss) div mss)" using ge assms(1) by (simp add: le_div_geq)
  have m: "r mod mss = (r - mss) mod mss" using ge by (simp add: le_mod_geq)
  show ?thesis using ge by (simp add: tso_rest_def d m min_def)
qed

lemma sum_tso_rest: "sum_list (tso_rest r mss) = r"
  using div_mult_mod_eq[of r mss] by (auto simp: tso_rest_def sum_list_replicate)

lemma tso_rest_pos: "0 < mss \<Longrightarrow> x \<in> set (tso_rest r mss) \<Longrightarrow> 0 < x"
  by (auto simp: tso_rest_def split: if_splits)

lemma write_elems_frame:
  "ring_ok k (tso_write_elems q es) = ring_ok k q"
  "posts (tso_write_elems q es) = posts q"
  "head_idx (tso_write_elems q es) = head_idx q"
  "head_idx q < length (info q) \<Longrightarrow>
     take (length es) (txq_sg_elems (info (tso_write_elems q es) ! head_idx q)) = es"
  by (simp_all add: tso_write_elems_def ring_ok_def Let_def)

lemma tso_post_bytes:
  assumes "head_idx q < length (info q)"
  shows "\<exists>p. posts (ionic_tx_tso_post env q skb addr nsge dlen hdrlen mss oc tci hv start fin)
               = posts q @ [p] \<and>
             d_len (p_desc p) = dlen \<and> d_nsge (p_desc p) = nsge \<and>
             p_sg p = txq_sg_elems (info q ! head_idx q)"
  using assms
  by (simp add: ionic_tx_tso_post_def ionic_txq_post_def ionic_q_post_def Let_def log_event_def)

text \<open>The queue after one descriptor of the outer loop has been posted.\<close>

lemma tso_step_posted:
  fixes env q skb addr nsge dlen hdrlen mss oc tci hv start fin es
  defines "q1 \<equiv> ionic_tx_tso_post env (tso_write_elems q es) skb addr nsge dlen hdrlen mss oc
                  tci hv start fin"
  defines "q2 \<equiv> q1\<lparr>info := (info q1)[head_idx q1 := (info q1 ! head_idx q1)\<lparr>nbufs := 0\<rparr>]\<rparr>"
  assumes ok: "ring_ok k q"
  shows "ring_ok k q2"
    and "\<exists>p. posts q2 = posts q @ [p] \<and>
             FLAG_TSO_SOT (p_desc p) = start \<and> FLAG_TSO_EOT (p_desc p) = fin \<and>
             p_cb p = (if start then Some ionic_tx_clean_cb else None) \<and>
             p_cb_arg p = (if start then Some skb else None) \<and>
             d_len (p_desc p) = dlen \<and> d_nsge (p_desc p) = nsge \<and>
             take (length es) (p_sg p) = es"
proof -
  let ?qe = "tso_write_elems q es"
  have oke: "ring_ok k ?qe" using ok by (simp add: write_elems_frame)
  have h: "head_idx q < length (info q)" using ok by (simp add: ring_ok_def)
  have he: "head_idx ?qe < length (info ?qe)" using oke by (simp add: ring_ok_def)
  show "ring_ok k q2"
    using tso_step_queue(1)[OF oke] unfolding q2_def q1_def .
  from tso_step_queue(2)[OF oke, of env skb addr nsge dlen hdrlen mss oc tci hv start fin]
  obtain p where p: "posts q2 = posts q @ [p]"
    "FLAG_TSO_SOT (p_desc p) = start" "FLAG_TSO_EOT (p_desc p) = fin"
    "p_cb p = (if start then Some ionic_tx_clean_cb else None)"
    "p_cb_arg p = (if start then Some skb else None)"
    unfolding q2_def q1_def by (auto simp: write_elems_frame)
  from tso_post_bytes[OF he, of env skb addr nsge dlen hdrlen mss oc tci hv start fin]
  obtain p' where p': "posts q1 = posts q @ [p']" "d_len (p_desc p') = dlen"
    "d_nsge (p_desc p') = nsge" "p_sg p' = txq_sg_elems (info ?qe ! head_idx ?qe)"
    unfolding q1_def by (auto simp: write_elems_frame)
  have "posts q2 = posts q1" by (simp add: q2_def)
  then have pp: "p' = p" using p(1) p'(1) by simp
  have "take (length es) (p_sg p) = es"
    using p'(4) pp write_elems_frame(4)[OF h, of es] by (simp add: write_elems_frame)
  then show "\<exists>p. posts q2 = posts q @ [p] \<and>
             FLAG_TSO_SOT (p_desc p) = start \<and> FLAG_TSO_EOT (p_desc p) = fin \<and>
             p_cb p = (if start then Some ionic_tx_clean_cb else None) \<and>
             p_cb_arg p = (if start then Some skb else None) \<and>
             d_len (p_desc p) = dlen \<and> d_nsge (p_desc p) = nsge \<and>
             take (length es) (p_sg p) = es"
    using p p' pp by blast
qed

text \<open>
  Induction over the runs of the outer loop that return: a property that holds when no
  byte remains, and that holds before a pass if it holds after it, holds of every run.
\<close>

lemma tso_loop_rule:
  assumes run: "tso_loop env skb hdrlen mss st = Some q'"
    and base: "\<And>bs fa fr sr start q. P (bs, fa, fr, 0, sr, start, q) q"
    and step: "\<And>bs fa fr tr sr start q bs1 fa1 fr1 tr1 da dl dn es y.
        0 < tr \<Longrightarrow>
        tso_seg_loop bs fa fr tr sr None = Some (bs1, fa1, fr1, tr1, Some (da, dl, dn, es)) \<Longrightarrow>
        P (bs1, fa1, fr1, tr1, min tr1 mss, False,
           (let q1 = ionic_tx_tso_post env (tso_write_elems q es) skb da dn dl hdrlen mss
                       (gso_outer_csum skb) (vlan_tag skb) (vlan_tag_present skb) start
                       (tr1 = 0)
            in q1\<lparr>info := (info q1)[head_idx q1 := (info q1 ! head_idx q1)\<lparr>nbufs := 0\<rparr>]\<rparr>)) y \<Longrightarrow>
        P (bs, fa, fr, tr, sr, start, q) y"
  shows "P st q'"
proof -
  have "env = env \<and> skb = skb \<and> hdrlen = hdrlen \<and> mss = mss \<longrightarrow> P st q'"
  proof (rule tso_loop.raw_induct
      [where P = "\<lambda>e s h m st y. e = env \<and> s = skb \<and> h = hdrlen \<and> m = mss \<longrightarrow> P st y",
        OF _ run])
    fix loop :: "ionic_env \<Rightarrow> sk_buff \<Rightarrow> nat \<Rightarrow> nat \<Rightarrow> tso_state \<Rightarrow> ionic_queue option"
    fix env' skb' hdrlen' mss' st y
    assume IH: "\<And>e s h m st y. loop e s h m st = Some y \<Longrightarrow>
         e = env \<and> s = skb \<and> h = hdrlen \<and> m = mss \<longrightarrow> P st y"
    assume eq: "(case st of
      (bs, frag_addr, frag_rem, tso_rem, seg_rem, start, q) \<Rightarrow>
        if 0 < tso_rem
        then case tso_seg_loop bs frag_addr frag_rem tso_rem seg_rem None of
             None \<Rightarrow> None
             | Some (bs1, frag_addr1, frag_rem1, tso_rem1, None) \<Rightarrow> None
             | Some (bs1, frag_addr1, frag_rem1, tso_rem1,
                     Some (desc_addr, desc_len, desc_nsge, elems)) \<Rightarrow>
                 loop env' skb' hdrlen' mss'
                  (bs1, frag_addr1, frag_rem1, tso_rem1, min tso_rem1 mss', False,
                   let q1 = ionic_tx_tso_post env' (tso_write_elems q elems) skb' desc_addr
                             desc_nsge desc_len hdrlen' mss' (gso_outer_csum skb')
                             (vlan_tag skb') (vlan_tag_present skb') start
                             (tso_rem1 = 0)
                   in q1\<lparr>info := (info q1)[head_idx q1 := (info q1 ! head_idx q1)\<lparr>nbufs := 0\<rparr>]\<rparr>)
        else Some q) = Some y"
    show "env' = env \<and> skb' = skb \<and> hdrlen' = hdrlen \<and> mss' = mss \<longrightarrow> P st y"
    proof (intro impI)
      assume e: "env' = env \<and> skb' = skb \<and> hdrlen' = hdrlen \<and> mss' = mss"
      obtain bs fa fr tr sr start q where st: "st = (bs, fa, fr, tr, sr, start, q)"
        by (cases st) auto
      show "P st y"
      proof (cases "0 < tr")
        case False
        then have "y = q" using eq st by simp
        then show ?thesis using base[of bs fa fr sr start q] st False by simp
      next
        case True
        from eq st True obtain bs1 fa1 fr1 tr1 da dl dn es where
          seg: "tso_seg_loop bs fa fr tr sr None = Some (bs1, fa1, fr1, tr1, Some (da, dl, dn, es))"
          by (auto split: option.splits prod.splits)
        let ?q2 = "(let q1 = ionic_tx_tso_post env (tso_write_elems q es) skb da dn dl hdrlen mss
                       (gso_outer_csum skb) (vlan_tag skb) (vlan_tag_present skb) start
                       (tr1 = 0)
            in q1\<lparr>info := (info q1)[head_idx q1 := (info q1 ! head_idx q1)\<lparr>nbufs := 0\<rparr>]\<rparr>)"
        have rec: "loop env skb hdrlen mss (bs1, fa1, fr1, tr1, min tr1 mss, False, ?q2) = Some y"
          using eq st True seg e by simp
        from IH[OF rec] have "P (bs1, fa1, fr1, tr1, min tr1 mss, False, ?q2) y" by simp
        from step[OF True seg this] show ?thesis using st by simp
      qed
    qed
  qed
  then show ?thesis by simp
qed

lemma tso_loop_posts:
  assumes run: "tso_loop env skb hdrlen mss (bs, fa, fr, tr, sr, start, q) = Some q'"
    and ok: "ring_ok k q"
  shows "ring_ok k q' \<and>
         (\<exists>new. posts q' = posts q @ new \<and>
            (if tr = 0 then new = [] else tso_pattern skb start new))"
proof -
  let ?P = "\<lambda>st y. case st of (bs, fa, fr, tr, sr, start, q) \<Rightarrow>
      ring_ok k q \<longrightarrow> ring_ok k y \<and>
         (\<exists>new. posts y = posts q @ new \<and>
            (if tr = 0 then new = [] else tso_pattern skb start new))"
  have "?P (bs, fa, fr, tr, sr, start, q) q'"
  proof (rule tso_loop_rule[where P = ?P, OF run])
    fix bs fa fr sr start q
    show "?P (bs, fa, fr, 0, sr, start, q) q" by simp
  next
    fix bs fa fr and tr :: nat and sr start q bs1 fa1 fr1 and tr1 :: nat and da dl dn es y
    let ?q2 = "(let q1 = ionic_tx_tso_post env (tso_write_elems q es) skb da dn dl hdrlen mss
                       (gso_outer_csum skb) (vlan_tag skb) (vlan_tag_present skb) start
                       (tr1 = 0)
            in q1\<lparr>info := (info q1)[head_idx q1 := (info q1 ! head_idx q1)\<lparr>nbufs := 0\<rparr>]\<rparr>)"
    assume tr: "0 < tr"
      and seg: "tso_seg_loop bs fa fr tr sr None = Some (bs1, fa1, fr1, tr1, Some (da, dl, dn, es))"
      and ih: "?P (bs1, fa1, fr1, tr1, min tr1 mss, False, ?q2) y"
    show "?P (bs, fa, fr, tr, sr, start, q) y"
    proof (simp only: prod.case, intro impI)
      assume okq: "ring_ok k q"
      note stp = tso_step_posted[OF okq, of env es skb da dn dl hdrlen mss "gso_outer_csum skb"
          "vlan_tag skb" "vlan_tag_present skb" start "tr1 = 0"]
      from stp(2) obtain p where p: "posts ?q2 = posts q @ [p]"
        "FLAG_TSO_SOT (p_desc p) = start" "FLAG_TSO_EOT (p_desc p) = (tr1 = 0)"
        "p_cb p = (if start then Some ionic_tx_clean_cb else None)"
        "p_cb_arg p = (if start then Some skb else None)"
        by (auto simp: Let_def)
      have ok2: "ring_ok k ?q2" using stp(1) by (simp add: Let_def)
      from ih ok2
      have "ring_ok k y \<and> (\<exists>new. posts y = posts ?q2 @ new \<and>
              (if tr1 = 0 then new = [] else tso_pattern skb False new))"
        by (simp cong: if_cong)
      then obtain new where new: "ring_ok k y"
        "posts y = posts ?q2 @ new"
        "if tr1 = 0 then new = [] else tso_pattern skb False new"
        by blast
      have pq: "posts y = posts q @ (p # new)" using new(2) p(1) by simp
      have "tso_pattern skb start (p # new)"
      proof (cases "tr1 = 0")
        case True
        then show ?thesis using new(3) p tso_pattern_single by simp
      next
        case False
        then show ?thesis using new(3) p tso_pattern_cons by simp
      qed
      then show "ring_ok k y \<and>
         (\<exists>new. posts y = posts q @ new \<and>
            (if tr = 0 then new = [] else tso_pattern skb start new))"
        using new(1) pq tr by auto
    qed
  qed
  then show ?thesis using ok by simp
qed

lemma ring_frame_refl: "ring_frame q q"
  by (simp add: ring_frame_def)

lemma ring_frame_trans: "ring_frame q q1 \<Longrightarrow> ring_frame q1 q2 \<Longrightarrow> ring_frame q q2"
  by (simp add: ring_frame_def)

lemma ring_frame_ok: "ring_frame q q' \<Longrightarrow> ring_ok k q \<Longrightarrow> ring_ok k q'"
  by (simp add: ring_frame_def ring_ok_def)

lemma map_frag_frame: "ring_frame q (snd (ionic_tx_map_frag env q n))"
  by (simp add: ionic_tx_map_frag_def Let_def ring_frame_def log_event_def)

lemma map_single_frame: "ring_frame q (snd (ionic_tx_map_single env q n))"
  by (simp add: ionic_tx_map_single_def Let_def ring_frame_def log_event_def)

lemma map_frag_bufs: "info (snd (ionic_tx_map_frag env q n)) = info q"
  by (simp add: ionic_tx_map_frag_def Let_def log_event_def)

lemma map_single_bufs: "info (snd (ionic_tx_map_single env q n)) = info q"
  by (simp add: ionic_tx_map_single_def Let_def log_event_def)

lemma set_buf_frame: "ring_frame q (set_buf q di bj b)"
  by (cases "di < length (info q)")
     (auto simp: ring_frame_def set_buf_def nth_list_update list_update_beyond)

lemma tx_map_unwind_frame: "ring_frame q (snd (tx_map_unwind di fi bi q))"
proof (induction fi arbitrary: bi q)
  case 0
  show ?case by (simp add: ring_frame_refl)
next
  case (Suc fi)
  have "ring_frame q (log_event e q)" for e by (simp add: ring_frame_def log_event_def)
  then show ?case using Suc by (auto intro: ring_frame_trans)
qed

lemma tx_map_frags_frame:
  "ring_frame q (snd (snd (snd (tx_map_frags env di szs fi bi q))))"
proof (induction szs arbitrary: fi bi q)
  case Nil
  show ?case by (simp add: ring_frame_refl)
next
  case (Cons sz szs)
  obtain a q1 where m: "ionic_tx_map_frag env q sz = (a, q1)" by (cases "ionic_tx_map_frag env q sz")
  have f1: "ring_frame q q1" using map_frag_frame[of q env sz] m by simp
  show ?case
  proof (cases "dma_mapping_error a")
    case True
    then show ?thesis using m f1 by (simp add: ring_frame_def)
  next
    case False
    let ?q2 = "set_buf q1 di bi ((get_buf q1 di bi)\<lparr>dma_addr := a, len := sz\<rparr>)"
    have "ring_frame q ?q2" using f1 set_buf_frame ring_frame_trans by blast
    then show ?thesis using m False Cons.IH[where fi="fi + 1" and bi="bi + 1" and q="?q2"]
      by (auto intro: ring_frame_trans)
  qed
qed

lemma tx_map_skb_frame: "ring_frame q (snd (ionic_tx_map_skb env q skb di))"
proof -
  obtain a q1 where m: "ionic_tx_map_single env q (skb_headlen skb) = (a, q1)"
    by (cases "ionic_tx_map_single env q (skb_headlen skb)")
  have f1: "ring_frame q q1" using map_single_frame[of q env "skb_headlen skb"] m by simp
  show ?thesis
  proof (cases "dma_mapping_error a")
    case True
    then show ?thesis using m f1 by (simp add: ionic_tx_map_skb_def ring_frame_def)
  next
    case False
    let ?q2 = "set_buf q1 di 0 ((get_buf q1 di 0)\<lparr>dma_addr := a, len := skb_headlen skb\<rparr>)"
    have f2: "ring_frame q ?q2" using f1 set_buf_frame ring_frame_trans by blast
    obtain ok fi bi q3 where r: "tx_map_frags env di (skb_frags skb) 0 1 ?q2 = (ok, fi, bi, q3)"
      by (cases "tx_map_frags env di (skb_frags skb) 0 1 ?q2") auto
    have f3: "ring_frame q q3"
      using tx_map_frags_frame[where q="?q2" and env=env and di=di and szs="skb_frags skb" and fi=0 and bi=1] r f2
      by (auto intro: ring_frame_trans)
    have f4: "ring_frame q (snd (tx_map_unwind di fi bi q3))"
      using f3 tx_map_unwind_frame ring_frame_trans by blast
    have f5: "ring_frame q3 (q3\<lparr>info := (info q3)[di := (info q3 ! di)
                                       \<lparr>nbufs := 1 + length (skb_frags skb)\<rparr>]\<rparr>)"
      by (cases "di < length (info q3)")
         (auto simp: ring_frame_def nth_list_update list_update_beyond)
    have f6: "ring_frame q (log_event e (snd (tx_map_unwind di fi bi q3)))" for e
      using f4 by (simp add: ring_frame_def log_event_def)
    show ?thesis using m False r ring_frame_trans[OF f3 f5] f6
      by (simp add: ionic_tx_map_skb_def Let_def)
  qed
qed

lemma tx_tso_posts:
  assumes "ionic_tx_tso env q skb = Some (0, q')" and "ring_ok k q" and "0 < skb_len skb"
  shows "ring_ok k q' \<and> (\<exists>new. posts q' = posts q @ new \<and> tso_pattern skb True new)"
proof -
  let ?di = "head_idx q"
  obtain merr q1 where m: "ionic_tx_map_skb env q skb ?di = (merr, q1)"
    by (cases "ionic_tx_map_skb env q skb ?di")
  have f1: "ring_frame q q1" using tx_map_skb_frame[of q env skb ?di] m by simp
  have merr0: "merr = 0" using assms(1) m by (auto simp: ionic_tx_tso_def Let_def split: if_splits)
  let ?q2 = "q1\<lparr>kcalls := kcalls q1 + 1\<rparr>"
  have f2: "ring_frame q ?q2" using f1 by (simp add: ring_frame_def)
  have cow: "skb_cow_head env (kcalls q1) = 0"
    using assms(1) m merr0 by (auto simp: ionic_tx_tso_def Let_def split: if_splits)
  let ?hdrlen = "(if encapsulation skb
                             then u32 (inner_transport_offset skb + inner_tcp_hdrlen skb)
                             else u32 (transport_offset skb + tcp_hdrlen skb))"
  let ?st = "(bufs (info ?q2 ! ?di), 0, 0, skb_len skb,
               min (skb_len skb) (u32 (?hdrlen + gso_size skb)), True, ?q2)"
  obtain q3 where l: "tso_loop env skb ?hdrlen (gso_size skb) ?st = Some q3"
    and q': "q' = q3\<lparr>tx_pkts := u64 (tx_pkts q3
                                       + DIV_ROUND_UP (u32_sub (skb_len skb) ?hdrlen) (gso_size skb)),
                                    tx_bytes := u64 (tx_bytes q3 + skb_len skb),
                                    tx_tso := u64 (tx_tso q3 + 1),
                                    tx_tso_bytes := skb_len skb\<rparr>"
    using assms(1) m merr0 cow
    by (auto simp: ionic_tx_tso_def Let_def split: if_splits option.splits)
  have ok2: "ring_ok k ?q2" using ring_frame_ok[OF f2 assms(2)] .
  from tso_loop_posts[OF l ok2] assms(3)
  obtain new where n: "ring_ok k q3" "posts q3 = posts ?q2 @ new" "tso_pattern skb True new"
    by auto
  have "posts ?q2 = posts q" using f2 by (simp add: ring_frame_def)
  then show ?thesis using n unfolding q' by (simp add: ring_ok_def)
qed

lemma seg_loop_bytes:
  assumes "tso_seg_loop bs fa fr tr sr d = Some (bs1, fa1, fr1, tr1, d1)"
    and "sr \<le> tr" and "sr < 65536"
    and "case d of None \<Rightarrow> length bs < 256
         | Some (a, l, n, es) \<Rightarrow> n = length es \<and> (0 < sr \<longrightarrow> fr = 0) \<and>
                                  length es + length bs < 256"
  shows "tr1 = tr - sr \<and> length bs1 \<le> length bs \<and>
         (case d1 of None \<Rightarrow> d = None \<and> sr = 0
          | Some (a1, l1, n1, es1) \<Rightarrow> n1 = length es1 \<and>
              l1 + sum_list (map snd es1) =
                (case d of None \<Rightarrow> 0 | Some (a, l, n, es) \<Rightarrow> l + sum_list (map snd es)) + sr)"
  using assms
proof (induction bs fa fr tr sr d rule: tso_seg_loop.induct)
  case (1 bs fa fr tr sr d)
  show ?case
  proof (cases "0 < sr")
    case False
    then have "tso_seg_loop bs fa fr tr sr d = Some (bs, fa, fr, tr, d)"
      by (subst tso_seg_loop.simps) simp
    with "1.prems"(1) have e: "bs1 = bs" "tr1 = tr" "d1 = d" by simp_all
    show ?thesis using e False "1.prems"(4) by (auto split: option.splits)
  next
    case True
    have ne: "\<not> (fr = 0 \<and> bs = [])"
    proof
      assume "fr = 0 \<and> bs = []"
      then have "tso_seg_loop bs fa fr tr sr d = None"
        using True by (subst tso_seg_loop.simps) simp
      with "1.prems"(1) show False by simp
    qed
    define x where "x = (if fr = 0 then tl bs else bs)"
    define xa where "xa = (if fr = 0 then dma_addr (hd bs) else fa)"
    define xb where "xb = (if fr = 0 then len (hd bs) else fr)"
    define xc where "xc = min xb sr"
    define xd where "xd = (case d of None \<Rightarrow> Some (xa, u16 xc, 0, [])
          | Some (a, l, n, es) \<Rightarrow> Some (a, l, (n + 1) mod 256, es @ [(xa, u16 xc)]))"
    have step: "tso_seg_loop bs fa fr tr sr d =
                  tso_seg_loop x (u64 (xa + xc)) (xb - xc) (tr - xc) (sr - xc) xd"
      unfolding x_def xa_def xb_def xc_def xd_def
      using True ne
      by (subst (1) tso_seg_loop.simps) (auto simp: Let_def)
    have run': "tso_seg_loop x (u64 (xa + xc)) (xb - xc) (tr - xc) (sr - xc) xd =
                  Some (bs1, fa1, fr1, tr1, d1)"
      using step "1.prems"(1) by simp
    have c1: "xc \<le> sr" "xc \<le> xb" unfolding xc_def by simp_all
    have u: "u16 xc = xc" using c1(1) "1.prems"(3) by (simp add: u16_def)
    have lx: "length x \<le> length bs" by (simp add: x_def)
    have ex: "0 < sr - xc \<longrightarrow> xb - xc = 0" unfolding xc_def by (auto simp: min_def)
    have p1: "sr - xc \<le> tr - xc" using "1.prems"(2) by simp
    have p2: "sr - xc < 65536" using "1.prems"(3) by simp
    have inv: "case xd of None \<Rightarrow> length x < 256
         | Some (a, l, n, es) \<Rightarrow> n = length es \<and> (0 < sr - xc \<longrightarrow> xb - xc = 0) \<and>
                                  length es + length x < 256"
      and by': "(case xd of None \<Rightarrow> 0 | Some (a, l, n, es) \<Rightarrow> l + sum_list (map snd es)) =
               (case d of None \<Rightarrow> 0 | Some (a, l, n, es) \<Rightarrow> l + sum_list (map snd es)) + xc"
      and xdn: "xd \<noteq> None"
    proof -
      show "xd \<noteq> None" unfolding xd_def by (auto split: option.split)
      show "case xd of None \<Rightarrow> length x < 256
         | Some (a, l, n, es) \<Rightarrow> n = length es \<and> (0 < sr - xc \<longrightarrow> xb - xc = 0) \<and>
                                  length es + length x < 256"
      proof (cases d)
        case None
        then show ?thesis using "1.prems"(4) lx ex by (simp add: xd_def)
      next
        case (Some t)
        obtain a l n es where t: "t = (a, l, n, es)" by (cases t) auto
        have i: "n = length es" "fr = 0" "length es + length bs < 256"
          using "1.prems"(4) Some t True by simp_all
        have bne: "bs \<noteq> []" using ne i(2) by simp
        then obtain b0 bs0 where bs: "bs = b0 # bs0" by (cases bs) auto
        have lt: "length x = length bs - 1" using i(2) bs by (simp add: x_def)
        have "length es + 1 < 256" using i(3) bs by simp
        then have "(n + 1) mod 256 = length es + 1" using i(1) by simp
        then show ?thesis using Some t i lt ex by (simp add: xd_def)
      qed
      show "(case xd of None \<Rightarrow> 0 | Some (a, l, n, es) \<Rightarrow> l + sum_list (map snd es)) =
               (case d of None \<Rightarrow> 0 | Some (a, l, n, es) \<Rightarrow> l + sum_list (map snd es)) + xc"
        using u by (auto simp: xd_def split: option.split)
    qed
    from "1.IH"[OF True ne x_def xa_def xb_def xc_def xd_def run' p1 p2 inv]
    have r: "tr1 = tr - xc - (sr - xc)" "length bs1 \<le> length x"
      "case d1 of None \<Rightarrow> xd = None \<and> sr - xc = 0
          | Some (a1, l1, n1, es1) \<Rightarrow> n1 = length es1 \<and>
              l1 + sum_list (map snd es1) =
                (case xd of None \<Rightarrow> 0 | Some (a, l, n, es) \<Rightarrow> l + sum_list (map snd es)) +
                (sr - xc)"
      by simp_all
    have e1: "tr1 = tr - sr" using r(1) c1 "1.prems"(2) by simp
    have e2: "length bs1 \<le> length bs" using r(2) lx by simp
    have e3: "case d1 of None \<Rightarrow> d = None \<and> sr = 0
          | Some (a1, l1, n1, es1) \<Rightarrow> n1 = length es1 \<and>
              l1 + sum_list (map snd es1) =
                (case d of None \<Rightarrow> 0 | Some (a, l, n, es) \<Rightarrow> l + sum_list (map snd es)) + sr"
    proof (cases d1)
      case None
      then show ?thesis using r(3) xdn by simp
    next
      case (Some t)
      obtain a1 l1 n1 es1 where t: "t = (a1, l1, n1, es1)" by (cases t) auto
      have "n1 = length es1" "l1 + sum_list (map snd es1) =
                (case xd of None \<Rightarrow> 0 | Some (a, l, n, es) \<Rightarrow> l + sum_list (map snd es)) +
                (sr - xc)"
        using r(3) Some t by simp_all
      then show ?thesis using Some t by' c1(1) by simp
    qed
    show ?thesis using e1 e2 e3 by simp
  qed
qed

lemma tso_loop_bytes:
  assumes run: "tso_loop env skb hdrlen mss (bs, fa, fr, tr, sr, start, q) = Some q'"
    and mss: "0 < mss" "mss < 65536"
    and pre: "ring_ok k q" "sr \<le> tr" "sr < 65536" "0 < tr \<longrightarrow> 0 < sr" "length bs < 256"
  shows "\<exists>new. posts q' = posts q @ new \<and>
           map posted_bytes new = (if tr = 0 then [] else sr # tso_rest (tr - sr) mss)"
proof -
  let ?P = "\<lambda>st y. case st of (bs, fa, fr, tr, sr, start, q) \<Rightarrow>
      ring_ok k q \<and> sr \<le> tr \<and> sr < 65536 \<and> (0 < tr \<longrightarrow> 0 < sr) \<and> length bs < 256 \<longrightarrow>
         (\<exists>new. posts y = posts q @ new \<and>
            map posted_bytes new = (if tr = 0 then [] else sr # tso_rest (tr - sr) mss))"
  have "?P (bs, fa, fr, tr, sr, start, q) q'"
  proof (rule tso_loop_rule[where P = ?P, OF run])
    fix bs fa fr sr start q
    show "?P (bs, fa, fr, 0, sr, start, q) q" by simp
  next
    fix bs fa fr and tr :: nat and sr start q bs1 fa1 fr1 and tr1 :: nat and da dl dn es y
    let ?q2 = "(let q1 = ionic_tx_tso_post env (tso_write_elems q es) skb da dn dl hdrlen mss
                       (gso_outer_csum skb) (vlan_tag skb) (vlan_tag_present skb) start
                       (tr1 = 0)
            in q1\<lparr>info := (info q1)[head_idx q1 := (info q1 ! head_idx q1)\<lparr>nbufs := 0\<rparr>]\<rparr>)"
    assume tr: "0 < tr"
      and seg: "tso_seg_loop bs fa fr tr sr None = Some (bs1, fa1, fr1, tr1, Some (da, dl, dn, es))"
      and ih: "?P (bs1, fa1, fr1, tr1, min tr1 mss, False, ?q2) y"
    show "?P (bs, fa, fr, tr, sr, start, q) y"
    proof (simp only: prod.case, intro impI)
      assume a: "ring_ok k q \<and> sr \<le> tr \<and> sr < 65536 \<and> (0 < tr \<longrightarrow> 0 < sr) \<and> length bs < 256"
      then have okq: "ring_ok k q" and sl: "sr \<le> tr" "sr < 65536" and lb: "length bs < 256"
        by simp_all
      have inv: "case None :: (nat \<times> nat \<times> nat \<times> (nat \<times> nat) list) option of
                   None \<Rightarrow> length bs < 256
                 | Some (a, l, n, es) \<Rightarrow> n = length es \<and> (0 < sr \<longrightarrow> fr = 0) \<and>
                                  length es + length bs < 256"
        using lb by simp
      from seg_loop_bytes[OF seg sl inv]
      have sb: "tr1 = tr - sr" "length bs1 \<le> length bs" "dn = length es"
        "dl + sum_list (map snd es) = sr"
        by simp_all
      note stp = tso_step_posted[OF okq, of env es skb da dn dl hdrlen mss "gso_outer_csum skb"
          "vlan_tag skb" "vlan_tag_present skb" start "tr1 = 0"]
      from stp(2) obtain p where p: "posts ?q2 = posts q @ [p]"
        "d_len (p_desc p) = dl" "d_nsge (p_desc p) = dn" "take (length es) (p_sg p) = es"
        by (auto simp: Let_def)
      have ok2: "ring_ok k ?q2" using stp(1) by (simp add: Let_def)
      have pb: "posted_bytes p = sr" using p(2,3,4) sb(3,4) by (simp add: posted_bytes_def)
      have c: "min tr1 mss \<le> tr1" "min tr1 mss < 65536" "0 < tr1 \<longrightarrow> 0 < min tr1 mss"
        "length bs1 < 256"
        using mss sb(2) lb by simp_all
      from ih ok2 c
      obtain new where new: "posts y = posts ?q2 @ new"
        "map posted_bytes new =
           (if tr1 = 0 then [] else min tr1 mss # tso_rest (tr1 - min tr1 mss) mss)"
        by (auto cong: if_cong)
      have rest: "map posted_bytes new = tso_rest tr1 mss"
      proof (cases "tr1 = 0")
        case True
        then show ?thesis using new(2) by (simp add: tso_rest_0)
      next
        case False
        then show ?thesis using new(2) tso_rest_step[OF mss(1), of tr1] by simp
      qed
      have pq: "posts y = posts q @ (p # new)" using new(1) p(1) by simp
      have "map posted_bytes (p # new) = sr # tso_rest (tr - sr) mss"
        using pb rest sb(1) by simp
      then show "\<exists>new. posts y = posts q @ new \<and>
            map posted_bytes new = (if tr = 0 then [] else sr # tso_rest (tr - sr) mss)"
        using pq tr by (intro exI[of _ "p # new"]) simp
    qed
  qed
  then show ?thesis using pre by simp
qed

lemma tx_tso_bytes:
  assumes "ionic_tx_tso env q skb = Some (0, q')" and "ring_ok k q" and "0 < skb_len skb"
    and "0 < gso_size skb"
    and "tso_hdrlen skb + gso_size skb < 65536"
    and "length (bufs (info q ! head_idx q)) < 256"
  shows "\<exists>new. posts q' = posts q @ new \<and>
           map posted_bytes new =
             tso_seg_sizes (skb_len skb) (tso_hdrlen skb + gso_size skb) (gso_size skb)"
proof -
  let ?di = "head_idx q"
  obtain merr q1 where m: "ionic_tx_map_skb env q skb ?di = (merr, q1)"
    by (cases "ionic_tx_map_skb env q skb ?di")
  have f1: "ring_frame q q1" using tx_map_skb_frame[of q env skb ?di] m by simp
  have merr0: "merr = 0" using assms(1) m by (auto simp: ionic_tx_tso_def Let_def split: if_splits)
  let ?q2 = "q1\<lparr>kcalls := kcalls q1 + 1\<rparr>"
  have f2: "ring_frame q ?q2" using f1 by (simp add: ring_frame_def)
  have cow: "skb_cow_head env (kcalls q1) = 0"
    using assms(1) m merr0 by (auto simp: ionic_tx_tso_def Let_def split: if_splits)
  let ?hdrlen = "(if encapsulation skb
                             then u32 (inner_transport_offset skb + inner_tcp_hdrlen skb)
                             else u32 (transport_offset skb + tcp_hdrlen skb))"
  let ?st = "(bufs (info ?q2 ! ?di), 0, 0, skb_len skb,
               min (skb_len skb) (u32 (?hdrlen + gso_size skb)), True, ?q2)"
  obtain q3 where l: "tso_loop env skb ?hdrlen (gso_size skb) ?st = Some q3"
    and q': "q' = q3\<lparr>tx_pkts := u64 (tx_pkts q3
                                       + DIV_ROUND_UP (u32_sub (skb_len skb) ?hdrlen) (gso_size skb)),
                                    tx_bytes := u64 (tx_bytes q3 + skb_len skb),
                                    tx_tso := u64 (tx_tso q3 + 1),
                                    tx_tso_bytes := skb_len skb\<rparr>"
    using assms(1) m merr0 cow
    by (auto simp: ionic_tx_tso_def Let_def split: if_splits option.splits)
  have ok2: "ring_ok k ?q2" using ring_frame_ok[OF f2 assms(2)] .
  have dl: "?di < length (info q)" using assms(2) by (simp add: ring_ok_def)
  have lb: "length (bufs (info ?q2 ! ?di)) < 256"
    using f2 dl assms(6) by (simp add: ring_frame_def)
  have hu: "?hdrlen = tso_hdrlen skb" using assms(5)
    by (cases "encapsulation skb") (simp_all add: tso_hdrlen_def u32_def)
  have su: "u32 (?hdrlen + gso_size skb) = tso_hdrlen skb + gso_size skb"
    unfolding hu using assms(5) by (simp add: u32_def)
  let ?sr = "min (skb_len skb) (tso_hdrlen skb + gso_size skb)"
  have l': "tso_loop env skb ?hdrlen (gso_size skb)
      (bufs (info ?q2 ! ?di), 0, 0, skb_len skb, ?sr, True, ?q2) = Some q3"
    using l unfolding su .
  have ms: "gso_size skb < 65536" using assms(5) by simp
  have c: "?sr \<le> skb_len skb" "?sr < 65536" "0 < skb_len skb \<longrightarrow> 0 < ?sr"
    using assms(3,4,5) by simp_all
  from tso_loop_bytes[OF l' assms(4) ms ok2 c lb]
  obtain new where n: "posts q3 = posts ?q2 @ new"
    "map posted_bytes new = ?sr # tso_rest (skb_len skb - ?sr) (gso_size skb)"
    using assms(3) by auto
  have "posts ?q2 = posts q" using f2 by (simp add: ring_frame_def)
  then show ?thesis using n unfolding q' by (simp add: tso_seg_sizes_def)
qed

lemma seg_loop_total:
  assumes "sr \<le> tr" "sr \<le> fr + sum_list (map len bs)"
  shows "\<exists>bs' fa' fr' d'. tso_seg_loop bs fa fr tr sr d = Some (bs', fa', fr', tr - sr, d') \<and>
           fr' + sum_list (map len bs') + sr = fr + sum_list (map len bs) \<and>
           (0 < sr \<or> d \<noteq> None \<longrightarrow> d' \<noteq> None)"
  using assms
proof (induction bs fa fr tr sr d rule: tso_seg_loop.induct)
  case (1 bs fa fr tr sr d)
  show ?case
  proof (cases "0 < sr")
    case False
    then show ?thesis by (subst tso_seg_loop.simps) simp
  next
    case True
    have ne: "\<not> (fr = 0 \<and> bs = [])" using True "1.prems"(2) by auto
    define x where "x = (if fr = 0 then tl bs else bs)"
    define xa where "xa = (if fr = 0 then dma_addr (hd bs) else fa)"
    define xb where "xb = (if fr = 0 then len (hd bs) else fr)"
    define xc where "xc = min xb sr"
    define xd where "xd = (case d of None \<Rightarrow> Some (xa, u16 xc, 0, [])
          | Some (a, l, n, es) \<Rightarrow> Some (a, l, (n + 1) mod 256, es @ [(xa, u16 xc)]))"
    have xdn: "xd \<noteq> None" unfolding xd_def by (auto split: option.split)
    have total: "xb + sum_list (map len x) = fr + sum_list (map len bs)"
    proof (cases "fr = 0")
      case T: True
      then obtain b bs' where "bs = b # bs'" using ne by (cases bs) auto
      then show ?thesis using T by (simp add: x_def xb_def)
    next
      case False
      then show ?thesis by (simp add: x_def xb_def)
    qed
    have c1: "xc \<le> sr" "xc \<le> xb" unfolding xc_def by simp_all
    have p1: "sr - xc \<le> tr - xc" using "1.prems"(1) by simp
    have p2: "sr - xc \<le> (xb - xc) + sum_list (map len x)"
      using "1.prems"(2) total c1 by linarith
    from "1.IH"[OF True ne x_def xa_def xb_def xc_def xd_def p1 p2]
    obtain bs' fa' fr' d' where r:
      "tso_seg_loop x (u64 (xa + xc)) (xb - xc) (tr - xc) (sr - xc) xd =
         Some (bs', fa', fr', tr - xc - (sr - xc), d')"
      "fr' + sum_list (map len bs') + (sr - xc) = (xb - xc) + sum_list (map len x)"
      "d' \<noteq> None"
      using xdn by blast
    have step: "tso_seg_loop bs fa fr tr sr d =
                  tso_seg_loop x (u64 (xa + xc)) (xb - xc) (tr - xc) (sr - xc) xd"
      unfolding x_def xa_def xb_def xc_def xd_def
      using True ne
      by (subst (1) tso_seg_loop.simps) (auto simp: Let_def)
    have e1: "tr - xc - (sr - xc) = tr - sr" using c1 "1.prems"(1) by simp
    have e2: "fr' + sum_list (map len bs') + sr = fr + sum_list (map len bs)"
      using r(2) total c1 by linarith
    show ?thesis using step r(1) r(3) e1 e2 by simp
  qed
qed

lemma tso_loop_total:
  assumes "0 < mss" and "ring_ok k q" and "tr \<le> fr + sum_list (map len bs)"
    and "sr \<le> tr" and "0 < tr \<longrightarrow> 0 < sr"
  shows "\<exists>q'. tso_loop env skb hdrlen mss (bs, fa, fr, tr, sr, start, q) = Some q'"
  using assms
proof (induction tr arbitrary: bs fa fr sr start q rule: less_induct)
  case (less tr)
  show ?case
  proof (cases "0 < tr")
    case False
    then show ?thesis by (subst tso_loop.simps) simp
  next
    case True
    then have sr0: "0 < sr" using less.prems(5) by simp
    have b: "sr \<le> fr + sum_list (map len bs)" using less.prems(3,4) by simp
    from seg_loop_total[OF less.prems(4) b, of fa None] sr0
    obtain bs1 fa1 fr1 da dl dn es where seg:
      "tso_seg_loop bs fa fr tr sr None = Some (bs1, fa1, fr1, tr - sr, Some (da, dl, dn, es))"
      "fr1 + sum_list (map len bs1) + sr = fr + sum_list (map len bs)"
      by auto
    let ?tr1 = "tr - sr"
    let ?q1 = "ionic_tx_tso_post env (tso_write_elems q es) skb da dn dl hdrlen mss
                   (gso_outer_csum skb)
                   (vlan_tag skb) (vlan_tag_present skb) start (?tr1 = 0)"
    let ?q2 = "?q1\<lparr>info := (info ?q1)[head_idx ?q1 := (info ?q1 ! head_idx ?q1)\<lparr>nbufs := 0\<rparr>]\<rparr>"
    have ok2: "ring_ok k ?q2"
      using tso_step_posted(1)[OF less.prems(2)] .
    have lt: "?tr1 < tr" using True sr0 by simp
    have c3: "?tr1 \<le> fr1 + sum_list (map len bs1)" using seg(2) less.prems(3) by linarith
    have c4: "min ?tr1 mss \<le> ?tr1" by simp
    have c5: "0 < ?tr1 \<longrightarrow> 0 < min ?tr1 mss" using less.prems(1) by simp
    from less.IH[OF lt less.prems(1) ok2 c3 c4 c5, of fa1 False]
    obtain q' where "tso_loop env skb hdrlen mss (bs1, fa1, fr1, ?tr1, min ?tr1 mss, False, ?q2) = Some q'"
      by blast
    then show ?thesis using True seg(1)
      by (subst tso_loop.simps) (simp add: Let_def)
  qed
qed

lemma sum_list_prefix_le:
  fixes f :: "'a \<Rightarrow> nat"
  assumes "length ys \<le> length xs" "\<forall>j < length ys. f (xs ! j) = ys ! j"
  shows "sum_list ys \<le> sum_list (map f xs)"
proof -
  have "map f (take (length ys) xs) = ys"
    using assms by (intro nth_equalityI) simp_all
  moreover have "sum_list (map f xs) =
      sum_list (map f (take (length ys) xs)) + sum_list (map f (drop (length ys) xs))"
    by (metis append_take_drop_id map_append sum_list_append)
  ultimately show ?thesis by simp
qed

lemma tx_map_frags_ok:
  assumes "maps_succeed env" "di < length (info q)"
    and "bi + length szs \<le> length (bufs (info q ! di))"
  shows "fst (tx_map_frags env di szs fi bi q) \<and>
         length (bufs (info (snd (snd (snd (tx_map_frags env di szs fi bi q)))) ! di)) =
           length (bufs (info q ! di)) \<and>
         (\<forall>j < length szs.
            len (get_buf (snd (snd (snd (tx_map_frags env di szs fi bi q)))) di (bi + j)) = szs ! j) \<and>
         (\<forall>j < bi. get_buf (snd (snd (snd (tx_map_frags env di szs fi bi q)))) di j = get_buf q di j)"
  using assms
proof (induction szs arbitrary: fi bi q)
  case Nil
  show ?case by simp
next
  case (Cons sz szs)
  obtain a q1 where m: "ionic_tx_map_frag env q sz = (a, q1)" by (cases "ionic_tx_map_frag env q sz")
  have na: "\<not> dma_mapping_error a"
    using Cons.prems(1) m by (auto simp: maps_succeed_def ionic_tx_map_frag_def Let_def)
  have i1: "info q1 = info q" using map_frag_bufs[of env q sz] m by simp
  let ?q2 = "set_buf q1 di bi ((get_buf q1 di bi)\<lparr>dma_addr := a, len := sz\<rparr>)"
  have bl: "bi < length (bufs (info q1 ! di))" "di < length (info q1)"
    using Cons.prems(2,3) i1 by simp_all
  have l2: "di < length (info ?q2)" "length (bufs (info ?q2 ! di)) = length (bufs (info q ! di))"
    using bl i1 by (simp_all add: set_buf_def)
  have b2: "(bi + 1) + length szs \<le> length (bufs (info ?q2 ! di))"
    using Cons.prems(3) l2 by simp
  note IH = Cons.IH[OF Cons.prems(1) l2(1) b2, where fi="fi + 1"]
  have step: "tx_map_frags env di (sz # szs) fi bi q = tx_map_frags env di szs (fi + 1) (bi + 1) ?q2"
    using m na by simp
  have g_bi: "get_buf ?q2 di bi = (get_buf q1 di bi)\<lparr>dma_addr := a, len := sz\<rparr>"
    using bl by (simp add: get_set_buf(1))
  have g_q1: "get_buf q1 di j = get_buf q di j" for j
    using i1 by (simp add: get_buf_def)
  have g_o: "j \<noteq> bi \<Longrightarrow> get_buf ?q2 di j = get_buf q di j" for j
    using get_set_buf(2)[of j bi q1 di] g_q1 by simp
  let ?r = "snd (snd (snd (tx_map_frags env di szs (fi + 1) (bi + 1) ?q2)))"
  have A: "\<forall>j < length (sz # szs). len (get_buf ?r di (bi + j)) = (sz # szs) ! j"
  proof (intro allI impI)
    fix j assume j: "j < length (sz # szs)"
    show "len (get_buf ?r di (bi + j)) = (sz # szs) ! j"
    proof (cases j)
      case 0
      have "get_buf ?r di bi = get_buf ?q2 di bi" using IH by simp
      then show ?thesis using 0 g_bi by simp
    next
      case (Suc j')
      then have "j' < length szs" using j by simp
      then have "len (get_buf ?r di ((bi + 1) + j')) = szs ! j'" using IH by blast
      then show ?thesis using Suc by simp
    qed
  qed
  have B: "\<forall>j < bi. get_buf ?r di j = get_buf q di j"
  proof (intro allI impI)
    fix j assume j: "j < bi"
    then have "get_buf ?r di j = get_buf ?q2 di j" using IH by simp
    then show "get_buf ?r di j = get_buf q di j" using g_o[of j] j by simp
  qed
  show ?case unfolding step using IH l2(2) A B by simp
qed

lemma tx_map_skb_ok:
  assumes "maps_succeed env" "di < length (info q)"
    and "1 + length (skb_frags skb) \<le> length (bufs (info q ! di))"
  shows "fst (ionic_tx_map_skb env q skb di) = 0 \<and>
         skb_headlen skb + sum_list (skb_frags skb)
           \<le> sum_list (map len (bufs (info (snd (ionic_tx_map_skb env q skb di)) ! di)))"
proof -
  obtain a q1 where m: "ionic_tx_map_single env q (skb_headlen skb) = (a, q1)"
    by (cases "ionic_tx_map_single env q (skb_headlen skb)")
  have na: "\<not> dma_mapping_error a"
    using assms(1) m by (auto simp: maps_succeed_def ionic_tx_map_single_def Let_def)
  have i1: "info q1 = info q" using map_single_bufs[of env q "skb_headlen skb"] m by simp
  let ?q2 = "set_buf q1 di 0 ((get_buf q1 di 0)\<lparr>dma_addr := a, len := skb_headlen skb\<rparr>)"
  have bl: "0 < length (bufs (info q1 ! di))" "di < length (info q1)"
    using assms(2,3) i1 by auto
  have l2: "di < length (info ?q2)" "length (bufs (info ?q2 ! di)) = length (bufs (info q ! di))"
    using bl i1 by (simp_all add: set_buf_def)
  have b2: "1 + length (skb_frags skb) \<le> length (bufs (info ?q2 ! di))"
    using assms(3) l2 by simp
  have g0: "get_buf ?q2 di 0 = (get_buf q1 di 0)\<lparr>dma_addr := a, len := skb_headlen skb\<rparr>"
    using bl by (simp add: get_set_buf(1))
  obtain ok fi bi q3 where r: "tx_map_frags env di (skb_frags skb) 0 1 ?q2 = (ok, fi, bi, q3)"
    by (cases "tx_map_frags env di (skb_frags skb) 0 1 ?q2") auto
  from tx_map_frags_ok[OF assms(1) l2(1) b2, where fi=0] r
  have ok: "ok" and l3: "length (bufs (info q3 ! di)) = length (bufs (info ?q2 ! di))"
    and fr: "\<forall>j < length (skb_frags skb). len (get_buf q3 di (1 + j)) = skb_frags skb ! j"
    and hd: "get_buf q3 di 0 = get_buf ?q2 di 0"
    by simp_all
  have f3: "ring_frame ?q2 q3"
    using tx_map_frags_frame[where q="?q2" and env=env and di=di and szs="skb_frags skb"
        and fi=0 and bi=1] r by simp
  have dl3: "di < length (info q3)" using f3 l2(1) by (simp add: ring_frame_def)
  let ?q4 = "q3\<lparr>info := (info q3)[di := (info q3 ! di)\<lparr>nbufs := 1 + length (skb_frags skb)\<rparr>]\<rparr>"
  have res: "ionic_tx_map_skb env q skb di = (0, ?q4)"
    using m na r ok by (simp add: ionic_tx_map_skb_def Let_def)
  have bq4: "bufs (info ?q4 ! di) = bufs (info q3 ! di)" using dl3 by simp
  let ?ys = "skb_headlen skb # skb_frags skb"
  have len_ok: "length ?ys \<le> length (bufs (info q3 ! di))" using l3 b2 by simp
  have pt: "\<forall>j < length ?ys. len (bufs (info q3 ! di) ! j) = ?ys ! j"
  proof (intro allI impI)
    fix j assume j: "j < length ?ys"
    show "len (bufs (info q3 ! di) ! j) = ?ys ! j"
    proof (cases j)
      case 0
      then show ?thesis using hd g0 by (simp add: get_buf_def)
    next
      case (Suc j')
      then have "j' < length (skb_frags skb)" using j by simp
      then have "len (get_buf q3 di (1 + j')) = skb_frags skb ! j'" using fr by blast
      then show ?thesis using Suc by (simp add: get_buf_def)
    qed
  qed
  have "sum_list ?ys \<le> sum_list (map len (bufs (info q3 ! di)))"
    using sum_list_prefix_le[OF len_ok pt] .
  then show ?thesis unfolding res using bq4 by simp
qed

lemma tx_tso_total:
  assumes "ring_ok k q" "0 < skb_len skb" "0 < gso_size skb" "tso_inputs_ok env q skb"
  shows "\<exists>q'. ionic_tx_tso env q skb = Some (0, q')"
proof -
  let ?di = "head_idx q"
  have ms: "maps_succeed env" and cow: "\<And>n. skb_cow_head env n = 0"
    and bl: "1 + length (skb_frags skb) \<le> length (bufs (info q ! ?di))"
    and cover: "skb_len skb \<le> skb_headlen skb + sum_list (skb_frags skb)"
    and hl: "tso_hdrlen skb + gso_size skb < 2 ^ 32"
    using assms(4) by (simp_all add: tso_inputs_ok_def)
  have dl: "?di < length (info q)" using assms(1) by (simp add: ring_ok_def)
  obtain merr q1 where m: "ionic_tx_map_skb env q skb ?di = (merr, q1)"
    by (cases "ionic_tx_map_skb env q skb ?di")
  from tx_map_skb_ok[OF ms dl bl] m
  have merr0: "merr = 0"
    and sum: "skb_headlen skb + sum_list (skb_frags skb) \<le> sum_list (map len (bufs (info q1 ! ?di)))"
    by simp_all
  have f1: "ring_frame q q1" using tx_map_skb_frame[of q env skb ?di] m by simp
  let ?q2 = "q1\<lparr>kcalls := kcalls q1 + 1\<rparr>"
  have f2: "ring_frame q ?q2" using f1 by (simp add: ring_frame_def)
  have ok2: "ring_ok k ?q2" using ring_frame_ok[OF f2 assms(1)] .
  let ?hdrlen = "(if encapsulation skb
                             then u32 (inner_transport_offset skb + inner_tcp_hdrlen skb)
                             else u32 (transport_offset skb + tcp_hdrlen skb))"
  have hu: "?hdrlen = tso_hdrlen skb" using hl
    by (cases "encapsulation skb") (simp_all add: tso_hdrlen_def u32_def)
  have su: "u32 (?hdrlen + gso_size skb) = tso_hdrlen skb + gso_size skb"
    unfolding hu using hl by (simp add: u32_def)
  let ?sr = "min (skb_len skb) (u32 (?hdrlen + gso_size skb))"
  have c3: "skb_len skb \<le> 0 + sum_list (map len (bufs (info ?q2 ! ?di)))"
    using cover sum by simp
  have c4: "?sr \<le> skb_len skb" by simp
  have c5: "0 < skb_len skb \<longrightarrow> 0 < ?sr" unfolding su using assms(3) by simp
  from tso_loop_total[OF assms(3) ok2 c3 c4 c5, of env skb ?hdrlen 0 True]
  obtain q3 where l: "tso_loop env skb ?hdrlen (gso_size skb)
      (bufs (info ?q2 ! ?di), 0, 0, skb_len skb, ?sr, True, ?q2) = Some q3"
    by blast
  show ?thesis using m merr0 cow l
    by (simp add: ionic_tx_tso_def Let_def)
qed

lemma env0_maps_succeed: "maps_succeed env0"
  using env0_allocs_succeed by (simp add: maps_succeed_def allocs_succeed_def)

text \<open>
  C1. A color-matched transmit completion whose \<open>comp_index\<close> lies in the ring makes
  \<^verbatim>\<open>ionic_tx_service\<close> return true after draining the slots \<open>tail_idx\<close>,
  \<open>tail_idx + 1\<close>, \<dots> (modulo N) up to and including the slot \<open>comp_index\<close>:
  each of them is clean and its packet and buffers were released, every other slot is as
  before, and \<open>tail_idx\<close> ends one past \<open>comp_index\<close>. A color-matched receive
  completion that \<^verbatim>\<open>ionic_rx_service\<close> accepts advances \<open>tail_idx\<close> by one modulo N,
  leaves every other slot as before, and cleans the one slot at \<open>tail_idx\<close>: its
  callback is cleared and its packet is accounted for. A completion with an error status
  or a length above the frame size is counted as dropped and nothing else happens.
  Otherwise the packet and its bytes are counted, and then: if no packet structure can
  be allocated, the allocation error and the drop are counted; a packet up to the
  copy-break length is handed to the stack once, as a copy, the buffers staying as they
  are, or freed and counted as dropped when the first buffer has no page; a longer packet
  is handed to the stack once with one fragment per buffer \<open>0 \<dots> num_sg_elems\<close>, on
  the pages of these buffers and of no more bytes than the completion reports, or freed
  and counted as dropped when one of these buffers has no page; the buffers after them
  are not touched.
\<close>

theorem service_drains_from_tail:
  assumes "ring_ok k q" and "color_match (color cqe) done_color"
  shows "(comp_index cqe < num_descs q \<longrightarrow>
            (\<exists>q'. ionic_tx_service env done_color cqe q = Some (True, q') \<and>
               tail_idx q' = (comp_index cqe + 1) mod num_descs q \<and>
               head_idx q' = head_idx q \<and>
               ring_span (tail_idx q) (comp_index cqe) (num_descs q) =
                 map (\<lambda>j. (tail_idx q + j) mod num_descs q)
                   [0..<Suc (ring_dist (tail_idx q) (comp_index cqe) (num_descs q))] \<and>
               (\<forall>i < num_descs q.
                  if i \<in> set (ring_span (tail_idx q) (comp_index cqe) (num_descs q))
                  then slot_clean (info q' ! i) \<and> slot_released (info q ! i) (events q')
                  else info q' ! i = info q ! i))) \<and>
         (\<forall>q'. ionic_rx_service env done_color cqe q = (True, q') \<longrightarrow>
            tail_idx q' = (tail_idx q + 1) mod num_descs q \<and>
            head_idx q' = head_idx q \<and>
            cb (info q' ! tail_idx q) = None \<and> cb_arg (info q' ! tail_idx q) = None \<and>
            (\<forall>i < num_descs q. i \<noteq> tail_idx q \<longrightarrow> info q' ! i = info q ! i) \<and>
            (\<exists>ext. events q' = events q @ ext \<and>
              (if status cqe \<noteq> 0 \<or> u32 (mtu q + ETH_HLEN + VLAN_HLEN) < u16 (comp_len cqe)
               then ext = [] \<and> rx_dropped q' = u64 (rx_dropped q + 1) \<and> rx_pkts q' = rx_pkts q \<and>
                    rx_bytes q' = rx_bytes q \<and>
                    (\<forall>j. get_buf q' (tail_idx q) j = get_buf q (tail_idx q) j)
               else rx_pkts q' = u64 (rx_pkts q + 1) \<and>
                    rx_bytes q' = u64 (rx_bytes q + u16 (comp_len cqe)) \<and>
                 (if \<not> skb_alloc env (kcalls q)
                  then ext = [] \<and> rx_dropped q' = u64 (rx_dropped q + 1) \<and>
                       rx_alloc_err q' = u64 (rx_alloc_err q + 1) \<and>
                       (\<forall>j. get_buf q' (tail_idx q) j = get_buf q (tail_idx q) j)
                  else if u16 (comp_len cqe) \<le> rx_copybreak q
                  then (\<forall>j. get_buf q' (tail_idx q) j = get_buf q (tail_idx q) j) \<and>
                       (if page (get_buf q (tail_idx q) 0) = None
                        then ext = [KfreeRxSkb] \<and> rx_dropped q' = u64 (rx_dropped q + 1)
                        else ext = [NapiGroReceive (u16 (comp_len cqe))] \<and>
                             rx_dropped q' = rx_dropped q)
                  else (\<forall>j. num_sg_elems cqe < j \<longrightarrow>
                          get_buf q' (tail_idx q) j = get_buf q (tail_idx q) j) \<and>
                       (if \<forall>j \<le> num_sg_elems cqe. page (get_buf q (tail_idx q) j) \<noteq> None
                        then rx_dropped q' = rx_dropped q \<and>
                             (\<exists>pre frags. ext = pre @ [NapiGroFrags frags] \<and>
                                filter is_delivery pre = [] \<and> KfreeRxSkb \<notin> set pre \<and>
                                map fst frags =
                                  map (\<lambda>j. the (page (get_buf q (tail_idx q) j)))
                                    [0..<num_sg_elems cqe + 1] \<and>
                                sum_list (map (snd \<circ> snd) frags) \<le> u16 (comp_len cqe))
                        else rx_dropped q' = u64 (rx_dropped q + 1) \<and>
                             filter is_delivery ext = [] \<and> KfreeRxSkb \<in> set ext)))))"
proof -
  have tx: "\<exists>q'. ionic_tx_service env done_color cqe q = Some (True, q') \<and>
               tail_idx q' = (comp_index cqe + 1) mod num_descs q \<and>
               head_idx q' = head_idx q \<and>
               ring_span (tail_idx q) (comp_index cqe) (num_descs q) =
                 map (\<lambda>j. (tail_idx q + j) mod num_descs q)
                   [0..<Suc (ring_dist (tail_idx q) (comp_index cqe) (num_descs q))] \<and>
               (\<forall>i < num_descs q.
                  if i \<in> set (ring_span (tail_idx q) (comp_index cqe) (num_descs q))
                  then slot_clean (info q' ! i) \<and> slot_released (info q ! i) (events q')
                  else info q' ! i = info q ! i)"
    if ci: "comp_index cqe < num_descs q"
  proof -
    have t: "tail_idx q < num_descs q" using assms(1) by (simp add: ring_ok_def)
    show ?thesis
      using tx_service_runs[OF assms ci, of env] ring_span_mod[OF t ci]
      by (auto simp del: upt_Suc)
  qed
  have rx: "
            tail_idx q' = (tail_idx q + 1) mod num_descs q \<and>
            head_idx q' = head_idx q \<and>
            cb (info q' ! tail_idx q) = None \<and> cb_arg (info q' ! tail_idx q) = None \<and>
            (\<forall>i < num_descs q. i \<noteq> tail_idx q \<longrightarrow> info q' ! i = info q ! i) \<and>
            (\<exists>ext. events q' = events q @ ext \<and>
              (if status cqe \<noteq> 0 \<or> u32 (mtu q + ETH_HLEN + VLAN_HLEN) < u16 (comp_len cqe)
               then ext = [] \<and> rx_dropped q' = u64 (rx_dropped q + 1) \<and> rx_pkts q' = rx_pkts q \<and>
                    rx_bytes q' = rx_bytes q \<and>
                    (\<forall>j. get_buf q' (tail_idx q) j = get_buf q (tail_idx q) j)
               else rx_pkts q' = u64 (rx_pkts q + 1) \<and>
                    rx_bytes q' = u64 (rx_bytes q + u16 (comp_len cqe)) \<and>
                 (if \<not> skb_alloc env (kcalls q)
                  then ext = [] \<and> rx_dropped q' = u64 (rx_dropped q + 1) \<and>
                       rx_alloc_err q' = u64 (rx_alloc_err q + 1) \<and>
                       (\<forall>j. get_buf q' (tail_idx q) j = get_buf q (tail_idx q) j)
                  else if u16 (comp_len cqe) \<le> rx_copybreak q
                  then (\<forall>j. get_buf q' (tail_idx q) j = get_buf q (tail_idx q) j) \<and>
                       (if page (get_buf q (tail_idx q) 0) = None
                        then ext = [KfreeRxSkb] \<and> rx_dropped q' = u64 (rx_dropped q + 1)
                        else ext = [NapiGroReceive (u16 (comp_len cqe))] \<and>
                             rx_dropped q' = rx_dropped q)
                  else (\<forall>j. num_sg_elems cqe < j \<longrightarrow>
                          get_buf q' (tail_idx q) j = get_buf q (tail_idx q) j) \<and>
                       (if \<forall>j \<le> num_sg_elems cqe. page (get_buf q (tail_idx q) j) \<noteq> None
                        then rx_dropped q' = rx_dropped q \<and>
                             (\<exists>pre frags. ext = pre @ [NapiGroFrags frags] \<and>
                                filter is_delivery pre = [] \<and> KfreeRxSkb \<notin> set pre \<and>
                                map fst frags =
                                  map (\<lambda>j. the (page (get_buf q (tail_idx q) j)))
                                    [0..<num_sg_elems cqe + 1] \<and>
                                sum_list (map (snd \<circ> snd) frags) \<le> u16 (comp_len cqe))
                        else rx_dropped q' = u64 (rx_dropped q + 1) \<and>
                             filter is_delivery ext = [] \<and> KfreeRxSkb \<in> set ext))))"
    if acc: "ionic_rx_service env done_color cqe q = (True, q')" for q'
  proof -
    have a: "tail_idx q' = (tail_idx q + 1) mod num_descs q \<and>
            head_idx q' = head_idx q \<and>
            cb (info q' ! tail_idx q) = None \<and> cb_arg (info q' ! tail_idx q) = None \<and>
            (\<forall>i < num_descs q. i \<noteq> tail_idx q \<longrightarrow> info q' ! i = info q ! i)"
      using rx_service_accept[OF assms(1) acc] by simp
    show ?thesis
      using a rx_service_cleaned[OF assms(1) acc] by (intro conjI) (elim conjE, assumption)+
  qed
  show ?thesis using tx rx by blast
qed

theorem service_drains_from_tail_witness:
  "ring_ok 2 (queue0\<lparr>head_idx := 2\<rparr>) \<and> color_match (color cqe0) True \<and>
   comp_index cqe0 < num_descs (queue0\<lparr>head_idx := 2\<rparr>) \<and>
   map_option fst (ionic_tx_service env0 True cqe0 (queue0\<lparr>head_idx := 2\<rparr>)) = Some True \<and>
   map_option (tail_idx \<circ> snd) (ionic_tx_service env0 True cqe0 (queue0\<lparr>head_idx := 2\<rparr>)) = Some 2 \<and>
   fst (ionic_rx_service env0 True (cqe0\<lparr>comp_index := 0\<rparr>) (queue0\<lparr>head_idx := 2\<rparr>)) \<and>
   tail_idx (snd (ionic_rx_service env0 True (cqe0\<lparr>comp_index := 0\<rparr>) (queue0\<lparr>head_idx := 2\<rparr>))) = 1 \<and>
   ring_ok 2 queue_rx \<and>
   fst (ionic_rx_service env0 True (cqe0\<lparr>comp_index := 0\<rparr>) queue_rx) \<and>
   events (snd (ionic_rx_service env0 True (cqe0\<lparr>comp_index := 0\<rparr>) queue_rx)) =
     [NapiGroReceive 64] \<and>
   rx_pkts (snd (ionic_rx_service env0 True (cqe0\<lparr>comp_index := 0\<rparr>) queue_rx)) = 1 \<and>
   rx_bytes (snd (ionic_rx_service env0 True (cqe0\<lparr>comp_index := 0\<rparr>) queue_rx)) = 64 \<and>
   rx_dropped (snd (ionic_rx_service env0 True (cqe0\<lparr>comp_index := 0\<rparr>) queue_rx)) = 0"
proof -
  let ?q = "queue0\<lparr>head_idx := 2\<rparr>"
  let ?c = "cqe0\<lparr>comp_index := 0\<rparr>"
  have ok: "ring_ok 2 ?q" by (simp add: ring_ok_def queue0_def)
  have cm: "color_match (color cqe0) True" by (simp add: color_match_def cqe0_def)
  have cm2: "color_match (color ?c) True"
    by (simp add: color_match_def cqe0_def)
  have ci: "comp_index cqe0 < num_descs ?q" by (simp add: cqe0_def queue0_def)
  have acc: "fst (ionic_rx_service env0 True ?c ?q)"
    by (simp add: ionic_rx_service_def Let_def color_match_def cqe0_def queue0_def u16_def)
  then have eq: "ionic_rx_service env0 True ?c ?q =
      (True, snd (ionic_rx_service env0 True ?c ?q))"
    by (metis prod.collapse)
  have tx: "map_option fst (ionic_tx_service env0 True cqe0 ?q) = Some True \<and>
     map_option (tail_idx \<circ> snd) (ionic_tx_service env0 True cqe0 ?q) = Some 2"
    using service_drains_from_tail [OF ok cm, of env0] ci
    by (auto simp: cqe0_def queue0_def)
  have rx: "tail_idx (snd (ionic_rx_service env0 True ?c ?q)) = 1"
    using service_drains_from_tail [OF ok cm2, of env0, THEN conjunct2, rule_format, OF eq]
    by (simp add: queue0_def)
  have okr: "ring_ok 2 queue_rx" by (simp add: ring_ok_def queue_rx_def queue0_def)
  define c where "c = cqe0\<lparr>comp_index := 0\<rparr>"
  have cmc: "color_match (color c) True" using cm2 by (simp add: c_def)
  have accr: "fst (ionic_rx_service env0 True c queue_rx)"
    by (simp add: ionic_rx_service_def Let_def color_match_def cqe0_def queue_rx_def queue0_def
        u16_def c_def)
  then have eqr: "ionic_rx_service env0 True c queue_rx =
      (True, snd (ionic_rx_service env0 True c queue_rx))"
    by (metis prod.collapse)
  have f: "u16 (comp_len c) = 64" "events queue_rx = []"
    "rx_pkts queue_rx = 0" "rx_bytes queue_rx = 0" "rx_dropped queue_rx = 0"
    by (simp_all add: c_def cqe0_def u16_def queue_rx_def queue0_def)
  have g1: "\<not> (status c \<noteq> 0 \<or> u32 (mtu queue_rx + ETH_HLEN + VLAN_HLEN) < u16 (comp_len c))"
    by (simp add: c_def cqe0_def u16_def queue_rx_def queue0_def u32_def ETH_HLEN_def
        VLAN_HLEN_def)
  have g2: "\<not> \<not> skb_alloc env0 (kcalls queue_rx)" by (simp add: env0_def)
  have g3: "u16 (comp_len c) \<le> rx_copybreak queue_rx"
    by (simp add: c_def cqe0_def u16_def queue_rx_def queue0_def)
  have g4: "\<not> page (get_buf queue_rx (tail_idx queue_rx) 0) = None"
    by (simp add: queue_rx_def queue0_def get_buf_def slot_rx_def)
  note t = service_drains_from_tail [OF okr cmc, of env0, THEN conjunct2, rule_format, OF eqr]
  note t2 = t[unfolded if_not_P[OF g1] if_not_P[OF g2] if_P[OF g3] if_not_P[OF g4]]
  have rr0: "events (snd (ionic_rx_service env0 True c queue_rx)) = [NapiGroReceive 64] \<and>
     rx_pkts (snd (ionic_rx_service env0 True c queue_rx)) = 1 \<and>
     rx_bytes (snd (ionic_rx_service env0 True c queue_rx)) = 64 \<and>
     rx_dropped (snd (ionic_rx_service env0 True c queue_rx)) = 0"
    using t2 unfolding f by (auto simp: u64_def)
  have rr: "events (snd (ionic_rx_service env0 True ?c queue_rx)) = [NapiGroReceive 64] \<and>
     rx_pkts (snd (ionic_rx_service env0 True ?c queue_rx)) = 1 \<and>
     rx_bytes (snd (ionic_rx_service env0 True ?c queue_rx)) = 64 \<and>
     rx_dropped (snd (ionic_rx_service env0 True ?c queue_rx)) = 0"
    using rr0 unfolding c_def .
  have accr: "fst (ionic_rx_service env0 True ?c queue_rx)" using accr unfolding c_def .
  show ?thesis using ok cm ci acc tx rx okr accr rr by simp
qed

text \<open>
  C10. A receive completion whose color matches but whose \<open>comp_index\<close> is not the
  current \<open>tail_idx\<close> makes \<^verbatim>\<open>ionic_rx_service\<close> return false with the queue exactly
  as it was; whenever \<^verbatim>\<open>ionic_rx_service\<close> returns true, \<open>comp_index\<close> was equal to
  \<open>tail_idx\<close>.
\<close>

theorem rx_service_requires_tail_index:
  "(color_match (color cqe) done_color \<and> u16 (comp_index cqe) \<noteq> tail_idx q \<longrightarrow>
      ionic_rx_service env done_color cqe q = (False, q)) \<and>
   (fst (ionic_rx_service env done_color cqe q) \<longrightarrow> u16 (comp_index cqe) = tail_idx q)"
  by (auto simp: ionic_rx_service_def Let_def)

theorem rx_service_requires_tail_index_witness:
  "color_match (color cqe0) True \<and> u16 (comp_index cqe0) \<noteq> tail_idx (queue0\<lparr>head_idx := 2\<rparr>) \<and>
   ionic_rx_service env0 True cqe0 (queue0\<lparr>head_idx := 2\<rparr>) = (False, queue0\<lparr>head_idx := 2\<rparr>)"
  using rx_service_requires_tail_index [of cqe0 True "queue0\<lparr>head_idx := 2\<rparr>" env0]
  by (simp add: cqe0_def queue0_def color_match_def u16_def)




text \<open>
  C2. On a well-formed ring of at least two slots (the descriptor count a power of two,
  both indices inside the ring), every sequence of \<^verbatim>\<open>ionic_rx_service\<close>,
  \<^verbatim>\<open>ionic_tx_service\<close>, \<^verbatim>\<open>ionic_rx_fill\<close>, \<^verbatim>\<open>ionic_tx_empty\<close> and
  \<^verbatim>\<open>ionic_rx_empty\<close> that returns leaves \<open>head_idx\<close> and \<open>tail_idx\<close> inside the ring
  and the queue not both full and empty; and the sequence does return when every
  transmit completion in it reports an index inside the ring.
\<close>

theorem ring_indices_stay_in_range:
  assumes "ring_ok k q" and "1 \<le> k"
  shows "(\<forall>q'. run_ops env xs q = Some q' \<longrightarrow>
            head_idx q' < num_descs q \<and> tail_idx q' < num_descs q \<and>
            num_descs q' = num_descs q \<and> \<not> (q_full q' \<and> q_empty q')) \<and>
         (list_all (comp_in_ring (num_descs q)) xs \<longrightarrow> run_ops env xs q \<noteq> None)"
proof -
  have a: "head_idx q' < num_descs q \<and> tail_idx q' < num_descs q \<and>
            num_descs q' = num_descs q \<and> \<not> (q_full q' \<and> q_empty q')"
    if "run_ops env xs q = Some q'" for q'
  proof -
    have ok': "ring_ok k q'" using run_ops_ring_ok[OF assms(1) that] .
    then show ?thesis using assms not_full_and_empty[OF ok' assms(2)]
      by (simp add: ring_ok_def)
  qed
  have b: "run_ops env xs q \<noteq> None" if "list_all (comp_in_ring (num_descs q)) xs"
    using run_ops_total[OF assms(1) that] .
  show ?thesis using a b by blast
qed

theorem ring_indices_stay_in_range_witness:
  "ring_ok 2 queue_tx \<and> (1::nat) \<le> 2 \<and>
   list_all (comp_in_ring (num_descs queue_tx)) [TxService True cqe0, TxEmpty, RxEmpty] \<and>
   run_ops env0 [TxService True cqe0, TxEmpty, RxEmpty] queue_tx \<noteq> None \<and>
   head_idx (the (run_ops env0 [TxService True cqe0, TxEmpty, RxEmpty] queue_tx)) < 4 \<and>
   tail_idx (the (run_ops env0 [TxService True cqe0, TxEmpty, RxEmpty] queue_tx)) < 4"
proof -
  have c: "ring_ok 2 queue_tx" by (simp add: ring_ok_def queue_tx_def queue0_def)
  have n: "num_descs queue_tx = 4" by (simp add: queue_tx_def queue0_def)
  have l: "list_all (comp_in_ring (num_descs queue_tx)) [TxService True cqe0, TxEmpty, RxEmpty]"
    by (simp add: n cqe0_def)
  note t = ring_indices_stay_in_range [OF c, of env0 "[TxService True cqe0, TxEmpty, RxEmpty]"]
  from t l obtain q' where q': "run_ops env0 [TxService True cqe0, TxEmpty, RxEmpty] queue_tx = Some q'"
    by auto
  with t have "head_idx q' < num_descs queue_tx \<and> tail_idx q' < num_descs queue_tx" by auto
  then show ?thesis using c l q' n by simp
qed

text \<open>
  C9, as amended. On an empty queue a color-matched receive completion makes
  \<^verbatim>\<open>ionic_rx_service\<close> return false with the queue exactly as it was.
  \<^verbatim>\<open>ionic_tx_service\<close> has no such test: on an empty well-formed ring a color-matched
  completion whose \<open>comp_index\<close> lies in the ring is serviced all the same, the slot at
  \<open>tail_idx\<close> is cleaned and \<open>tail_idx\<close> ends one past \<open>comp_index\<close>.
\<close>

theorem service_on_empty_queue:
  assumes "color_match (color cqe) done_color" and "tail_idx q = head_idx q"
  shows "ionic_rx_service env done_color cqe q = (False, q) \<and>
         (ring_ok k q \<and> comp_index cqe < num_descs q \<longrightarrow>
            (\<exists>q'. ionic_tx_service env done_color cqe q = Some (True, q') \<and>
               slot_clean (info q' ! tail_idx q) \<and>
               tail_idx q' = (comp_index cqe + 1) mod num_descs q))"
proof -
  have rx: "ionic_rx_service env done_color cqe q = (False, q)"
    using assms by (simp add: ionic_rx_service_def)
  have tx: "\<exists>q'. ionic_tx_service env done_color cqe q = Some (True, q') \<and>
               slot_clean (info q' ! tail_idx q) \<and>
               tail_idx q' = (comp_index cqe + 1) mod num_descs q"
    if ok: "ring_ok k q" and ci: "comp_index cqe < num_descs q"
  proof -
    have "tail_idx q \<in> set (ring_span (tail_idx q) (comp_index cqe) (num_descs q))"
      using ok ci by (auto simp: span_mem ring_ok_def)
    then show ?thesis using tx_service_runs[OF ok assms(1) ci, of env] by auto
  qed
  show ?thesis using rx tx by blast
qed

theorem service_on_empty_queue_witness:
  "color_match (color (cqe0\<lparr>comp_index := 0\<rparr>)) True \<and> tail_idx queue0 = head_idx queue0 \<and>
   ring_ok 2 queue0 \<and> comp_index (cqe0\<lparr>comp_index := 0\<rparr>) < num_descs queue0 \<and>
   ionic_rx_service env0 True (cqe0\<lparr>comp_index := 0\<rparr>) queue0 = (False, queue0) \<and>
   map_option fst (ionic_tx_service env0 True (cqe0\<lparr>comp_index := 0\<rparr>) queue0) = Some True"
proof -
  have a: "color_match (color (cqe0\<lparr>comp_index := 0\<rparr>)) True"
    by (simp add: color_match_def cqe0_def)
  have b: "tail_idx queue0 = head_idx queue0" by (simp add: queue0_def)
  have c: "ring_ok 2 queue0" by (simp add: ring_ok_def queue0_def)
  have d: "comp_index (cqe0\<lparr>comp_index := 0\<rparr>) < num_descs queue0" by (simp add: queue0_def)
  from service_on_empty_queue [OF a b, of env0 2] c d a b show ?thesis by auto
qed

text \<open>
  C9, as stated, fails for the transmit side: on the empty ring with
  \<open>head_idx = tail_idx = 0\<close> a color-matched completion for index 0 makes
  \<^verbatim>\<open>ionic_tx_service\<close> return true and move \<open>tail_idx\<close> to 1.
\<close>

theorem tx_service_on_empty_queue_counterexample:
  "color_match (color (cqe0\<lparr>comp_index := 0\<rparr>)) True \<and> tail_idx queue0 = head_idx queue0 \<and>
   map_option fst (ionic_tx_service env0 True (cqe0\<lparr>comp_index := 0\<rparr>) queue0) = Some True \<and>
   map_option (tail_idx \<circ> snd) (ionic_tx_service env0 True (cqe0\<lparr>comp_index := 0\<rparr>) queue0) = Some 1 \<and>
   tail_idx queue0 = 0"
proof -
  have a: "color_match (color (cqe0\<lparr>comp_index := 0\<rparr>)) True"
    by (simp add: color_match_def cqe0_def)
  have b: "tail_idx queue0 = head_idx queue0" "tail_idx queue0 = 0" "num_descs queue0 = 4"
    by (simp_all add: queue0_def)
  have c: "ring_ok 2 queue0" by (simp add: ring_ok_def queue0_def)
  have d: "comp_index (cqe0\<lparr>comp_index := 0\<rparr>) < num_descs queue0" by (simp add: queue0_def)
  from tx_service_runs[OF c a d, of env0] a b show ?thesis by auto
qed

text \<open>
  C4. \<^verbatim>\<open>ionic_rx_buf_recycle\<close> returns true exactly when the page is reusable, the MTU
  is at most \<open>IONIC_PAGE_SPLIT_MAX_MTU\<close>, and the page offset advanced by
  \<open>ALIGN(used, IONIC_PAGE_SPLIT_SZ)\<close> is below \<open>IONIC_PAGE_SIZE\<close>. When it returns
  true the buffer keeps its page, its offset is the advanced one, and the bias is
  decremented (split pages) or a page reference is taken (order 0). \<open>ALIGN\<close> rounds
  \<open>used\<close> up to the next multiple of the split unit when that unit is a power of two and
  the sum fits 32 bits. With an MTU above the threshold the result is false and the
  queue is untouched, and \<^verbatim>\<open>ionic_rx_frags\<close> then unmaps every buffer it attached and
  clears its page.
\<close>

theorem rx_buf_recycle_reuse:
  assumes "di < length (info q)" and "bj < length (bufs (info q ! di))"
  shows "(fst (ionic_rx_buf_recycle env q di bj used) \<longleftrightarrow>
            dev_page_is_reusable env (page (get_buf q di bj)) \<and>
            mtu q \<le> IONIC_PAGE_SPLIT_MAX_MTU env \<and>
            u32 (page_offset (get_buf q di bj) + ALIGN used (IONIC_PAGE_SPLIT_SZ env))
              < IONIC_PAGE_SIZE env) \<and>
         (fst (ionic_rx_buf_recycle env q di bj used) \<longrightarrow>
            page_offset (get_buf (snd (ionic_rx_buf_recycle env q di bj used)) di bj) =
              u32 (page_offset (get_buf q di bj) + ALIGN used (IONIC_PAGE_SPLIT_SZ env)) \<and>
            page (get_buf (snd (ionic_rx_buf_recycle env q di bj used)) di bj) =
              page (get_buf q di bj) \<and>
            (if IONIC_PAGE_ORDER env > 0
             then pagecnt_bias (get_buf (snd (ionic_rx_buf_recycle env q di bj used)) di bj) =
                    u32_sub (pagecnt_bias (get_buf q di bj)) 1
             else events (snd (ionic_rx_buf_recycle env q di bj used)) =
                    events q @ [GetPage (page (get_buf q di bj))])) \<and>
         (IONIC_PAGE_SPLIT_SZ env = 2 ^ s \<and> s < 32 \<and> used + 2 ^ s \<le> 2 ^ 32 \<longrightarrow>
            ALIGN used (IONIC_PAGE_SPLIT_SZ env) = ((used + 2 ^ s - 1) div 2 ^ s) * 2 ^ s) \<and>
         (mtu q > IONIC_PAGE_SPLIT_MAX_MTU env \<longrightarrow>
            ionic_rx_buf_recycle env q di bj used = (False, q) \<and>
            (\<forall>cqe fr q'. num_sg_elems cqe < length (bufs (info q ! di)) \<and>
                 ionic_rx_frags env q di cqe = (Some fr, q') \<longrightarrow>
               (\<forall>j \<le> num_sg_elems cqe.
                  page (get_buf q' di j) = None \<and>
                  DmaUnmapPage (dma_addr (get_buf q di j)) (IONIC_PAGE_SIZE env)
                    \<in> set (events q'))))"
proof -
  note d = recycle_decision[OF assms, of env used]
  have e: "page_offset (get_buf (snd (ionic_rx_buf_recycle env q di bj used)) di bj) =
              u32 (page_offset (get_buf q di bj) + ALIGN used (IONIC_PAGE_SPLIT_SZ env)) \<and>
            page (get_buf (snd (ionic_rx_buf_recycle env q di bj used)) di bj) =
              page (get_buf q di bj) \<and>
            (if IONIC_PAGE_ORDER env > 0
             then pagecnt_bias (get_buf (snd (ionic_rx_buf_recycle env q di bj used)) di bj) =
                    u32_sub (pagecnt_bias (get_buf q di bj)) 1
             else events (snd (ionic_rx_buf_recycle env q di bj used)) =
                    events q @ [GetPage (page (get_buf q di bj))])"
    if "fst (ionic_rx_buf_recycle env q di bj used)"
    using recycle_effect[OF assms that] by (cases "IONIC_PAGE_ORDER env > 0") simp_all
  have a: "ALIGN used (IONIC_PAGE_SPLIT_SZ env) = ((used + 2 ^ s - 1) div 2 ^ s) * 2 ^ s"
    if "IONIC_PAGE_SPLIT_SZ env = 2 ^ s \<and> s < 32 \<and> used + 2 ^ s \<le> 2 ^ 32"
    using that ALIGN_pow2[of s used] by simp
  have m: "ionic_rx_buf_recycle env q di bj used = (False, q) \<and>
            (\<forall>cqe fr q'. num_sg_elems cqe < length (bufs (info q ! di)) \<and>
                 ionic_rx_frags env q di cqe = (Some fr, q') \<longrightarrow>
               (\<forall>j \<le> num_sg_elems cqe.
                  page (get_buf q' di j) = None \<and>
                  DmaUnmapPage (dma_addr (get_buf q di j)) (IONIC_PAGE_SIZE env)
                    \<in> set (events q')))"
    if big: "mtu q > IONIC_PAGE_SPLIT_MAX_MTU env"
  proof (intro conjI allI impI)
    show "ionic_rx_buf_recycle env q di bj used = (False, q)"
      using big by (rule recycle_large_mtu)
  next
    fix cqe fr q' j
    assume h: "num_sg_elems cqe < length (bufs (info q ! di)) \<and>
                 ionic_rx_frags env q di cqe = (Some fr, q')" and j: "j \<le> num_sg_elems cqe"
    let ?q1 = "q\<lparr>kcalls := kcalls q + 1\<rparr>"
    have run: "rx_frags_loop env (num_sg_elems cqe + 1) di 0 (u16 (comp_len cqe)) [] ?q1 =
                 (Some fr, q')"
      using h by (auto simp: ionic_rx_frags_def Let_def simp del: rx_frags_loop.simps
          split: if_splits)
    have p: "mtu ?q1 > IONIC_PAGE_SPLIT_MAX_MTU env" "di < length (info ?q1)"
      "0 + (num_sg_elems cqe + 1) \<le> length (bufs (info ?q1 ! di))"
      using big assms(1) h by simp_all
    have g: "get_buf ?q1 di j = get_buf q di j" by (simp add: get_buf_def)
    have "0 \<le> j \<and> j < 0 + (num_sg_elems cqe + 1)" using j by simp
    with frags_loop_large_mtu[OF p run]
    have "page (get_buf q' di j) = None \<and>
          DmaUnmapPage (dma_addr (get_buf ?q1 di j)) (IONIC_PAGE_SIZE env) \<in> set (events q')"
      by blast
    then show "page (get_buf q' di j) = None"
      "DmaUnmapPage (dma_addr (get_buf q di j)) (IONIC_PAGE_SIZE env) \<in> set (events q')"
      unfolding g by simp_all
  qed
  show ?thesis using d e a m by blast
qed


theorem rx_buf_recycle_reuse_witness:
  "0 < length (info queue_rx) \<and> 0 < length (bufs (info queue_rx ! 0)) \<and>
   dev_page_is_reusable env0 (page (get_buf queue_rx 0 0)) \<and>
   mtu queue_rx \<le> IONIC_PAGE_SPLIT_MAX_MTU env0 \<and>
   IONIC_PAGE_SPLIT_SZ env0 = 2 ^ 11 \<and> (11::nat) < 32 \<and> (64::nat) + 2 ^ 11 \<le> 2 ^ 32 \<and>
   ALIGN 64 (IONIC_PAGE_SPLIT_SZ env0) = 2048 \<and>
   fst (ionic_rx_buf_recycle env0 queue_rx 0 0 64) \<and>
   page_offset (get_buf (snd (ionic_rx_buf_recycle env0 queue_rx 0 0 64)) 0 0) = 2048 \<and>
   mtu (queue_rx\<lparr>mtu := 9000\<rparr>) > IONIC_PAGE_SPLIT_MAX_MTU env0 \<and>
   ionic_rx_buf_recycle env0 (queue_rx\<lparr>mtu := 9000\<rparr>) 0 0 64 = (False, queue_rx\<lparr>mtu := 9000\<rparr>) \<and>
   fst (ionic_rx_frags env0 (queue_rx\<lparr>mtu := 9000\<rparr>) 0 (cqe0\<lparr>comp_len := 2000\<rparr>)) \<noteq> None \<and>
   page (get_buf (snd (ionic_rx_frags env0 (queue_rx\<lparr>mtu := 9000\<rparr>) 0 (cqe0\<lparr>comp_len := 2000\<rparr>))) 0 0) = None"
proof -
  let ?qb = "queue_rx\<lparr>mtu := 9000\<rparr>"
  let ?c = "cqe0\<lparr>comp_len := 2000\<rparr>"
  have l: "0 < length (info queue_rx)" "0 < length (bufs (info queue_rx ! 0))"
    "0 < length (info ?qb)" "0 < length (bufs (info ?qb ! 0))"
    by (simp_all add: queue_rx_def queue0_def slot_rx_def)
  have b: "get_buf queue_rx 0 0 = buf0\<lparr>page := Some 7, dma_addr := 4096\<rparr>"
    "get_buf ?qb 0 0 = buf0\<lparr>page := Some 7, dma_addr := 4096\<rparr>"
    by (simp_all add: get_buf_def queue_rx_def queue0_def slot_rx_def)
  have h: "dev_page_is_reusable env0 (page (get_buf queue_rx 0 0))"
    "mtu queue_rx \<le> IONIC_PAGE_SPLIT_MAX_MTU env0"
    "IONIC_PAGE_SPLIT_SZ env0 = 2 ^ 11 \<and> (11::nat) < 32 \<and> (64::nat) + 2 ^ 11 \<le> 2 ^ 32"
    "mtu ?qb > IONIC_PAGE_SPLIT_MAX_MTU env0" "IONIC_PAGE_SIZE env0 = 4096"
    by (simp_all add: env0_def queue_rx_def queue0_def)
  note t = rx_buf_recycle_reuse [OF l(1,2), of env0 64 11]
  note u = rx_buf_recycle_reuse [OF l(3,4), of env0 64 11]
  have al: "ALIGN 64 (IONIC_PAGE_SPLIT_SZ env0) = 2048" using t h(3) by simp
  have off: "u32 (page_offset (get_buf queue_rx 0 0) + ALIGN 64 (IONIC_PAGE_SPLIT_SZ env0)) = 2048"
    unfolding al b by (simp add: buf0_def u32_def)
  have f: "fst (ionic_rx_buf_recycle env0 queue_rx 0 0 64)"
    using t h(1,2,5) off by simp
  have po: "page_offset (get_buf (snd (ionic_rx_buf_recycle env0 queue_rx 0 0 64)) 0 0) = 2048"
    using t f off by simp
  have r: "ionic_rx_buf_recycle env0 ?qb 0 0 64 = (False, ?qb)" using u h(4) by blast
  have sk: "skb_alloc env0 (kcalls ?qb)" by (simp add: env0_def)
  have pg: "page (get_buf (?qb\<lparr>kcalls := kcalls ?qb + 1\<rparr>) 0 0) = Some 7"
    by (simp add: get_buf_def queue_rx_def queue0_def slot_rx_def buf0_def)
  have big: "IONIC_PAGE_SPLIT_MAX_MTU env0 < mtu (?qb\<lparr>kcalls := kcalls ?qb + 1\<rparr>)"
    by (simp add: env0_def)
  have fr: "fst (ionic_rx_frags env0 ?qb 0 ?c) \<noteq> None"
    using sk pg recycle_large_mtu[OF big]
    by (simp add: ionic_rx_frags_def Let_def cqe0_def)
  then obtain frl where e: "ionic_rx_frags env0 ?qb 0 ?c =
      (Some frl, snd (ionic_rx_frags env0 ?qb 0 ?c))"
    by (metis not_None_eq prod.collapse)
  have ns: "num_sg_elems ?c < length (bufs (info ?qb ! 0))"
    by (simp add: cqe0_def queue_rx_def queue0_def slot_rx_def)
  have "page (get_buf (snd (ionic_rx_frags env0 ?qb 0 ?c)) 0 0) = None"
    using u h(4) ns e by blast
  then show ?thesis using l(1,2) h(1-4) al f po r fr by simp
qed

text \<open>
  C8, as amended. On a non-empty queue a doorbell poke whose distance from the last
  ring is within the deadline rings nothing and changes nothing, the deadline included.
  Beyond the deadline both pokes ring the doorbell and record the time;
  \<^verbatim>\<open>ionic_rxq_poke_doorbell\<close> then doubles the deadline, capped at the maximum, and
  \<^verbatim>\<open>ionic_txq_poke_doorbell\<close> leaves it as it is. \<^verbatim>\<open>ionic_rx_fill\<close> sets the
  deadline back to the minimum when it runs to its end, which it does when no
  allocation fails, and leaves the deadline alone when it returns early.
\<close>

theorem doorbell_deadline_window:
  assumes "tail_idx q \<noteq> head_idx q"
  shows "(u64_sub (jiffies q) (dbell_jiffies q) \<le> dbell_deadline q \<longrightarrow>
            ionic_txq_poke_doorbell q = (True, q) \<and>
            ionic_rxq_poke_doorbell env q = (True, q)) \<and>
         (u64_sub (jiffies q) (dbell_jiffies q) > dbell_deadline q \<longrightarrow>
            fst (ionic_txq_poke_doorbell q) \<and>
            events (snd (ionic_txq_poke_doorbell q)) = events q @ [DbellRing (head_idx q)] \<and>
            dbell_jiffies (snd (ionic_txq_poke_doorbell q)) = jiffies q \<and>
            dbell_deadline (snd (ionic_txq_poke_doorbell q)) = dbell_deadline q \<and>
            fst (ionic_rxq_poke_doorbell env q) \<and>
            events (snd (ionic_rxq_poke_doorbell env q)) = events q @ [DbellRing (head_idx q)] \<and>
            dbell_jiffies (snd (ionic_rxq_poke_doorbell env q)) = jiffies q \<and>
            dbell_deadline (snd (ionic_rxq_poke_doorbell env q)) =
              min (u64 (2 * dbell_deadline q)) (IONIC_RX_MAX_DOORBELL_DEADLINE env)) \<and>
         dbell_deadline (ionic_rx_fill env q) =
           (if rx_fill_completes env q then IONIC_RX_MIN_DOORBELL_DEADLINE env
            else dbell_deadline q) \<and>
         (allocs_succeed env \<longrightarrow> rx_fill_completes env q)"
proof -
  have a: "ionic_txq_poke_doorbell q = (True, q) \<and> ionic_rxq_poke_doorbell env q = (True, q)"
    if "u64_sub (jiffies q) (dbell_jiffies q) \<le> dbell_deadline q"
    using poke_skip[OF assms that] by simp
  have b: "fst (ionic_txq_poke_doorbell q) \<and>
            events (snd (ionic_txq_poke_doorbell q)) = events q @ [DbellRing (head_idx q)] \<and>
            dbell_jiffies (snd (ionic_txq_poke_doorbell q)) = jiffies q \<and>
            dbell_deadline (snd (ionic_txq_poke_doorbell q)) = dbell_deadline q \<and>
            fst (ionic_rxq_poke_doorbell env q) \<and>
            events (snd (ionic_rxq_poke_doorbell env q)) = events q @ [DbellRing (head_idx q)] \<and>
            dbell_jiffies (snd (ionic_rxq_poke_doorbell env q)) = jiffies q \<and>
            dbell_deadline (snd (ionic_rxq_poke_doorbell env q)) =
              min (u64 (2 * dbell_deadline q)) (IONIC_RX_MAX_DOORBELL_DEADLINE env)"
    if "u64_sub (jiffies q) (dbell_jiffies q) > dbell_deadline q"
    using poke_ring[OF assms that] by simp
  show ?thesis
    using a b rx_fill_deadline[of env q] allocs_succeed_completes[of env q] by blast
qed


theorem doorbell_deadline_window_witness:
  "tail_idx queue_rx \<noteq> head_idx queue_rx \<and>
   u64_sub (jiffies (queue_rx\<lparr>dbell_jiffies := 95\<rparr>)) (dbell_jiffies (queue_rx\<lparr>dbell_jiffies := 95\<rparr>))
     \<le> dbell_deadline (queue_rx\<lparr>dbell_jiffies := 95\<rparr>) \<and>
   ionic_rxq_poke_doorbell env0 (queue_rx\<lparr>dbell_jiffies := 95\<rparr>) = (True, queue_rx\<lparr>dbell_jiffies := 95\<rparr>) \<and>
   u64_sub (jiffies queue_rx) (dbell_jiffies queue_rx) > dbell_deadline queue_rx \<and>
   dbell_deadline (snd (ionic_rxq_poke_doorbell env0 queue_rx)) = 20 \<and>
   dbell_deadline (snd (ionic_txq_poke_doorbell queue_rx)) = 10 \<and>
   allocs_succeed env0 \<and>
   dbell_deadline (ionic_rx_fill env0 (queue_rx\<lparr>dbell_deadline := 40\<rparr>)) = 10"
proof -
  let ?q1 = "queue_rx\<lparr>dbell_jiffies := 95\<rparr>"
  let ?q2 = "queue_rx\<lparr>dbell_deadline := 40\<rparr>"
  have ne: "tail_idx queue_rx \<noteq> head_idx queue_rx" "tail_idx ?q1 \<noteq> head_idx ?q1"
    "tail_idx ?q2 \<noteq> head_idx ?q2"
    by (simp_all add: queue_rx_def queue0_def)
  have s: "u64_sub (jiffies ?q1) (dbell_jiffies ?q1) \<le> dbell_deadline ?q1"
    by (simp add: queue_rx_def queue0_def u64_sub_def u64_def)
  have r: "u64_sub (jiffies queue_rx) (dbell_jiffies queue_rx) > dbell_deadline queue_rx"
    by (simp add: queue_rx_def queue0_def u64_sub_def u64_def)
  have d: "dbell_deadline queue_rx = 10" "IONIC_RX_MAX_DOORBELL_DEADLINE env0 = 4000"
    "IONIC_RX_MIN_DOORBELL_DEADLINE env0 = 10"
    by (simp_all add: queue_rx_def queue0_def env0_def)
  note a = env0_allocs_succeed
  from doorbell_deadline_window [OF ne(2), of env0] s
  have p1: "ionic_rxq_poke_doorbell env0 ?q1 = (True, ?q1)" by blast
  from doorbell_deadline_window [OF ne(1), of env0] r
  have p2: "dbell_deadline (snd (ionic_rxq_poke_doorbell env0 queue_rx)) =
              min (u64 (2 * dbell_deadline queue_rx)) (IONIC_RX_MAX_DOORBELL_DEADLINE env0)"
    and p3: "dbell_deadline (snd (ionic_txq_poke_doorbell queue_rx)) = dbell_deadline queue_rx"
    by blast+
  from doorbell_deadline_window [OF ne(3), of env0] a
  have p4: "dbell_deadline (ionic_rx_fill env0 ?q2) = IONIC_RX_MIN_DOORBELL_DEADLINE env0"
    by simp
  show ?thesis using ne(1) s p1 r p2 p3 p4 a d by (simp add: u64_def)
qed


text \<open>
  C8, as stated, fails twice. A skipped ring does not grow the window: within the
  deadline both pokes leave a deadline of 10 at 10. And a fill does not always shrink
  it: when the first page allocation fails, \<^verbatim>\<open>ionic_rx_fill\<close> returns with the
  deadline still at 40, above the minimum of 10.
\<close>

theorem doorbell_deadline_counterexample:
  "tail_idx (queue_rx\<lparr>dbell_jiffies := 95\<rparr>) \<noteq> head_idx (queue_rx\<lparr>dbell_jiffies := 95\<rparr>) \<and>
   u64_sub (jiffies (queue_rx\<lparr>dbell_jiffies := 95\<rparr>)) (dbell_jiffies (queue_rx\<lparr>dbell_jiffies := 95\<rparr>))
     \<le> dbell_deadline (queue_rx\<lparr>dbell_jiffies := 95\<rparr>) \<and>
   dbell_deadline (queue_rx\<lparr>dbell_jiffies := 95\<rparr>) = 10 \<and>
   events (snd (ionic_rxq_poke_doorbell env0 (queue_rx\<lparr>dbell_jiffies := 95\<rparr>))) = [] \<and>
   dbell_deadline (snd (ionic_rxq_poke_doorbell env0 (queue_rx\<lparr>dbell_jiffies := 95\<rparr>))) = 10 \<and>
   dbell_deadline (snd (ionic_txq_poke_doorbell (queue_rx\<lparr>dbell_jiffies := 95\<rparr>))) = 10 \<and>
   IONIC_RX_MIN_DOORBELL_DEADLINE env_nomem = 10 \<and>
   dbell_deadline (ionic_rx_fill env_nomem (queue0\<lparr>dbell_deadline := 40\<rparr>)) = 40"
proof -
  let ?q1 = "queue_rx\<lparr>dbell_jiffies := 95\<rparr>"
  let ?q2 = "queue0\<lparr>dbell_deadline := 40\<rparr>"
  have ne: "tail_idx ?q1 \<noteq> head_idx ?q1" by (simp add: queue_rx_def queue0_def)
  have s: "u64_sub (jiffies ?q1) (dbell_jiffies ?q1) \<le> dbell_deadline ?q1"
    by (simp add: queue_rx_def queue0_def u64_sub_def u64_def)
  have d: "dbell_deadline ?q1 = 10" "events ?q1 = []" "IONIC_RX_MIN_DOORBELL_DEADLINE env_nomem = 10"
    by (simp_all add: queue_rx_def queue0_def env_nomem_def env0_def)
  note p = poke_skip(1)[OF ne s] poke_skip(2)[OF ne s, where env=env0]
  have sa: "ionic_q_space_avail ?q2 = 3"
    by (simp add: ionic_q_space_avail_def queue0_def)
  have pg: "page (get_buf ?q2 (head_idx ?q2) 0) = None"
    by (simp add: get_buf_def queue0_def slot0_def buf0_def)
  have al: "alloc_pages env_nomem (kcalls ?q2) = None" by (simp add: env_nomem_def)
  have "\<not> fst (rx_fill_slot env_nomem flen ns ?q2)" for flen ns
    using pg al
    by (simp add: rx_fill_slot_def rx_fill_buf_def ionic_rx_page_alloc_def Let_def)
  then have "\<not> fst (rx_fill_loop env_nomem flen ns (Suc i) ?q2)" for flen ns i
    by (simp add: split_def)
  then have "\<not> fst (rx_fill_loop env_nomem flen ns 3 ?q2)" for flen ns
    unfolding numeral_3_eq_3 by blast
  then have "\<not> rx_fill_completes env_nomem ?q2"
    unfolding rx_fill_completes_def sa by blast
  then have "dbell_deadline (ionic_rx_fill env_nomem ?q2) = 40"
    using rx_fill_deadline[of env_nomem ?q2] by simp
  then show ?thesis using ne s d p by simp
qed

text \<open>
  C6, as amended. A packet is submitted to an up device; \<open>diverted\<close> says whether it goes
  to the timestamping queue, \<open>q\<close> is the queue it goes to, and the descriptor demand is
  computed on that queue. A packet that is not diverted and whose demand exceeds the free
  slots of its ring: the subqueue is marked stopped and nothing else is done to the queue,
  then the space check is repeated on the queue as the completion path has left it. If
  there is space now, the subqueue is woken and the send goes on from there, returning
  \<open>NETDEV_TX_OK\<close>; if not, \<^verbatim>\<open>ionic_start_xmit\<close> returns \<open>NETDEV_TX_BUSY\<close> and the
  queue holds nothing of the packet: it was neither posted nor freed. Every diverted
  packet whose demand exceeds the free slots of the timestamping queue (or could not be
  computed) is freed, \<open>NETDEV_TX_OK\<close> is returned, nothing is posted, no subqueue is
  stopped and the transmit queues are left as they were.
\<close>

theorem start_xmit_backpressure:
  assumes "IONIC_LIF_F_UP lif"
    and "diverted = (CONFIG_PTP_1588_CLOCK env \<and> tx_flags_hw_tstamp skb \<and>
                     hwstamp_txq lif \<noteq> None \<and> ts_config_tx_mode lif \<noteq> 0)"
    and "queue_index = (if u16 (queue_mapping skb) \<ge> nxqs lif then 0 else u16 (queue_mapping skb))"
    and "q = (if diverted then the (hwstamp_txq lif) else txqcqs lif ! queue_index)"
    and "ionic_tx_descs_needed env q skb = (ndescs, q1, skb1)"
  shows "(\<not> diverted \<and> 0 \<le> ndescs \<and> \<not> ionic_q_has_space q1 (nat ndescs) \<longrightarrow>
           index q1 \<in> stopped (stop_marked q1) \<and>
           events (stop_marked q1) = events q @ [StopSubqueue (index q1)] \<and>
           posts (stop_marked q1) = posts q \<and>
           (ionic_q_has_space (concurrent_clean env (stop_marked q1)) (nat ndescs) \<longrightarrow>
              ionic_start_xmit env lif skb =
                xmit_send env lif queue_index (woken (concurrent_clean env (stop_marked q1))) skb1 \<and>
              index (concurrent_clean env (stop_marked q1))
                \<notin> stopped (woken (concurrent_clean env (stop_marked q1))) \<and>
              (\<forall>r lif'. ionic_start_xmit env lif skb = Some (r, lif') \<longrightarrow> r = NETDEV_TX_OK)) \<and>
           (\<not> ionic_q_has_space (concurrent_clean env (stop_marked q1)) (nat ndescs) \<longrightarrow>
              ionic_start_xmit env lif skb =
                Some (NETDEV_TX_BUSY,
                      lif\<lparr>txqcqs := (txqcqs lif)[queue_index :=
                             concurrent_clean env (stop_marked q1)]\<rparr>))) \<and>
         (diverted \<and> (ndescs < 0 \<or> \<not> ionic_q_has_space q1 (nat ndescs)) \<longrightarrow>
           (\<exists>q'. ionic_start_xmit env lif skb = Some (NETDEV_TX_OK, lif\<lparr>hwstamp_txq := Some q'\<rparr>) \<and>
                 events q' = events q @ [KfreeSkb skb1] \<and>
                 posts q' = posts q \<and> stopped q' = stopped q \<and>
                 head_idx q' = head_idx q \<and> tail_idx q' = tail_idx q \<and> info q' = info q))"
proof -
  let ?q2 = "concurrent_clean env (stop_marked q1)"
  note fr = descs_needed_frame[OF assms(5)]
  have n: "index q1 \<in> stopped (stop_marked q1) \<and>
           events (stop_marked q1) = events q @ [StopSubqueue (index q1)] \<and>
           posts (stop_marked q1) = posts q \<and>
           (ionic_q_has_space ?q2 (nat ndescs) \<longrightarrow>
              ionic_start_xmit env lif skb = xmit_send env lif queue_index (woken ?q2) skb1 \<and>
              index ?q2 \<notin> stopped (woken ?q2) \<and>
              (\<forall>r lif'. ionic_start_xmit env lif skb = Some (r, lif') \<longrightarrow> r = NETDEV_TX_OK)) \<and>
           (\<not> ionic_q_has_space ?q2 (nat ndescs) \<longrightarrow>
              ionic_start_xmit env lif skb =
                Some (NETDEV_TX_BUSY, lif\<lparr>txqcqs := (txqcqs lif)[queue_index := ?q2]\<rparr>))"
    if nd: "\<not> diverted" and nn: "0 \<le> ndescs" and ns: "\<not> ionic_q_has_space q1 (nat ndescs)"
  proof -
    have qq: "q = txqcqs lif ! queue_index" using nd assms(4) by simp
    have nd': "\<not> (CONFIG_PTP_1588_CLOCK env \<and> tx_flags_hw_tstamp skb \<and>
                   hwstamp_txq lif \<noteq> None \<and> ts_config_tx_mode lif \<noteq> 0)"
      using nd assms(2) by simp
    have dn: "ionic_tx_descs_needed env (txqcqs lif ! queue_index) skb = (ndescs, q1, skb1)"
      using assms(5) qq by simp
    have a: "index q1 \<in> stopped (stop_marked q1)"
      "events (stop_marked q1) = events q @ [StopSubqueue (index q1)]"
      "posts (stop_marked q1) = posts q"
      using fr by (simp_all add: stop_marked_def log_event_def)
    have ms: "ionic_maybe_stop_tx env q1 (nat ndescs) =
        (if ionic_q_has_space ?q2 (nat ndescs) then (0, woken ?q2) else (1, ?q2))"
      using ns by (simp add: ionic_maybe_stop_tx_def stop_marked_def woken_def Let_def)
    have sx: "ionic_start_xmit env lif skb =
        (case ionic_maybe_stop_tx env q1 (nat ndescs) of (stp, q2) \<Rightarrow>
                    if stp \<noteq> 0
                    then Some (NETDEV_TX_BUSY, lif\<lparr>txqcqs := (txqcqs lif)[queue_index := q2]\<rparr>)
                    else xmit_send env lif queue_index q2 skb1)"
      using assms(1) nd' dn nn unfolding ionic_start_xmit_def Let_def assms(3)[symmetric]
      by auto
    have b: "ionic_start_xmit env lif skb = xmit_send env lif queue_index (woken ?q2) skb1 \<and>
              index ?q2 \<notin> stopped (woken ?q2) \<and>
              (\<forall>r lif'. ionic_start_xmit env lif skb = Some (r, lif') \<longrightarrow> r = NETDEV_TX_OK)"
      if "ionic_q_has_space ?q2 (nat ndescs)"
      using that sx ms xmit_send_ok by (auto simp: woken_def)
    have c: "ionic_start_xmit env lif skb =
                Some (NETDEV_TX_BUSY, lif\<lparr>txqcqs := (txqcqs lif)[queue_index := ?q2]\<rparr>)"
      if "\<not> ionic_q_has_space ?q2 (nat ndescs)"
      using that sx ms by simp
    show ?thesis using a b c by blast
  qed
  have h: "\<exists>q'. ionic_start_xmit env lif skb = Some (NETDEV_TX_OK, lif\<lparr>hwstamp_txq := Some q'\<rparr>) \<and>
                 events q' = events q @ [KfreeSkb skb1] \<and>
                 posts q' = posts q \<and> stopped q' = stopped q \<and>
                 head_idx q' = head_idx q \<and> tail_idx q' = tail_idx q \<and> info q' = info q"
    if dv: "diverted" and ns: "ndescs < 0 \<or> \<not> ionic_q_has_space q1 (nat ndescs)"
  proof -
    let ?q' = "(log_event (KfreeSkb skb1) q1)\<lparr>drop_count := drop_count q1 + 1\<rparr>"
    have qq: "q = the (hwstamp_txq lif)" using dv assms(4) by simp
    have dv': "CONFIG_PTP_1588_CLOCK env \<and> tx_flags_hw_tstamp skb \<and>
               hwstamp_txq lif \<noteq> None \<and> ts_config_tx_mode lif \<noteq> 0"
      using dv assms(2) by simp
    have dn: "ionic_tx_descs_needed env (the (hwstamp_txq lif)) skb = (ndescs, q1, skb1)"
      using assms(5) qq by simp
    have hx: "ionic_start_hwstamp_xmit env (the (hwstamp_txq lif)) skb = Some (NETDEV_TX_OK, ?q')"
      using ns by (auto simp: ionic_start_hwstamp_xmit_def dn)
    have sx: "ionic_start_xmit env lif skb = Some (NETDEV_TX_OK, lif\<lparr>hwstamp_txq := Some ?q'\<rparr>)"
      using assms(1) dv' hx by (simp add: ionic_start_xmit_def)
    have e: "events ?q' = events q @ [KfreeSkb skb1]"
      "posts ?q' = posts q" "stopped ?q' = stopped q" "head_idx ?q' = head_idx q"
      "tail_idx ?q' = tail_idx q" "info ?q' = info q"
      using fr by (simp_all add: log_event_def)
    show ?thesis using sx e by blast
  qed
  show ?thesis using n h by blast
qed

theorem start_xmit_backpressure_witness:
  "IONIC_LIF_F_UP lif0 \<and>
   \<not> (CONFIG_PTP_1588_CLOCK env0 \<and> tx_flags_hw_tstamp skb0 \<and> hwstamp_txq lif0 \<noteq> None \<and>
       ts_config_tx_mode lif0 \<noteq> 0) \<and>
   ionic_tx_descs_needed env0 (txqcqs lif0 ! 0) skb0 = (1, queue_full, skb0) \<and>
   \<not> ionic_q_has_space queue_full (nat 1) \<and>
   \<not> ionic_q_has_space (concurrent_clean env0 (stop_marked queue_full)) (nat 1) \<and>
   ionic_q_has_space (concurrent_clean env_race (stop_marked queue_full)) (nat 1) \<and>
   map_option fst (ionic_start_xmit env0 lif0 skb0) = Some NETDEV_TX_BUSY \<and>
   map_option fst (ionic_start_xmit env_race lif0 skb0) = Some NETDEV_TX_OK \<and>
   IONIC_LIF_F_UP lif_hw \<and>
   (CONFIG_PTP_1588_CLOCK env0 \<and> tx_flags_hw_tstamp skb_hw \<and> hwstamp_txq lif_hw \<noteq> None \<and>
       ts_config_tx_mode lif_hw \<noteq> 0) \<and>
   ionic_tx_descs_needed env0 (the (hwstamp_txq lif_hw)) skb_hw = (1, queue_full, skb_hw) \<and>
   map_option fst (ionic_start_xmit env0 lif_hw skb_hw) = Some NETDEV_TX_OK \<and>
   map_option (txqcqs \<circ> snd) (ionic_start_xmit env0 lif_hw skb_hw) = Some (txqcqs lif_hw) \<and>
   map_option (map_option stopped \<circ> hwstamp_txq \<circ> snd) (ionic_start_xmit env0 lif_hw skb_hw) =
     Some (Some (stopped queue_full))"
proof -
  have up: "IONIC_LIF_F_UP lif0" by (simp add: lif0_def)
  have nh: "\<not> (CONFIG_PTP_1588_CLOCK e \<and> tx_flags_hw_tstamp skb0 \<and> hwstamp_txq lif0 \<noteq> None \<and>
       ts_config_tx_mode lif0 \<noteq> 0)" for e
    by (simp add: lif0_def)
  have dv: "False = (CONFIG_PTP_1588_CLOCK e \<and> tx_flags_hw_tstamp skb0 \<and> hwstamp_txq lif0 \<noteq> None \<and>
       ts_config_tx_mode lif0 \<noteq> 0)" for e
    using nh[of e] by simp
  have qi: "(0::nat) = (if u16 (queue_mapping skb0) \<ge> nxqs lif0 then 0 else u16 (queue_mapping skb0))"
    by (simp add: skb0_def lif0_def u16_def)
  have q: "txqcqs lif0 ! 0 = queue_full" by (simp add: lif0_def)
  have qe: "queue_full = (if False then the (hwstamp_txq lif0) else txqcqs lif0 ! 0)"
    using q by simp
  have ms: "max_sg_elems queue_full = 2" "gso_size skb0 = 0" "length (skb_frags skb0) = 1"
    by (simp_all add: queue_full_def queue0_def skb0_def)
  have dn': "ionic_tx_descs_needed e queue_full skb0 = (1, queue_full, skb0)" for e
    by (simp add: ionic_tx_descs_needed_def ms)
  have dn: "ionic_tx_descs_needed e (txqcqs lif0 ! 0) skb0 = (1, queue_full, skb0)" for e
    unfolding q by (rule dn')
  have sp: "\<not> ionic_q_has_space queue_full (nat 1)"
    by (simp add: ionic_q_has_space_def ionic_q_space_avail_def queue_full_def queue0_def)
  have sp0: "\<not> ionic_q_has_space (concurrent_clean env0 (stop_marked queue_full)) (nat 1)"
    by (simp add: ionic_q_has_space_def ionic_q_space_avail_def queue_full_def queue0_def
        env0_def stop_marked_def log_event_def)
  have sp1: "ionic_q_has_space (concurrent_clean env_race (stop_marked queue_full)) (nat 1)"
    by (simp add: ionic_q_has_space_def ionic_q_space_avail_def queue_full_def queue0_def
        env_race_def env0_def stop_marked_def log_event_def)
  note t0 = start_xmit_backpressure [OF up dv[of env0] qi qe dn'[of env0], THEN conjunct1]
  note t1 = start_xmit_backpressure [OF up dv[of env_race] qi qe dn'[of env_race], THEN conjunct1]
  have busy: "map_option fst (ionic_start_xmit env0 lif0 skb0) = Some NETDEV_TX_BUSY"
    using t0 sp sp0 by simp
  have "ionic_start_xmit env_race lif0 skb0 =
          xmit_send env_race lif0 0 (woken (concurrent_clean env_race (stop_marked queue_full))) skb0"
    using t1 sp sp1 by simp
  then have ok: "map_option fst (ionic_start_xmit env_race lif0 skb0) = Some NETDEV_TX_OK"
    using xmit_send_nongso[OF ms(2), of env_race lif0 0
        "woken (concurrent_clean env_race (stop_marked queue_full))"]
    by auto
  have uph: "IONIC_LIF_F_UP lif_hw" by (simp add: lif_hw_def lif0_def)
  have hw: "CONFIG_PTP_1588_CLOCK env0 \<and> tx_flags_hw_tstamp skb_hw \<and> hwstamp_txq lif_hw \<noteq> None \<and>
       ts_config_tx_mode lif_hw \<noteq> 0"
    by (simp add: env0_def skb_hw_def lif_hw_def lif0_def)
  have dvh: "True = (CONFIG_PTP_1588_CLOCK env0 \<and> tx_flags_hw_tstamp skb_hw \<and>
       hwstamp_txq lif_hw \<noteq> None \<and> ts_config_tx_mode lif_hw \<noteq> 0)"
    using hw by simp
  have hq: "the (hwstamp_txq lif_hw) = queue_full" by (simp add: lif_hw_def)
  have qeh: "queue_full = (if True then the (hwstamp_txq lif_hw) else txqcqs lif_hw ! 0)"
    using hq by simp
  have msh: "gso_size skb_hw = 0" "length (skb_frags skb_hw) = 1"
    by (simp_all add: skb_hw_def skb0_def)
  have qih: "(0::nat) = (if u16 (queue_mapping skb_hw) \<ge> nxqs lif_hw then 0
                         else u16 (queue_mapping skb_hw))"
    by (simp add: skb_hw_def skb0_def lif_hw_def lif0_def u16_def)
  have dnh: "ionic_tx_descs_needed env0 queue_full skb_hw = (1, queue_full, skb_hw)"
    by (simp add: ionic_tx_descs_needed_def ms(1) msh)
  note th = start_xmit_backpressure [OF uph dvh qih qeh dnh, THEN conjunct2]
  from th sp obtain q' where
    r: "ionic_start_xmit env0 lif_hw skb_hw = Some (NETDEV_TX_OK, lif_hw\<lparr>hwstamp_txq := Some q'\<rparr>)"
    and st: "stopped q' = stopped queue_full"
    by auto
  have drop: "map_option fst (ionic_start_xmit env0 lif_hw skb_hw) = Some NETDEV_TX_OK"
    "map_option (txqcqs \<circ> snd) (ionic_start_xmit env0 lif_hw skb_hw) = Some (txqcqs lif_hw)"
    "map_option (map_option stopped \<circ> hwstamp_txq \<circ> snd) (ionic_start_xmit env0 lif_hw skb_hw) =
       Some (Some (stopped queue_full))"
    using r st by simp_all
  have dnh2: "ionic_tx_descs_needed env0 (the (hwstamp_txq lif_hw)) skb_hw = (1, queue_full, skb_hw)"
    using dnh hq by simp
  show ?thesis using up nh[of env0] dn[of env0] sp sp0 sp1 busy ok uph hw dnh2 drop
    by blast
qed

text \<open>
  C6, as stated, fails for a packet that asks for a hardware timestamp on an interface
  with a timestamping queue: when that queue lacks space, the packet is freed,
  \<open>NETDEV_TX_OK\<close> is returned, and no subqueue is stopped.
\<close>

theorem hwstamp_xmit_drops_counterexample:
  "IONIC_LIF_F_UP lif_hw \<and> \<not> ionic_q_has_space queue_full 1 \<and>
   map_option fst (ionic_start_xmit env0 lif_hw skb_hw) = Some NETDEV_TX_OK \<and>
   map_option (hwstamp_txq \<circ> snd) (ionic_start_xmit env0 lif_hw skb_hw) =
     Some (Some ((log_event (KfreeSkb skb_hw) queue_full)\<lparr>drop_count := 1\<rparr>)) \<and>
   map_option (txqcqs \<circ> snd) (ionic_start_xmit env0 lif_hw skb_hw) = Some [queue_full]"
proof -
  have up: "IONIC_LIF_F_UP lif_hw" by (simp add: lif_hw_def lif0_def)
  have hw: "CONFIG_PTP_1588_CLOCK env0 \<and> tx_flags_hw_tstamp skb_hw \<and> hwstamp_txq lif_hw \<noteq> None \<and>
       ts_config_tx_mode lif_hw \<noteq> 0" "the (hwstamp_txq lif_hw) = queue_full"
    "txqcqs lif_hw = [queue_full]"
    by (simp_all add: env0_def skb_hw_def lif_hw_def lif0_def)
  have ms: "max_sg_elems queue_full = 2" "gso_size skb_hw = 0" "length (skb_frags skb_hw) = 1"
    "drop_count queue_full = 0"
    by (simp_all add: queue_full_def queue0_def skb_hw_def skb0_def)
  have dn: "ionic_tx_descs_needed env0 queue_full skb_hw = (1, queue_full, skb_hw)"
    by (simp add: ionic_tx_descs_needed_def ms)
  have sp: "\<not> ionic_q_has_space queue_full 1"
    by (simp add: ionic_q_has_space_def ionic_q_space_avail_def queue_full_def queue0_def)
  have hx: "ionic_start_hwstamp_xmit env0 queue_full skb_hw =
      Some (NETDEV_TX_OK, (log_event (KfreeSkb skb_hw) queue_full)\<lparr>drop_count := 1\<rparr>)"
    using sp by (simp add: ionic_start_hwstamp_xmit_def dn log_event_def ms)
  have "ionic_start_xmit env0 lif_hw skb_hw =
      Some (NETDEV_TX_OK,
            lif_hw\<lparr>hwstamp_txq := Some ((log_event (KfreeSkb skb_hw) queue_full)\<lparr>drop_count := 1\<rparr>)\<rparr>)"
    using up hw hx by (simp add: ionic_start_xmit_def)
  then show ?thesis using up sp hw(3) by simp
qed

text \<open>
  C7. The code on a packet of one head and one fragment. When the fragment's mapping
  fails, \<^verbatim>\<open>ionic_tx_map_skb\<close> returns \<open>-EIO\<close>, but the unwinding unmaps the address
  found in the buffer entry of the failed fragment (here the stale entry 0/0) and the
  head mapping at 4096 stays mapped. When the head's mapping fails,
  \<^verbatim>\<open>ionic_tx_map_single\<close> returns 0, which \<^verbatim>\<open>dma_mapping_error\<close> does not take for
  an error: \<^verbatim>\<open>ionic_tx_map_skb\<close> returns 0 with both buffers counted and the head
  address 0.
\<close>

theorem tx_map_skb_unwind_misses_head:
  "fst (ionic_tx_map_skb env_fragfail queue0 skb0 0) = - 5 \<and>
   events (snd (ionic_tx_map_skb env_fragfail queue0 skb0 0)) =
     [DmaMapSingle 4096 60, DmaUnmapSingle 0 0] \<and>
   fst (ionic_tx_map_skb env_headfail queue0 skb0 0) = 0 \<and>
   nbufs (info (snd (ionic_tx_map_skb env_headfail queue0 skb0 0)) ! 0) = 2 \<and>
   dma_addr (get_buf (snd (ionic_tx_map_skb env_headfail queue0 skb0 0)) 0 0) = 0"
  by (simp add: ionic_tx_map_skb_def ionic_tx_map_single_def ionic_tx_map_frag_def
      env_fragfail_def env_headfail_def env0_def queue0_def skb0_def slot0_def buf0_def
      dma_mapping_error_def DMA_MAPPING_ERROR_def log_event_def Let_def set_buf_def get_buf_def)

text \<open>
  C5. For a packet of positive length and positive MSS, when \<open>ionic_tx_tso\<close> returns
  success the descriptors it posted are a non-empty run in which the first one, and no
  other, carries the start-of-transfer flag, the last one, and no other, carries the
  end-of-transfer flag (a run of one descriptor carries both), the first one is posted with
  the completion callback and the packet as its argument, and every other one with no
  callback and no argument. When header and MSS together fit 16 bits and the slot has
  fewer than 256 buffers, the bytes that the descriptors cover, each with its
  scatter-gather elements, are in order: header plus MSS for the first (the whole packet
  if it is shorter), one MSS for each following one, and what remains for the last; so
  they add up to the packet length and the descriptor with the end-of-transfer flag ends
  at the packet's last byte. The function does return success when the mappings and
  \<open>skb_cow_head\<close> succeed and the slot can hold the packet's buffers.
\<close>

theorem tso_descriptor_flags:
  assumes "ring_ok k q" and "0 < skb_len skb" and "0 < gso_size skb"
  shows "(\<forall>q'. ionic_tx_tso env q skb = Some (0, q') \<longrightarrow>
            (\<exists>new. posts q' = posts q @ new \<and> new \<noteq> [] \<and>
               map (FLAG_TSO_SOT \<circ> p_desc) new = True # replicate (length new - 1) False \<and>
               map (FLAG_TSO_EOT \<circ> p_desc) new = replicate (length new - 1) False @ [True] \<and>
               map p_cb new = Some ionic_tx_clean_cb # replicate (length new - 1) None \<and>
               map p_cb_arg new = Some skb # replicate (length new - 1) None \<and>
               (tso_hdrlen skb + gso_size skb < 65536 \<and>
                length (bufs (info q ! head_idx q)) < 256 \<longrightarrow>
                  map posted_bytes new =
                    tso_seg_sizes (skb_len skb) (tso_hdrlen skb + gso_size skb) (gso_size skb) \<and>
                  sum_list (map posted_bytes new) = skb_len skb \<and>
                  (\<forall>p \<in> set new. 0 < posted_bytes p)))) \<and>
         (tso_inputs_ok env q skb \<longrightarrow> (\<exists>q'. ionic_tx_tso env q skb = Some (0, q')))"
proof -
  have a: "\<exists>new. posts q' = posts q @ new \<and> new \<noteq> [] \<and>
               map (FLAG_TSO_SOT \<circ> p_desc) new = True # replicate (length new - 1) False \<and>
               map (FLAG_TSO_EOT \<circ> p_desc) new = replicate (length new - 1) False @ [True] \<and>
               map p_cb new = Some ionic_tx_clean_cb # replicate (length new - 1) None \<and>
               map p_cb_arg new = Some skb # replicate (length new - 1) None \<and>
               (tso_hdrlen skb + gso_size skb < 65536 \<and>
                length (bufs (info q ! head_idx q)) < 256 \<longrightarrow>
                  map posted_bytes new =
                    tso_seg_sizes (skb_len skb) (tso_hdrlen skb + gso_size skb) (gso_size skb) \<and>
                  sum_list (map posted_bytes new) = skb_len skb \<and>
                  (\<forall>p \<in> set new. 0 < posted_bytes p))"
    if run: "ionic_tx_tso env q skb = Some (0, q')" for q'
  proof -
    from tx_tso_posts[OF run assms(1,2)]
    obtain new where n: "posts q' = posts q @ new" "tso_pattern skb True new" by blast
    have b: "map posted_bytes new =
                    tso_seg_sizes (skb_len skb) (tso_hdrlen skb + gso_size skb) (gso_size skb) \<and>
                  sum_list (map posted_bytes new) = skb_len skb \<and>
                  (\<forall>p \<in> set new. 0 < posted_bytes p)"
      if h: "tso_hdrlen skb + gso_size skb < 65536 \<and> length (bufs (info q ! head_idx q)) < 256"
    proof -
      from tx_tso_bytes[OF run assms(1,2,3)] h
      obtain new' where n': "posts q' = posts q @ new'"
        "map posted_bytes new' =
           tso_seg_sizes (skb_len skb) (tso_hdrlen skb + gso_size skb) (gso_size skb)"
        by blast
      have eq: "new' = new" using n(1) n'(1) by simp
      let ?f = "min (skb_len skb) (tso_hdrlen skb + gso_size skb)"
      have m: "map posted_bytes new = ?f # tso_rest (skb_len skb - ?f) (gso_size skb)"
        using n'(2) eq by (simp add: tso_seg_sizes_def)
      have "sum_list (map posted_bytes new) = ?f + (skb_len skb - ?f)"
        unfolding m by (simp add: sum_tso_rest)
      then have s: "sum_list (map posted_bytes new) = skb_len skb" by simp
      have fp: "0 < ?f" using assms(2,3) by simp
      have "\<forall>x \<in> set (map posted_bytes new). 0 < x"
        unfolding m using fp tso_rest_pos[OF assms(3)] by auto
      then have p: "\<forall>p \<in> set new. 0 < posted_bytes p" by simp
      show ?thesis using n'(2) eq s p by simp
    qed
    have pat: "new \<noteq> []"
      "map (FLAG_TSO_SOT \<circ> p_desc) new = True # replicate (length new - 1) False"
      "map (FLAG_TSO_EOT \<circ> p_desc) new = replicate (length new - 1) False @ [True]"
      "map p_cb new = Some ionic_tx_clean_cb # replicate (length new - 1) None"
      "map p_cb_arg new = Some skb # replicate (length new - 1) None"
      using n(2) by (simp_all add: tso_pattern_def)
    show ?thesis
      by (rule exI[of _ new], intro conjI impI) (use n(1) pat b in blast)+
  qed
  have b: "\<exists>q'. ionic_tx_tso env q skb = Some (0, q')" if "tso_inputs_ok env q skb"
    using tx_tso_total[OF assms that] .
  show ?thesis using a b by blast
qed

theorem tso_descriptor_flags_witness:
  "ring_ok 2 queue0 \<and> 0 < skb_len skb_tso \<and> 0 < gso_size skb_tso \<and>
   tso_inputs_ok env0 queue0 skb_tso \<and>
   tso_hdrlen skb_tso + gso_size skb_tso < 65536 \<and>
   length (bufs (info queue0 ! head_idx queue0)) < 256 \<and>
   (\<exists>q' new. ionic_tx_tso env0 queue0 skb_tso = Some (0, q') \<and>
      posts q' = posts queue0 @ new \<and>
      map (FLAG_TSO_SOT \<circ> p_desc) new = [True, False, False] \<and>
      map (FLAG_TSO_EOT \<circ> p_desc) new = [False, False, True] \<and>
      map p_cb new = [Some ionic_tx_clean_cb, None, None] \<and>
      map p_cb_arg new = [Some skb_tso, None, None] \<and>
      map posted_bytes new = [1054, 1000, 946])"
proof -
  have a: "ring_ok 2 queue0" by (simp add: ring_ok_def queue0_def)
  have b: "0 < skb_len skb_tso" by (simp add: skb_tso_def)
  have c: "0 < gso_size skb_tso" by (simp add: skb_tso_def)
  have d1: "1 + length (skb_frags skb_tso) \<le> length (bufs (info queue0 ! head_idx queue0))"
    by (simp add: skb_tso_def queue0_def slot0_def)
  have d2: "skb_len skb_tso \<le> skb_headlen skb_tso + sum_list (skb_frags skb_tso)"
    by (simp add: skb_tso_def)
  have d3: "tso_hdrlen skb_tso + gso_size skb_tso < 2 ^ 32"
    by (simp add: tso_hdrlen_def skb_tso_def skb0_def)
  have d4: "\<forall>n. skb_cow_head env0 n = 0" by (simp add: env0_def)
  have d: "tso_inputs_ok env0 queue0 skb_tso"
    unfolding tso_inputs_ok_def using env0_maps_succeed d1 d2 d3 d4 by blast
  have e: "tso_hdrlen skb_tso + gso_size skb_tso < 65536"
    by (simp add: tso_hdrlen_def skb_tso_def skb0_def)
  have f: "length (bufs (info queue0 ! head_idx queue0)) < 256"
    by (simp add: queue0_def slot0_def)
  have sz: "tso_seg_sizes (skb_len skb_tso) (tso_hdrlen skb_tso + gso_size skb_tso)
              (gso_size skb_tso) = [1054, 1000, 946]"
    by (simp add: tso_seg_sizes_def tso_rest_def tso_hdrlen_def skb_tso_def skb0_def)
  note t = tso_descriptor_flags[OF a b c, of env0]
  from t[THEN conjunct2] d obtain q' where r: "ionic_tx_tso env0 queue0 skb_tso = Some (0, q')"
    by blast
  from t[THEN conjunct1, rule_format, OF r] e f sz
  obtain new where n: "posts q' = posts queue0 @ new"
      "map (FLAG_TSO_SOT \<circ> p_desc) new = True # replicate (length new - 1) False"
      "map (FLAG_TSO_EOT \<circ> p_desc) new = replicate (length new - 1) False @ [True]"
      "map p_cb new = Some ionic_tx_clean_cb # replicate (length new - 1) None"
      "map p_cb_arg new = Some skb_tso # replicate (length new - 1) None"
      "map posted_bytes new = [1054, 1000, 946]"
    by auto
  have "length (map posted_bytes new) = 3" unfolding n(6) by simp
  then have l: "length new - 1 = Suc (Suc 0)" by simp
  have g: "map (FLAG_TSO_SOT \<circ> p_desc) new = [True, False, False]"
      "map (FLAG_TSO_EOT \<circ> p_desc) new = [False, False, True]"
      "map p_cb new = [Some ionic_tx_clean_cb, None, None]"
      "map p_cb_arg new = [Some skb_tso, None, None]"
    using n(2-5) unfolding l by simp_all
  have ex: "\<exists>q' new. ionic_tx_tso env0 queue0 skb_tso = Some (0, q') \<and>
      posts q' = posts queue0 @ new \<and>
      map (FLAG_TSO_SOT \<circ> p_desc) new = [True, False, False] \<and>
      map (FLAG_TSO_EOT \<circ> p_desc) new = [False, False, True] \<and>
      map p_cb new = [Some ionic_tx_clean_cb, None, None] \<and>
      map p_cb_arg new = [Some skb_tso, None, None] \<and>
      map posted_bytes new = [1054, 1000, 946]"
    by (rule exI[of _ q'], rule exI[of _ new], intro conjI) (rule r n(1) g n(6))+
  show ?thesis using a b c d e f ex by (intro conjI)
qed

end
